(* ===== verification/Prelude.thy ===== *)
theory Prelude
  imports Main "HOL-Library.Word" "HOL-Library.Char_ord" "HOL-Library.List_Lexorder"
    "HOL-Library.Multiset"
begin

unbundle bit_operations_syntax

text \<open>
  Shared vocabulary of the development: the outcome type of code that can fault, and the parts
  of the C library the sources call (\<^verbatim>\<open>strchr\<close>, \<^verbatim>\<open>strtok_r\<close>, \<^verbatim>\<open>strsep\<close>, \<^verbatim>\<open>atoi\<close>, \<^verbatim>\<open>tolower\<close>,
  \<^verbatim>\<open>isspace\<close>, \<^verbatim>\<open>%d\<close> of \<^verbatim>\<open>printf\<close>), with the lemmas the components share.

  A \<^verbatim>\<open>char *\<close> that the code treats as a C string is the \<open>string\<close> of its characters before the
  terminating NUL; a pointer that may be NULL is a \<open>string option\<close>.  A byte buffer that the code
  fills first and then reads as a C string is cut at its first NUL by \<open>cstr\<close> at the place where
  the code does so.
\<close>

named_theorems res_simps \<open>rewrite rules for the fault monad\<close>
named_theorems clib_simps \<open>rewrite rules for the C library functions\<close>

type_synonym byte = "8 word"
type_synonym cstring = "string"

subsection \<open>Code that can fault\<close>

text \<open>
  \<open>Null_Pointer\<close>: a NULL pointer is read through.  \<open>Out_Of_Bounds\<close>: a byte outside a buffer is
  read.  \<open>Assert_Failed\<close>: an \<^verbatim>\<open>assert\<close> aborts the process.  \<open>Diverges\<close>: a loop does not end.  A model of fallible code returns \<open>Inl\<close> of one of them
  or \<open>Inr\<close> of its result.
\<close>

datatype fault = Null_Pointer | Out_Of_Bounds | Assert_Failed | Diverges

type_synonym 'a res = "fault + 'a"

definition res_bind :: "'a res \<Rightarrow> ('a \<Rightarrow> 'b res) \<Rightarrow> 'b res" where
  "res_bind r f = (case r of Inl e \<Rightarrow> Inl e | Inr x \<Rightarrow> f x)"

definition deref :: "'a option \<Rightarrow> 'a res" where
  "deref p = (case p of None \<Rightarrow> Inl Null_Pointer | Some x \<Rightarrow> Inr x)"

fun res_fold :: "('a \<Rightarrow> 's \<Rightarrow> 's res) \<Rightarrow> 'a list \<Rightarrow> 's \<Rightarrow> 's res" where
  "res_fold f [] s = Inr s"
| "res_fold f (x # xs) s = res_bind (f x s) (res_fold f xs)"

lemma res_bind_simps [simp, res_simps]:
  "res_bind (Inl e) f = Inl e"
  "res_bind (Inr x) f = f x"
  by (simp_all add: res_bind_def)

lemma res_bind_cong [fundef_cong]:
  assumes "r = r'" and "\<And>x. r' = Inr x \<Longrightarrow> f x = f' x"
  shows "res_bind r f = res_bind r' f'"
  using assms by (cases r') simp_all

lemma deref_simps [simp, res_simps]:
  "deref None = Inl Null_Pointer"
  "deref (Some x) = Inr x"
  by (simp_all add: deref_def)

lemma res_bind_Inr_iff [simp]:
  "res_bind r f = Inr y \<longleftrightarrow> (\<exists>x. r = Inr x \<and> f x = Inr y)"
  by (cases r) simp_all

lemma res_bind_Inr_E:
  assumes "res_bind r f = Inr y"
  obtains x where "r = Inr x" "f x = Inr y"
  using assms by auto

lemma res_bind_total:
  "\<exists>x. r = Inr x \<Longrightarrow> (\<And>x. r = Inr x \<Longrightarrow> \<exists>y. f x = Inr y) \<Longrightarrow> \<exists>y. res_bind r f = Inr y"
  by auto

lemma deref_Inr_iff [simp]: "deref p = Inr x \<longleftrightarrow> p = Some x"
  by (cases p) simp_all

lemma res_fold_append: "res_fold f (xs @ ys) s = res_bind (res_fold f xs s) (res_fold f ys)"
proof (induction xs arbitrary: s)
  case (Cons x xs)
  then show ?case by (cases "f x s") simp_all
qed simp

text \<open>An invariant kept by every successful step is kept by the whole fold.\<close>

lemma res_fold_invariant:
  assumes "\<And>x s s'. x \<in> set xs \<Longrightarrow> I s \<Longrightarrow> f x s = Inr s' \<Longrightarrow> I s'"
    and "I s" and "res_fold f xs s = Inr s'"
  shows "I s'"
  using assms
proof (induction xs arbitrary: s)
  case (Cons x xs)
  from Cons.prems(3) obtain s1 where "f x s = Inr s1" and "res_fold f xs s1 = Inr s'"
    by auto
  moreover have "I s1"
    using Cons.prems(1) [of x s s1] Cons.prems(2) \<open>f x s = Inr s1\<close> by simp
  ultimately show ?case
    by (intro Cons.IH [of s1]) (auto intro: Cons.prems(1))
qed simp

text \<open>A fold whose steps never fault under an invariant does not fault.\<close>

lemma res_fold_total:
  assumes "\<And>x s. x \<in> set xs \<Longrightarrow> I s \<Longrightarrow> \<exists>s'. f x s = Inr s' \<and> I s'"
    and "I s"
  shows "\<exists>s'. res_fold f xs s = Inr s' \<and> I s'"
  using assms
proof (induction xs arbitrary: s)
  case (Cons x xs)
  obtain s1 where s1: "f x s = Inr s1" "I s1"
    using Cons.prems(1) [of x s] Cons.prems(2) by auto
  have "\<exists>s'. res_fold f xs s1 = Inr s' \<and> I s'"
    using Cons.IH [of s1] Cons.prems(1) s1(2) by simp
  with s1 show ?case by simp
qed simp

lemma res_fold_pure: "res_fold (\<lambda>x s. Inr (f x s)) xs s = Inr (fold f xs s)"
  by (induction xs arbitrary: s) simp_all

subsection \<open>Characters\<close>

definition NUL :: char where "NUL = CHR 0x00"

definition cstr :: "string \<Rightarrow> string" where
  "cstr buf = takeWhile (\<lambda>c. c \<noteq> NUL) buf"

definition byte_of_char :: "char \<Rightarrow> byte" where
  "byte_of_char c = word_of_nat (of_char c)"

definition char_of_byte :: "byte \<Rightarrow> char" where
  "char_of_byte b = char_of (unat b)"

lemma char_of_byte_inverse [simp]: "byte_of_char (char_of_byte b) = b"
proof -
  have "unat b < 256" using unsigned_less [of b] by simp
  then show ?thesis by (simp add: byte_of_char_def char_of_byte_def)
qed

lemma byte_of_char_inverse [simp]: "char_of_byte (byte_of_char c) = c"
proof -
  have "(of_char c :: nat) < 256" by simp
  then have "unat (word_of_nat (of_char c) :: byte) = of_char c"
    by (simp add: unat_of_nat)
  then show ?thesis by (simp add: byte_of_char_def char_of_byte_def)
qed

lemma inj_byte_of_char: "inj byte_of_char"
  by (metis byte_of_char_inverse injI)

lemma inj_char_of_byte: "inj char_of_byte"
  by (metis char_of_byte_inverse injI)

lemma cstr_no_NUL [simp]: "NUL \<notin> set (cstr buf)"
  by (auto simp: cstr_def dest: set_takeWhileD)

lemma cstr_id [simp]: "NUL \<notin> set s \<Longrightarrow> cstr s = s"
  by (auto simp: cstr_def takeWhile_eq_all_conv)

lemma cstr_idem: "cstr (cstr s) = cstr s"
  by simp

lemma cstr_append_NUL: "NUL \<notin> set s \<Longrightarrow> cstr (s @ NUL # r) = s"
  by (induction s) (auto simp: cstr_def)

lemma length_cstr_le: "length (cstr s) \<le> length s"
  by (simp add: cstr_def length_takeWhile_le)

definition isdigit :: "char \<Rightarrow> bool" where
  "isdigit c \<longleftrightarrow> 48 \<le> (of_char c :: nat) \<and> (of_char c :: nat) \<le> 57"

definition isspace :: "char \<Rightarrow> bool" where
  "isspace c \<longleftrightarrow> c = CHR '' '' \<or> (9 \<le> (of_char c :: nat) \<and> (of_char c :: nat) \<le> 13)"

definition tolower :: "char \<Rightarrow> char" where
  "tolower c = (if 65 \<le> (of_char c :: nat) \<and> (of_char c :: nat) \<le> 90
                then char_of ((of_char c :: nat) + 32) else c)"

lemma tolower_idem [simp]: "tolower (tolower c) = tolower c"
  by (auto simp: tolower_def)

subsection \<open>Searching and tokenising\<close>

text \<open>\<^verbatim>\<open>strchr\<close> and \<^verbatim>\<open>index\<close>: the position of the first occurrence of a character other than NUL.\<close>

fun strchr :: "string \<Rightarrow> char \<Rightarrow> nat option" where
  "strchr [] c = None"
| "strchr (x # xs) c = (if x = c then Some 0 else map_option Suc (strchr xs c))"

lemma strchr_None_iff [simp]: "strchr s c = None \<longleftrightarrow> c \<notin> set s"
  by (induction s) auto

lemma strchr_absent: "c \<notin> set s \<Longrightarrow> strchr s c = None"
  by simp

lemma strchr_SomeD:
  "strchr s c = Some n \<Longrightarrow> n < length s \<and> s ! n = c \<and> c \<notin> set (take n s)"
  by (induction s arbitrary: n) (auto split: if_splits)

lemma strchr_append [simp]: "c \<notin> set a \<Longrightarrow> strchr (a @ c # b) c = Some (length a)"
  by (induction a) auto

lemma strchr_split:
  assumes "strchr s c = Some n"
  shows "s = take n s @ c # drop (Suc n) s"
  using strchr_SomeD [OF assms] by (metis id_take_nth_drop)

lemma strchr_rest_iff:
  "(case strchr s c of None \<Rightarrow> False | Some n \<Rightarrow> P (take n s) (drop (Suc n) s))
    \<longleftrightarrow> (\<exists>a b. s = a @ c # b \<and> c \<notin> set a \<and> P a b)"
proof (cases "strchr s c")
  case None
  then have "c \<notin> set s" by simp
  with None show ?thesis by (simp only: option.case) auto
next
  case (Some n)
  show ?thesis
  proof
    assume "case strchr s c of None \<Rightarrow> False | Some n \<Rightarrow> P (take n s) (drop (Suc n) s)"
    with Some strchr_split [OF Some] strchr_SomeD [OF Some]
    show "\<exists>a b. s = a @ c # b \<and> c \<notin> set a \<and> P a b" by auto
  next
    assume "\<exists>a b. s = a @ c # b \<and> c \<notin> set a \<and> P a b"
    then show "case strchr s c of None \<Rightarrow> False | Some n \<Rightarrow> P (take n s) (drop (Suc n) s)"
      by auto
  qed
qed

text \<open>
  \<^verbatim>\<open>strtok_r\<close> skips leading delimiters and returns the longest run of other characters, with the
  rest of the buffer; \<open>strtok_all\<close> is the loop the sources write around it.
\<close>

definition strtok_r :: "string \<Rightarrow> string \<Rightarrow> (string \<times> string) option" where
  "strtok_r delim s =
     (let s' = dropWhile (\<lambda>c. c \<in> set delim) s
      in if s' = [] then None
         else Some (takeWhile (\<lambda>c. c \<notin> set delim) s', tl (dropWhile (\<lambda>c. c \<notin> set delim) s')))"

lemma strtok_r_shorter: "strtok_r delim s = Some (tok, rest) \<Longrightarrow> length rest < length s"
proof -
  assume a: "strtok_r delim s = Some (tok, rest)"
  define s' where "s' = dropWhile (\<lambda>c. c \<in> set delim) s"
  have ne: "s' \<noteq> []" and rest: "rest = tl (dropWhile (\<lambda>c. c \<notin> set delim) s')"
    using a by (auto simp: strtok_r_def s'_def Let_def split: if_splits)
  have "length (dropWhile (\<lambda>c. c \<notin> set delim) s') \<le> length s'"
    by (rule length_dropWhile_le)
  moreover have "length s' \<le> length s"
    unfolding s'_def by (rule length_dropWhile_le)
  moreover have "0 < length s'" using ne by blast
  ultimately have "length (dropWhile (\<lambda>c. c \<notin> set delim) s') - 1 < length s"
    by linarith
  then show ?thesis by (simp add: rest)
qed

function strtok_all :: "string \<Rightarrow> string \<Rightarrow> string list" where
  "strtok_all delim s =
     (case strtok_r delim s of None \<Rightarrow> [] | Some (tok, rest) \<Rightarrow> tok # strtok_all delim rest)"
  by pat_completeness auto
termination
  by (relation "measure (\<lambda>(delim, s). length s)") (auto dest: strtok_r_shorter)

declare strtok_all.simps [simp del]

lemma strtok_r_token:
  assumes "strtok_r delim s = Some (tok, rest)"
  shows "tok \<noteq> [] \<and> set tok \<inter> set delim = {} \<and> set tok \<subseteq> set s \<and> set rest \<subseteq> set s"
proof -
  define s' where "s' = dropWhile (\<lambda>c. c \<in> set delim) s"
  have ne: "s' \<noteq> []" and tok: "tok = takeWhile (\<lambda>c. c \<notin> set delim) s'"
    and rest: "rest = tl (dropWhile (\<lambda>c. c \<notin> set delim) s')"
    using assms by (auto simp: strtok_r_def s'_def Let_def split: if_splits)
  have hd: "hd s' \<notin> set delim"
    using ne hd_dropWhile [of "\<lambda>c. c \<in> set delim" s] by (simp add: s'_def)
  have "tok \<noteq> []" using ne hd by (cases s') (auto simp: tok)
  moreover have "set tok \<inter> set delim = {}"
    by (auto simp: tok dest: set_takeWhileD)
  moreover have s's: "set s' \<subseteq> set s" by (auto simp: s'_def dest: set_dropWhileD)
  moreover have "set tok \<subseteq> set s'" by (auto simp: tok dest: set_takeWhileD)
  moreover have "set rest \<subseteq> set s'"
  proof
    fix x assume "x \<in> set rest"
    then have "x \<in> set (dropWhile (\<lambda>c. c \<notin> set delim) s')"
      unfolding rest by (metis list.sel(2) list.set_sel(2))
    then show "x \<in> set s'" by (rule set_dropWhileD)
  qed
  ultimately show ?thesis by blast
qed

lemma strtok_all_tokens:
  "t \<in> set (strtok_all delim s) \<Longrightarrow> t \<noteq> [] \<and> set t \<inter> set delim = {} \<and> set t \<subseteq> set s"
proof (induction delim s rule: strtok_all.induct)
  case (1 delim s)
  show ?case
  proof (cases "strtok_r delim s")
    case None
    with "1.prems" show ?thesis by (simp add: strtok_all.simps)
  next
    case (Some p)
    obtain tok rest where p: "p = (tok, rest)" by (cases p)
    from "1.prems" Some p consider "t = tok" | "t \<in> set (strtok_all delim rest)"
      by (auto simp: strtok_all.simps [of delim s])
    then show ?thesis
      using "1.IH" [of p tok rest] strtok_r_token [of delim s tok rest] Some p by cases blast+
  qed
qed

lemma strtok_all_token_Nil:
  assumes "s \<noteq> []" and "set s \<inter> set delim = {}"
  shows "strtok_all delim s = [s]"
proof -
  from assms have dw: "dropWhile (\<lambda>c. c \<in> set delim) s = s"
    by (cases s) auto
  from assms have tw: "takeWhile (\<lambda>c. c \<notin> set delim) s = s"
    "dropWhile (\<lambda>c. c \<notin> set delim) s = []"
    by (auto simp: takeWhile_eq_all_conv)
  show ?thesis
    using assms(1) by (simp add: strtok_all.simps strtok_r_def dw tw Let_def)
qed

lemma strtok_all_token_Cons:
  assumes "t \<noteq> []" and "set t \<inter> set delim = {}" and "d \<in> set delim"
  shows "strtok_all delim (t @ d # s) = t # strtok_all delim s"
proof -
  from assms have dw: "dropWhile (\<lambda>c. c \<in> set delim) (t @ d # s) = t @ d # s"
    by (cases t) auto
  from assms have tw: "takeWhile (\<lambda>c. c \<notin> set delim) (t @ d # s) = t"
    "dropWhile (\<lambda>c. c \<notin> set delim) (t @ d # s) = d # s"
    by (auto simp: takeWhile_append2 dropWhile_append2 disjoint_iff)
  show ?thesis
    by (simp add: strtok_all.simps [of delim "t @ d # s"] strtok_r_def dw tw Let_def)
qed

text \<open>
  \<^verbatim>\<open>strsep\<close> cuts at the first delimiter and keeps empty fields; after the last field the pointer
  becomes NULL, so \<open>strsep_all\<close> of the empty string is one empty field.
\<close>

fun strsep_all :: "string \<Rightarrow> string \<Rightarrow> string list" where
  "strsep_all delim [] = [[]]"
| "strsep_all delim (c # s) =
     (if c \<in> set delim then [] # strsep_all delim s
      else (case strsep_all delim s of [] \<Rightarrow> [[c]] | t # ts \<Rightarrow> (c # t) # ts))"

lemma strsep_all_not_Nil [simp]: "strsep_all delim s \<noteq> []"
  by (induction s) (auto split: list.splits)

lemma strsep_all_tokens:
  "t \<in> set (strsep_all delim s) \<Longrightarrow> set t \<inter> set delim = {} \<and> set t \<subseteq> set s"
proof (induction s arbitrary: t)
  case (Cons c s)
  show ?case
  proof (cases "c \<in> set delim")
    case True
    with Cons show ?thesis by auto
  next
    case False
    obtain u us where u: "strsep_all delim s = u # us"
      by (cases "strsep_all delim s") auto
    with Cons.prems False have "t = c # u \<or> t \<in> set us" by auto
    then show ?thesis
      using Cons.IH [of u] Cons.IH [of t] u False by auto
  qed
qed simp

lemma strsep_all_single: "set s \<inter> set delim = {} \<Longrightarrow> strsep_all delim s = [s]"
  by (induction s) auto

lemma strsep_all_append:
  "set t \<inter> set delim = {} \<Longrightarrow> d \<in> set delim \<Longrightarrow>
   strsep_all delim (t @ d # s) = t # strsep_all delim s"
  by (induction t) auto

text \<open>Nothing is lost by \<^verbatim>\<open>strsep\<close>: the fields hold exactly the characters that are no delimiters.\<close>

lemma concat_strsep_all: "concat (strsep_all delim s) = filter (\<lambda>c. c \<notin> set delim) s"
  by (induction s) (auto split: list.splits)

subsection \<open>Numbers\<close>

text \<open>
  \<^verbatim>\<open>atoi\<close> as the C library computes it on the machines the plugin runs on (64-bit \<^verbatim>\<open>long\<close>, 32-bit
  \<^verbatim>\<open>int\<close>): \<^verbatim>\<open>strtol\<close> skips white space, reads an optional sign and the digits that follow, saturates
  at the bounds of \<^verbatim>\<open>long\<close>, and the result is cut to 32 bits.
\<close>

fun digits_val :: "nat \<Rightarrow> string \<Rightarrow> nat" where
  "digits_val acc [] = acc"
| "digits_val acc (c # cs) =
     (if isdigit c then digits_val (10 * acc + ((of_char c :: nat) - 48)) cs else acc)"

definition strtol10 :: "string \<Rightarrow> int" where
  "strtol10 s =
     (let s' = dropWhile isspace s;
          v = (case s' of
                 [] \<Rightarrow> 0
               | c # cs \<Rightarrow> (if c = CHR ''-'' then - int (digits_val 0 cs)
                            else if c = CHR ''+'' then int (digits_val 0 cs)
                            else int (digits_val 0 s')))
      in max (- (2 ^ 63)) (min (2 ^ 63 - 1) v))"

definition atoi :: "string \<Rightarrow> int" where
  "atoi s = signed_take_bit 31 (strtol10 s)"

text \<open>
  \<^verbatim>\<open>strtoul\<close> to base 10: the number and the text after it, which is the whole text if there are no
  digits.
\<close>

definition strtoul10 :: "string \<Rightarrow> nat \<times> string" where
  "strtoul10 s =
     (let s1 = dropWhile isspace s;
          neg = (s1 \<noteq> [] \<and> hd s1 = CHR ''-'');
          s2 = (if s1 \<noteq> [] \<and> (hd s1 = CHR ''-'' \<or> hd s1 = CHR ''+'') then tl s1 else s1);
          ds = takeWhile isdigit s2;
          v = digits_val 0 ds
      in if ds = [] then (0, s)
         else (if v \<ge> 2 ^ 64 then 2 ^ 64 - 1 else if neg then (2 ^ 64 - v) mod 2 ^ 64 else v, drop (length ds) s2))"

text \<open>The conversion \<^verbatim>\<open>%d\<close> of \<^verbatim>\<open>printf\<close>.\<close>

definition digit_char :: "nat \<Rightarrow> char" where
  "digit_char d = char_of (48 + d)"

fun print_nat :: "nat \<Rightarrow> string" where
  "print_nat n = (if n < 10 then [digit_char n] else print_nat (n div 10) @ [digit_char (n mod 10)])"

declare print_nat.simps [simp del]

definition print_int :: "int \<Rightarrow> string" where
  "print_int i = (if i < 0 then CHR ''-'' # print_nat (nat (- i)) else print_nat (nat i))"

lemma atoi_range: "- (2 ^ 31) \<le> atoi s \<and> atoi s < 2 ^ 31"
  unfolding atoi_def
  using signed_take_bit_int_greater_eq_minus_exp [of 31 "strtol10 s"]
    signed_take_bit_int_less_exp [of 31 "strtol10 s"] by simp

lemma of_char_digit_char: "d < 10 \<Longrightarrow> of_char (digit_char d) = 48 + d"
  by (simp add: digit_char_def)

lemma isdigit_digit_char [simp]: "d < 10 \<Longrightarrow> isdigit (digit_char d)"
  by (simp add: isdigit_def of_char_digit_char)

lemma print_nat_digits: "c \<in> set (print_nat n) \<Longrightarrow> isdigit c"
proof (induction n rule: print_nat.induct)
  case (1 n)
  then show ?case
    by (cases "n < 10") (auto simp: print_nat.simps [of n])
qed

lemma print_nat_not_Nil [simp]: "print_nat n \<noteq> []"
  by (subst print_nat.simps) simp

lemma length_print_nat: "n < 10 ^ k \<Longrightarrow> 0 < k \<Longrightarrow> length (print_nat n) \<le> k"
proof (induction k arbitrary: n)
  case (Suc k)
  show ?case
  proof (cases "n < 10")
    case False
    then have "0 < k" using Suc.prems by (cases k) auto
    moreover have "n div 10 < 10 ^ k" using Suc.prems by (simp add: less_mult_imp_div_less mult.commute)
    ultimately have "length (print_nat (n div 10)) \<le> k" by (intro Suc.IH)
    with False show ?thesis by (subst print_nat.simps) simp
  qed (subst print_nat.simps, simp)
qed simp

lemma NUL_print_nat: "NUL \<notin> set (print_nat n)"
  using print_nat_digits [of NUL n] by (auto simp: isdigit_def NUL_def)

lemma digits_val_append:
  "\<forall>c \<in> set ds. isdigit c \<Longrightarrow> digits_val acc (ds @ cs) = digits_val (digits_val acc ds) cs"
  by (induction ds arbitrary: acc) auto

lemma digits_val_print_nat: "digits_val 0 (print_nat n) = n"
proof (induction n rule: print_nat.induct)
  case (1 n)
  show ?case
  proof (cases "n < 10")
    case True
    then show ?thesis by (subst print_nat.simps) (simp add: of_char_digit_char)
  next
    case False
    have "digits_val 0 (print_nat (n div 10) @ [digit_char (n mod 10)])
        = digits_val (n div 10) [digit_char (n mod 10)]"
      using "1.IH" [OF False] by (simp add: digits_val_append print_nat_digits)
    also have "\<dots> = n" by (simp add: of_char_digit_char)
    finally show ?thesis using False by (subst print_nat.simps) simp
  qed
qed

lemma isdigit_not_special:
  assumes "isdigit c"
  shows "\<not> isspace c" and "c \<noteq> CHR ''-''" and "c \<noteq> CHR ''+''"
  using assms by (auto simp: isdigit_def isspace_def)

lemma strtol10_print_nat:
  assumes "n < 2 ^ 63"
  shows "strtol10 (print_nat n) = int n"
proof -
  obtain c cs where c: "print_nat n = c # cs" by (cases "print_nat n") auto
  have "isdigit c" using print_nat_digits [of c n] c by simp
  then have "strtol10 (print_nat n) = max (- (2 ^ 63)) (min (2 ^ 63 - 1) (int (digits_val 0 (print_nat n))))"
    using isdigit_not_special [of c] by (simp add: strtol10_def c Let_def)
  also have "\<dots> = int n"
    using assms by (simp add: digits_val_print_nat)
  finally show ?thesis .
qed

lemma strtoul10_print_nat:
  assumes "n < 2 ^ 64" and "\<not> isdigit c"
  shows "strtoul10 (print_nat n @ c # s) = (n, c # s)"
proof -
  obtain d ds where d: "print_nat n = d # ds" by (cases "print_nat n") auto
  have "isdigit d" using print_nat_digits [of d n] d by simp
  then have dw: "dropWhile isspace (print_nat n @ c # s) = print_nat n @ c # s"
    "d \<noteq> CHR ''-''" "d \<noteq> CHR ''+''"
    using isdigit_not_special [of d] by (simp_all add: d)
  have tw: "takeWhile isdigit (print_nat n @ c # s) = print_nat n"
    using assms(2) print_nat_digits [of _ n] by (simp add: takeWhile_append2)
  have "hd (print_nat n @ c # s) = d" using d by simp
  with dw tw assms(1) show ?thesis by (simp add: strtoul10_def Let_def digits_val_print_nat)
qed

text \<open>Reading back what \<^verbatim>\<open>%d\<close> printed gives the number again.\<close>

lemma atoi_print_int:
  assumes "- (2 ^ 31) \<le> i" and "i < 2 ^ 31"
  shows "atoi (print_int i) = i"
proof -
  have "strtol10 (print_int i) = i"
  proof (cases "i < 0")
    case True
    have "\<not> isspace CHR ''-''" by (simp add: isspace_def)
    with True assms show ?thesis
      by (simp add: print_int_def strtol10_def digits_val_print_nat)
  next
    case False
    with assms show ?thesis by (simp add: print_int_def strtol10_print_nat)
  qed
  with assms show ?thesis
    by (simp add: atoi_def signed_take_bit_int_eq_self)
qed

text \<open>\<^verbatim>\<open>snprintf(buf, blen, ...)\<close> of a text: what fits before the terminating NUL.\<close>

definition snprintf :: "nat \<Rightarrow> string \<Rightarrow> string" where
  "snprintf blen text = take (blen - 1) text"

lemma snprintf_fits [simp]: "length text < blen \<Longrightarrow> snprintf blen text = text"
  by (simp add: snprintf_def)

end
