(* ===== verification/Hash.thy ===== *)
theory Hash
  imports Prelude
begin

text \<open>
  The chained hash table of \<^verbatim>\<open>util/hash.c\<close> (the implementation compiled with
  \<^verbatim>\<open>HASH_USE_RAX\<close> 0).  A chain of \<^verbatim>\<open>struct hashbucket\<close> linked by \<^verbatim>\<open>hb_next\<close> is the list of its
  buckets; \<^verbatim>\<open>hs_buckets\<close> is the list of the chains.  A value is a non-NULL pointer; a table that
  is used as a set (\<^verbatim>\<open>HASH_PRESENT\<close>) has values of type \<open>unit\<close>.  Keys are C strings, as
  those of all callers are: \<^verbatim>\<open>hash_setn\<close> copies them with \<^verbatim>\<open>strndup\<close>, which would cut a key at a NUL.  The abstract view of a table is a
  stack of values per key: \<open>hash_set\<close> pushes, \<open>hash_del\<close> pops and \<open>hash_get\<close> reads the top.  The
  locale \<open>kv_stack\<close> states this contract and \<open>kv_map\<close> the map contract that clients get when
  they always delete a key before they set it.
\<close>

subsection \<open>The data structure and its operations\<close>

record 'v hashbucket =
  hb_key :: string
  hb_keylen :: nat
  hb_value :: 'v

record 'v hash =
  hs_size :: nat
  hs_free_fn :: bool \<comment> \<open>whether a free function was given\<close>
  hs_buckets :: "'v hashbucket list list"

fun fnv32_loop :: "32 word \<Rightarrow> string \<Rightarrow> 32 word" where
  "fnv32_loop hval [] = hval"
| "fnv32_loop hval (c # s) = fnv32_loop ((hval * 0x01000193) XOR ucast (byte_of_char c)) s"

definition fnv32 :: "string \<Rightarrow> 32 word" where
  "fnv32 s = fnv32_loop 0x811c9dc5 s"

definition hash_new :: "nat \<Rightarrow> bool \<Rightarrow> 'v hash" where
  "hash_new sz freefn = \<lparr>hs_size = sz, hs_free_fn = freefn, hs_buckets = replicate sz []\<rparr>"

text \<open>\<^verbatim>\<open>hash_free\<close>: the values it hands to the free function, in that order.\<close>

definition hash_free :: "'v hash \<Rightarrow> 'v list" where
  "hash_free hs =
     (if hs_free_fn hs then map hb_value (concat (take (hs_size hs) (hs_buckets hs))) else [])"

definition bucket_no :: "'v hash \<Rightarrow> string \<Rightarrow> nat \<Rightarrow> nat" where
  "bucket_no hs key keylen = unat (fnv32 (take keylen key)) mod hs_size hs"

definition hb_match :: "string \<Rightarrow> nat \<Rightarrow> 'v hashbucket \<Rightarrow> bool" where
  "hb_match key keylen b \<longleftrightarrow>
     hb_keylen b = keylen \<and> take keylen (hb_key b) = take keylen key"

definition hash_setn :: "'v hash \<Rightarrow> string \<Rightarrow> nat \<Rightarrow> 'v \<Rightarrow> 'v hash" where
  "hash_setn hs key keylen v =
     (let bn = bucket_no hs key keylen;
          newb = \<lparr>hb_key = take keylen key, hb_keylen = keylen, hb_value = v\<rparr>
      in hs\<lparr>hs_buckets := (hs_buckets hs)[bn := newb # hs_buckets hs ! bn]\<rparr>)"

definition hash_set :: "'v hash \<Rightarrow> string \<Rightarrow> 'v \<Rightarrow> 'v hash" where
  "hash_set hs key v = hash_setn hs key (length key) v"

fun chain_get :: "string \<Rightarrow> nat \<Rightarrow> 'v hashbucket list \<Rightarrow> 'v option" where
  "chain_get key keylen [] = None"
| "chain_get key keylen (hb # hbs) =
     (if hb_match key keylen hb then Some (hb_value hb) else chain_get key keylen hbs)"

definition hash_getn :: "'v hash \<Rightarrow> string \<Rightarrow> nat \<Rightarrow> 'v option" where
  "hash_getn hs key keylen = chain_get key keylen (hs_buckets hs ! bucket_no hs key keylen)"

definition hash_get :: "'v hash \<Rightarrow> string \<Rightarrow> 'v option" where
  "hash_get hs key = hash_getn hs key (length key)"

fun chain_del :: "string \<Rightarrow> nat \<Rightarrow> 'v hashbucket list \<Rightarrow> 'v hashbucket list" where
  "chain_del key keylen [] = []"
| "chain_del key keylen (hb # hbs) =
     (if hb_match key keylen hb then hbs else hb # chain_del key keylen hbs)"

definition hash_deln :: "'v hash \<Rightarrow> string \<Rightarrow> nat \<Rightarrow> 'v hash" where
  "hash_deln hs key keylen =
     (let bn = bucket_no hs key keylen
      in hs\<lparr>hs_buckets := (hs_buckets hs)[bn := chain_del key keylen (hs_buckets hs ! bn)]\<rparr>)"

definition hash_del :: "'v hash \<Rightarrow> string \<Rightarrow> 'v hash" where
  "hash_del hs key = hash_deln hs key (length key)"

definition hash_find :: "'v hash \<Rightarrow> (string \<Rightarrow> 'v \<Rightarrow> bool) \<Rightarrow> 'v option" where
  "hash_find hs fn =
     map_option hb_value (List.find (\<lambda>b. fn (hb_key b) (hb_value b))
       (concat (take (hs_size hs) (hs_buckets hs))))"

text \<open>
  Writing through a pointer that \<open>hash_get\<close> returned: the top value of the key is replaced in
  place.  The sources do this whenever they change an object that a table holds.
\<close>

fun chain_store :: "string \<Rightarrow> nat \<Rightarrow> ('v \<Rightarrow> 'v) \<Rightarrow> 'v hashbucket list \<Rightarrow> 'v hashbucket list" where
  "chain_store key keylen f [] = []"
| "chain_store key keylen f (hb # hbs) =
     (if hb_match key keylen hb then hb\<lparr>hb_value := f (hb_value hb)\<rparr> # hbs
      else hb # chain_store key keylen f hbs)"

definition hash_store :: "'v hash \<Rightarrow> string \<Rightarrow> ('v \<Rightarrow> 'v) \<Rightarrow> 'v hash" where
  "hash_store hs key f =
     (let bn = bucket_no hs key (length key)
      in hs\<lparr>hs_buckets := (hs_buckets hs)[bn := chain_store key (length key) f (hs_buckets hs ! bn)]\<rparr>)"

subsection \<open>Iteration\<close>

text \<open>
  \<^verbatim>\<open>struct hash_iter_state\<close>: the chain number \<^verbatim>\<open>i\<close> and the bucket \<^verbatim>\<open>p\<close> returned last, here its
  position in the chain.
\<close>

record hash_iter_state =
  it_i :: nat
  it_p :: "nat option"

definition hash_iter_init :: hash_iter_state where
  "hash_iter_init = \<lparr>it_i = 0, it_p = None\<rparr>"

function hash_iter_scan ::
  "'v hash \<Rightarrow> hash_iter_state \<Rightarrow> 'v hashbucket option \<times> hash_iter_state" where
  "hash_iter_scan hs st =
     (if it_i st < hs_size hs then
        (if hs_buckets hs ! it_i st = [] then hash_iter_scan hs (st\<lparr>it_i := Suc (it_i st)\<rparr>)
         else (Some (hs_buckets hs ! it_i st ! 0), st\<lparr>it_p := Some 0\<rparr>))
      else (None, st))"
  by pat_completeness auto
termination
  by (relation "measure (\<lambda>(hs, st). hs_size hs - it_i st)") auto

declare hash_iter_scan.simps [simp del]

definition hash_iterate ::
  "'v hash \<Rightarrow> hash_iter_state \<Rightarrow> 'v hashbucket option \<times> hash_iter_state" where
  "hash_iterate hs st =
     (if hs_size hs \<le> it_i st then (None, st)
      else case it_p st of
        Some k \<Rightarrow>
          (if Suc k < length (hs_buckets hs ! it_i st)
           then (Some (hs_buckets hs ! it_i st ! Suc k), st\<lparr>it_p := Some (Suc k)\<rparr>)
           else hash_iter_scan hs (st\<lparr>it_i := Suc (it_i st), it_p := None\<rparr>))
      | None \<Rightarrow> hash_iter_scan hs st)"

definition iter_left :: "'v hash \<Rightarrow> hash_iter_state \<Rightarrow> nat" where
  "iter_left hs st =
     (case it_p st of None \<Rightarrow> Suc (length (hs_buckets hs ! it_i st))
      | Some k \<Rightarrow> length (hs_buckets hs ! it_i st) - k)"

lemma hash_iter_scan_progress:
  "hash_iter_scan hs st = (Some b, st') \<Longrightarrow>
   it_i st \<le> it_i st' \<and> it_i st' < hs_size hs \<and> it_p st' = Some 0"
proof (induction hs st rule: hash_iter_scan.induct)
  case (1 hs st)
  then show ?case
    by (subst (asm) (2) hash_iter_scan.simps) (auto split: if_splits)
qed

lemma hash_iterate_progress:
  assumes "hash_iterate hs st = (Some b, st')"
  shows "hs_size hs - it_i st' < hs_size hs - it_i st \<or>
    (it_i st' = it_i st \<and> iter_left hs st' < iter_left hs st)"
proof -
  have lt: "it_i st < hs_size hs"
    using assms by (auto simp: hash_iterate_def split: if_splits)
  show ?thesis
  proof (cases "it_p st")
    case None
    with assms lt have "hash_iter_scan hs st = (Some b, st')"
      by (simp add: hash_iterate_def)
    from hash_iter_scan_progress [OF this] lt None show ?thesis
      by (cases "it_i st' = it_i st") (auto simp: iter_left_def)
  next
    case (Some k)
    show ?thesis
    proof (cases "Suc k < length (hs_buckets hs ! it_i st)")
      case True
      with assms lt Some show ?thesis by (auto simp: hash_iterate_def iter_left_def)
    next
      case False
      with assms lt Some have "hash_iter_scan hs (st\<lparr>it_i := Suc (it_i st), it_p := None\<rparr>) = (Some b, st')"
        by (simp add: hash_iterate_def)
      from hash_iter_scan_progress [OF this] lt show ?thesis by auto
    qed
  qed
qed

text \<open>\<^verbatim>\<open>hash_foreach\<close>: the keys and values the loop visits, in that order.\<close>

function hash_iter_from :: "'v hash \<Rightarrow> hash_iter_state \<Rightarrow> (string \<times> 'v) list" where
  "hash_iter_from hs st =
     (case hash_iterate hs st of
        (None, st') \<Rightarrow> []
      | (Some b, st') \<Rightarrow> (take (hb_keylen b) (hb_key b), hb_value b) # hash_iter_from hs st')"
  by pat_completeness auto
termination
proof (relation "measures [\<lambda>(hs, st). hs_size hs - it_i st, \<lambda>(hs, st). iter_left hs st]")
qed (auto dest: hash_iterate_progress [OF sym])

declare hash_iter_from.simps [simp del]

definition hash_foreach :: "'v hash \<Rightarrow> (string \<times> 'v) list" where
  "hash_foreach hs = hash_iter_from hs hash_iter_init"

subsection \<open>Well-formed tables and the abstract view\<close>

definition hash_ok :: "'v hash \<Rightarrow> bool" where
  "hash_ok hs \<longleftrightarrow>
     0 < hs_size hs \<and> length (hs_buckets hs) = hs_size hs \<and>
     (\<forall>i < hs_size hs. \<forall>b \<in> set (hs_buckets hs ! i).
        hb_keylen b = length (hb_key b) \<and> bucket_no hs (hb_key b) (length (hb_key b)) = i)"

definition hash_vals :: "'v hash \<Rightarrow> string \<Rightarrow> 'v list" where
  "hash_vals hs k =
     map hb_value (filter (hb_match k (length k)) (hs_buckets hs ! bucket_no hs k (length k)))"

lemma hb_match_value [simp]: "hb_match k n (b\<lparr>hb_value := v\<rparr>) = hb_match k n b"
  by (simp add: hb_match_def)

lemma hb_match_other: "hb_match k (length k) b \<Longrightarrow> k' \<noteq> k \<Longrightarrow> \<not> hb_match k' (length k') b"
  by (auto simp: hb_match_def)

lemma hb_match_iff: "hb_keylen b = length (hb_key b) \<Longrightarrow> hb_match k (length k) b \<longleftrightarrow> hb_key b = k"
  by (auto simp: hb_match_def)

lemma bucket_no_less: "hash_ok hs \<Longrightarrow> bucket_no hs k n < hs_size hs"
  by (simp add: bucket_no_def hash_ok_def)

lemma bucket_no_update [simp]: "bucket_no (hs\<lparr>hs_buckets := bs\<rparr>) k n = bucket_no hs k n"
  by (simp add: bucket_no_def)

lemma hash_okD:
  assumes "hash_ok hs" and "i < hs_size hs" and "b \<in> set (hs_buckets hs ! i)"
  shows "hb_keylen b = length (hb_key b)" and "bucket_no hs (hb_key b) (length (hb_key b)) = i"
  using assms unfolding hash_ok_def by metis+

lemma hash_ok_update:
  assumes "hash_ok hs" and "bn < hs_size hs"
    and "\<And>b. b \<in> set chain \<Longrightarrow> hb_keylen b = length (hb_key b) \<and> bucket_no hs (hb_key b) (length (hb_key b)) = bn"
  shows "hash_ok (hs\<lparr>hs_buckets := (hs_buckets hs)[bn := chain]\<rparr>)"
  using assms unfolding hash_ok_def
  by (auto simp: nth_list_update split: if_splits)

lemma hash_ok_new [simp]: "0 < sz \<Longrightarrow> hash_ok (hash_new sz ff)"
  by (simp add: hash_ok_def hash_new_def)

lemma chain_del_subset: "b \<in> set (chain_del k n bs) \<Longrightarrow> b \<in> set bs"
  by (induction bs) (auto split: if_splits)

lemma chain_store_keys: "map hb_key (chain_store k n f bs) = map hb_key bs"
  "map hb_keylen (chain_store k n f bs) = map hb_keylen bs"
  by (induction bs) auto

lemma chain_store_bucket:
  "b \<in> set (chain_store k n f bs) \<Longrightarrow>
   \<exists>b' \<in> set bs. hb_key b = hb_key b' \<and> hb_keylen b = hb_keylen b'"
  by (induction bs) (auto split: if_splits)

lemma hash_ok_setn [simp]:
  assumes "hash_ok hs" and "n \<le> length k"
  shows "hash_ok (hash_setn hs k n v)"
  unfolding hash_setn_def Let_def
proof (rule hash_ok_update [OF assms(1) bucket_no_less [OF assms(1)]])
  fix b
  assume "b \<in> set (\<lparr>hb_key = take n k, hb_keylen = n, hb_value = v\<rparr> # hs_buckets hs ! bucket_no hs k n)"
  then consider "b = \<lparr>hb_key = take n k, hb_keylen = n, hb_value = v\<rparr>"
    | "b \<in> set (hs_buckets hs ! bucket_no hs k n)" by auto
  then show "hb_keylen b = length (hb_key b) \<and> bucket_no hs (hb_key b) (length (hb_key b)) = bucket_no hs k n"
  proof cases
    case 1
    with assms(2) show ?thesis by (simp add: bucket_no_def)
  next
    case 2
    from hash_okD [OF assms(1) bucket_no_less [OF assms(1)] this] show ?thesis by simp
  qed
qed

lemma hash_ok_set [simp]: "hash_ok hs \<Longrightarrow> hash_ok (hash_set hs k v)"
  by (simp add: hash_set_def)

lemma hash_ok_deln [simp]:
  assumes "hash_ok hs"
  shows "hash_ok (hash_deln hs k n)"
  unfolding hash_deln_def Let_def
proof (rule hash_ok_update [OF assms bucket_no_less [OF assms]])
  fix b
  assume "b \<in> set (chain_del k n (hs_buckets hs ! bucket_no hs k n))"
  from hash_okD [OF assms bucket_no_less [OF assms] chain_del_subset [OF this]]
  show "hb_keylen b = length (hb_key b) \<and>
    bucket_no hs (hb_key b) (length (hb_key b)) = bucket_no hs k n" by simp
qed

lemma hash_ok_del [simp]: "hash_ok hs \<Longrightarrow> hash_ok (hash_del hs k)"
  by (simp add: hash_del_def)

lemma hash_ok_store [simp]:
  assumes "hash_ok hs"
  shows "hash_ok (hash_store hs k f)"
  unfolding hash_store_def Let_def
proof (rule hash_ok_update [OF assms bucket_no_less [OF assms]])
  fix b
  assume "b \<in> set (chain_store k (length k) f (hs_buckets hs ! bucket_no hs k (length k)))"
  then obtain b' where b': "b' \<in> set (hs_buckets hs ! bucket_no hs k (length k))"
    "hb_key b = hb_key b'" "hb_keylen b = hb_keylen b'"
    using chain_store_bucket by blast
  from hash_okD [OF assms bucket_no_less [OF assms] b'(1)] b'
  show "hb_keylen b = length (hb_key b) \<and>
    bucket_no hs (hb_key b) (length (hb_key b)) = bucket_no hs k (length k)" by simp
qed

lemma chain_get_filter:
  "chain_get k n bs = (case map hb_value (filter (hb_match k n) bs) of [] \<Rightarrow> None | v # _ \<Rightarrow> Some v)"
  by (induction bs) auto

lemma filter_chain_del: "filter (hb_match k n) (chain_del k n bs) = tl (filter (hb_match k n) bs)"
  by (induction bs) auto

lemma filter_chain_del_other:
  "k' \<noteq> k \<Longrightarrow>
   filter (hb_match k' (length k')) (chain_del k (length k) bs) = filter (hb_match k' (length k')) bs"
  by (induction bs) (auto dest: hb_match_other)

lemma filter_chain_store:
  "map hb_value (filter (hb_match k n) (chain_store k n f bs)) =
   (case map hb_value (filter (hb_match k n) bs) of [] \<Rightarrow> [] | v # vs \<Rightarrow> f v # vs)"
  by (induction bs) auto

lemma filter_chain_store_other:
  "k' \<noteq> k \<Longrightarrow>
   map hb_value (filter (hb_match k' (length k')) (chain_store k (length k) f bs)) =
   map hb_value (filter (hb_match k' (length k')) bs)"
  by (induction bs) (auto dest: hb_match_other)

text \<open>How each operation changes the stack of values of every key.\<close>

lemma hash_vals_new [simp]: "0 < sz \<Longrightarrow> hash_vals (hash_new sz ff) k = []"
  by (simp add: hash_vals_def hash_new_def bucket_no_def)

lemma hash_vals_set [simp]:
  assumes "hash_ok hs"
  shows "hash_vals (hash_set hs k v) k' = (if k' = k then v # hash_vals hs k else hash_vals hs k')"
proof -
  have less: "bucket_no hs k' (length k') < length (hs_buckets hs)" for k'
    using bucket_no_less [OF assms, of k' "length k'"] assms by (simp add: hash_ok_def)
  show ?thesis
    using less [of k'] less [of k]
    by (auto simp: hash_vals_def hash_set_def hash_setn_def Let_def nth_list_update hb_match_def)
qed

lemma hash_vals_del [simp]:
  assumes "hash_ok hs"
  shows "hash_vals (hash_del hs k) k' = (if k' = k then tl (hash_vals hs k) else hash_vals hs k')"
proof -
  have less: "bucket_no hs k (length k) < length (hs_buckets hs)" for k
    using bucket_no_less [OF assms, of k "length k"] assms by (simp add: hash_ok_def)
  have "filter (hb_match k' (length k')) (chain_del k (length k) (hs_buckets hs ! bucket_no hs k (length k)))
      = filter (hb_match k' (length k')) (hs_buckets hs ! bucket_no hs k (length k))" if "k' \<noteq> k"
    using that by (rule filter_chain_del_other)
  then show ?thesis
    using less [of k'] less [of k]
    by (auto simp: hash_vals_def hash_del_def hash_deln_def Let_def nth_list_update filter_chain_del map_tl)
qed

lemma hash_vals_store [simp]:
  assumes "hash_ok hs"
  shows "hash_vals (hash_store hs k f) k' =
    (if k' = k then (case hash_vals hs k of [] \<Rightarrow> [] | v # vs \<Rightarrow> f v # vs) else hash_vals hs k')"
proof -
  have less: "bucket_no hs k (length k) < length (hs_buckets hs)" for k
    using bucket_no_less [OF assms, of k "length k"] assms by (simp add: hash_ok_def)
  have "map hb_value (filter (hb_match k' (length k')) (chain_store k (length k) f (hs_buckets hs ! bucket_no hs k (length k))))
      = map hb_value (filter (hb_match k' (length k')) (hs_buckets hs ! bucket_no hs k (length k)))" if "k' \<noteq> k"
    using that by (rule filter_chain_store_other)
  then show ?thesis
    using less [of k'] less [of k]
    by (auto simp: hash_vals_def hash_store_def Let_def nth_list_update filter_chain_store)
qed

lemma hash_get_vals: "hash_get hs k = (case hash_vals hs k of [] \<Rightarrow> None | v # _ \<Rightarrow> Some v)"
  by (simp add: hash_get_def hash_getn_def hash_vals_def chain_get_filter)

subsection \<open>Iteration visits every entry once\<close>

definition iter_rest :: "'v hash \<Rightarrow> hash_iter_state \<Rightarrow> 'v hashbucket list" where
  "iter_rest hs st =
     (case it_p st of
        None \<Rightarrow> concat (drop (it_i st) (hs_buckets hs))
      | Some k \<Rightarrow> drop (Suc k) (hs_buckets hs ! it_i st) @ concat (drop (Suc (it_i st)) (hs_buckets hs)))"

lemma concat_drop_nth: "i < length bs \<Longrightarrow> concat (drop i bs) = bs ! i @ concat (drop (Suc i) bs)"
  by (metis Cons_nth_drop_Suc concat.simps(2))

lemma hash_iter_scan_rest:
  assumes "length (hs_buckets hs) = hs_size hs" and "it_p st = None"
  shows "case hash_iter_scan hs st of
      (None, st') \<Rightarrow> iter_rest hs st = []
    | (Some b, st') \<Rightarrow> iter_rest hs st = b # iter_rest hs st'"
  using assms
proof (induction hs st rule: hash_iter_scan.induct)
  case (1 hs st)
  show ?case
  proof (cases "it_i st < hs_size hs")
    case False
    with "1.prems" show ?thesis
      by (subst hash_iter_scan.simps) (simp add: iter_rest_def)
  next
    case True
    then have split: "iter_rest hs st = hs_buckets hs ! it_i st @ concat (drop (Suc (it_i st)) (hs_buckets hs))"
      using "1.prems" by (simp add: iter_rest_def concat_drop_nth)
    show ?thesis
    proof (cases "hs_buckets hs ! it_i st")
      case Nil
      with split "1.prems" have "iter_rest hs st = iter_rest hs (st\<lparr>it_i := Suc (it_i st)\<rparr>)"
        by (simp add: iter_rest_def)
      with "1.IH" [OF True Nil] "1.prems" True Nil show ?thesis
        by (subst hash_iter_scan.simps) (simp split: prod.splits option.splits)
    next
      case (Cons b bs)
      with split True show ?thesis
        by (subst hash_iter_scan.simps) (simp add: iter_rest_def)
    qed
  qed
qed

lemma hash_iterate_rest:
  assumes "length (hs_buckets hs) = hs_size hs"
  shows "case hash_iterate hs st of
      (None, st') \<Rightarrow> it_i st < hs_size hs \<or> it_p st = None \<longrightarrow> iter_rest hs st = []
    | (Some b, st') \<Rightarrow> iter_rest hs st = b # iter_rest hs st'"
proof (cases "it_i st < hs_size hs")
  case False
  with assms show ?thesis by (simp add: hash_iterate_def iter_rest_def split: option.splits)
next
  case lt: True
  show ?thesis
  proof (cases "it_p st")
    case None
    with hash_iter_scan_rest [OF assms None] lt show ?thesis
      by (simp add: hash_iterate_def split: prod.splits option.splits)
  next
    case (Some k)
    show ?thesis
    proof (cases "Suc k < length (hs_buckets hs ! it_i st)")
      case True
      with Some lt show ?thesis
        by (simp add: hash_iterate_def iter_rest_def Cons_nth_drop_Suc [symmetric])
    next
      case False
      let ?st = "st\<lparr>it_i := Suc (it_i st), it_p := None\<rparr>"
      have "iter_rest hs st = iter_rest hs ?st"
        using False Some by (simp add: iter_rest_def)
      with hash_iter_scan_rest [OF assms, of ?st] lt Some False show ?thesis
        by (simp add: hash_iterate_def split: prod.splits option.splits)
    qed
  qed
qed

lemma hash_iterate_stays:
  "hash_iterate hs st = (Some b, st') \<Longrightarrow> it_i st' < hs_size hs"
  by (auto simp: hash_iterate_def split: if_splits option.splits dest: hash_iter_scan_progress)

lemma hash_iter_from_rest:
  assumes "length (hs_buckets hs) = hs_size hs" and "it_i st < hs_size hs \<or> it_p st = None"
  shows "hash_iter_from hs st = map (\<lambda>b. (take (hb_keylen b) (hb_key b), hb_value b)) (iter_rest hs st)"
  using assms
proof (induction hs st rule: hash_iter_from.induct)
  case (1 hs st)
  obtain r st' where it: "hash_iterate hs st = (r, st')" by (cases "hash_iterate hs st")
  show ?case
  proof (cases r)
    case None
    with it hash_iterate_rest [OF "1.prems"(1), of st] "1.prems" show ?thesis
      by (subst hash_iter_from.simps) simp
  next
    case (Some b)
    with it have "hash_iter_from hs st' = map (\<lambda>b. (take (hb_keylen b) (hb_key b), hb_value b)) (iter_rest hs st')"
      using "1.IH" [OF it [symmetric] Some] "1.prems" hash_iterate_stays [of hs st b st'] by simp
    with it Some hash_iterate_rest [OF "1.prems"(1), of st] show ?thesis
      by (subst hash_iter_from.simps) simp
  qed
qed

lemma hash_foreach_eq:
  assumes "hash_ok hs"
  shows "hash_foreach hs = map (\<lambda>b. (hb_key b, hb_value b)) (concat (hs_buckets hs))"
proof -
  have "hb_keylen b = length (hb_key b)" if "b \<in> set (concat (hs_buckets hs))" for b
  proof -
    from that obtain i where "i < hs_size hs" and "b \<in> set (hs_buckets hs ! i)"
      using assms by (auto simp: hash_ok_def in_set_conv_nth [of _ "hs_buckets hs"])
    then show ?thesis by (rule hash_okD(1) [OF assms])
  qed
  moreover have "length (hs_buckets hs) = hs_size hs"
    using assms by (simp add: hash_ok_def)
  ultimately show ?thesis
    by (simp add: hash_foreach_def hash_iter_from_rest hash_iter_init_def iter_rest_def)
qed

lemma filter_concat_single:
  assumes "n < length bs" and "\<And>i. i < length bs \<Longrightarrow> i \<noteq> n \<Longrightarrow> filter P (bs ! i) = []"
  shows "filter P (concat bs) = filter P (bs ! n)"
proof -
  have "bs = take n bs @ bs ! n # drop (Suc n) bs"
    using assms(1) by (rule id_take_nth_drop)
  then have "filter P (concat bs) =
      concat (map (filter P) (take n bs)) @ filter P (bs ! n) @ concat (map (filter P) (drop (Suc n) bs))"
    by (metis concat.simps(2) concat_append filter_append filter_concat)
  moreover have "concat (map (filter P) (take n bs)) = []"
    using assms by (auto simp: in_set_conv_nth)
  moreover have "concat (map (filter P) (drop (Suc n) bs)) = []"
    using assms by (auto simp: in_set_conv_nth)
  ultimately show ?thesis by simp
qed

text \<open>The entries of a key appear in the iteration in the order of its stack of values.\<close>

lemma hash_foreach_vals:
  assumes ok: "hash_ok hs"
  shows "map snd (filter (\<lambda>e. fst e = k) (hash_foreach hs)) = hash_vals hs k"
proof -
  let ?bn = "bucket_no hs k (length k)"
  have len: "length (hs_buckets hs) = hs_size hs" using ok by (simp add: hash_ok_def)
  have "filter (\<lambda>b. hb_key b = k) (concat (hs_buckets hs)) = filter (\<lambda>b. hb_key b = k) (hs_buckets hs ! ?bn)"
  proof (rule filter_concat_single)
    show "?bn < length (hs_buckets hs)" using bucket_no_less [OF ok] len by simp
    show "filter (\<lambda>b. hb_key b = k) (hs_buckets hs ! i) = []"
      if "i < length (hs_buckets hs)" and "i \<noteq> ?bn" for i
      using that hash_okD(2) [OF ok, of i] len by (auto simp: filter_empty_conv)
  qed
  also have "\<dots> = filter (hb_match k (length k)) (hs_buckets hs ! ?bn)"
    by (rule filter_cong [OF refl]) (simp add: hb_match_iff hash_okD(1) [OF ok bucket_no_less [OF ok]])
  finally show ?thesis
    by (simp add: hash_foreach_eq [OF ok] hash_vals_def filter_map o_def)
qed

lemma hash_foreach_in_iff:
  assumes "hash_ok hs"
  shows "(k, v) \<in> set (hash_foreach hs) \<longleftrightarrow> v \<in> set (hash_vals hs k)"
  by (force simp: hash_foreach_vals [OF assms, symmetric])

subsection \<open>The contracts\<close>

text \<open>
  What a client of the table relies on.  Setting a key that exists hides its old value, and
  deleting it then brings the old value back, so the exact contract is a stack per key.
\<close>

locale kv_stack =
  fixes new :: "nat \<Rightarrow> bool \<Rightarrow> 'h"
    and push :: "'h \<Rightarrow> string \<Rightarrow> 'v \<Rightarrow> 'h"
    and pop :: "'h \<Rightarrow> string \<Rightarrow> 'h"
    and get :: "'h \<Rightarrow> string \<Rightarrow> 'v option"
    and ok :: "'h \<Rightarrow> bool"
    and vals :: "'h \<Rightarrow> string \<Rightarrow> 'v list"
    and entries :: "'h \<Rightarrow> (string \<times> 'v) list"
  assumes ok_new: "0 < n \<Longrightarrow> ok (new n ff)"
    and ok_push: "ok h \<Longrightarrow> ok (push h k v)"
    and ok_pop: "ok h \<Longrightarrow> ok (pop h k)"
    and vals_new: "0 < n \<Longrightarrow> vals (new n ff) k = []"
    and vals_push: "ok h \<Longrightarrow> vals (push h k v) k' = (if k' = k then v # vals h k else vals h k')"
    and vals_pop: "ok h \<Longrightarrow> vals (pop h k) k' = (if k' = k then tl (vals h k) else vals h k')"
    and get_vals: "get h k = (case vals h k of [] \<Rightarrow> None | v # _ \<Rightarrow> Some v)"
    and entries_vals: "ok h \<Longrightarrow> map snd (filter (\<lambda>e. fst e = k) (entries h)) = vals h k"
begin

lemma get_new: "0 < n \<Longrightarrow> get (new n ff) k = None"
  by (simp add: get_vals vals_new)

lemma get_push: "ok h \<Longrightarrow> get (push h k v) k' = (if k' = k then Some v else get h k')"
  by (simp add: get_vals vals_push)

lemma get_pop_other: "ok h \<Longrightarrow> k' \<noteq> k \<Longrightarrow> get (pop h k) k' = get h k'"
  by (simp add: get_vals vals_pop)

lemma pop_push: "ok h \<Longrightarrow> vals (pop (push h k v) k) k' = vals h k'"
  by (simp add: vals_push vals_pop ok_push)

lemma entries_get: "ok h \<Longrightarrow> get h k = Some v \<Longrightarrow> (k, v) \<in> set (entries h)"
  using entries_vals [of h k] by (auto simp: get_vals split: list.splits dest!: map_eq_Cons_D filter_eq_ConsD)

lemma ok_fold_push: "ok h \<Longrightarrow> ok (fold (\<lambda>k h. push h k (f k)) ks h)"
  by (induction ks arbitrary: h) (auto simp: ok_push)

text \<open>A table filled with one value per key is the membership test of the list it was filled from.\<close>

lemma get_fold_push:
  "ok h \<Longrightarrow> get (fold (\<lambda>k h. push h k (f k)) ks h) k' = (if k' \<in> set ks then Some (f k') else get h k')"
  by (induction ks arbitrary: h) (auto simp: ok_push get_push)

end

text \<open>The map contract: what is left when a key is always deleted before it is set.\<close>

locale kv_map =
  fixes fresh :: "nat \<Rightarrow> bool \<Rightarrow> 'h"
    and put :: "'h \<Rightarrow> string \<Rightarrow> 'v \<Rightarrow> 'h"
    and del :: "'h \<Rightarrow> string \<Rightarrow> 'h"
    and lookup :: "'h \<Rightarrow> string \<Rightarrow> 'v option"
    and inv :: "'h \<Rightarrow> bool"
  assumes inv_fresh: "0 < n \<Longrightarrow> inv (fresh n ff)"
    and inv_put: "inv h \<Longrightarrow> inv (put h k v)"
    and inv_del: "inv h \<Longrightarrow> inv (del h k)"
    and lookup_fresh: "0 < n \<Longrightarrow> lookup (fresh n ff) k = None"
    and lookup_put: "inv h \<Longrightarrow> lookup (put h k v) k' = (if k' = k then Some v else lookup h k')"
    and lookup_del: "inv h \<Longrightarrow> lookup (del h k) k' = (if k' = k then None else lookup h k')"
begin

text \<open>Replaying a log of updates and deletions: the last event on a key decides.\<close>

lemma replay:
  assumes "inv h"
  shows "inv (fold (\<lambda>(k, ov) h. case ov of None \<Rightarrow> del h k | Some v \<Rightarrow> put h k v) es h)
    \<and> lookup (fold (\<lambda>(k, ov) h. case ov of None \<Rightarrow> del h k | Some v \<Rightarrow> put h k v) es h) k'
      = (case map_of (rev es) k' of None \<Rightarrow> lookup h k' | Some ov \<Rightarrow> ov)"
  using assms
proof (induction es arbitrary: h)
  case (Cons e es)
  obtain k ov where e: "e = (k, ov)" by (cases e)
  show ?case
    using Cons.prems Cons.IH [of "case ov of None \<Rightarrow> del h k | Some v \<Rightarrow> put h k v"] e
    by (auto simp: inv_del inv_put lookup_del lookup_put map_add_def split: option.splits)
qed simp

end

sublocale kv_stack \<subseteq> unique: kv_map new "\<lambda>h k v. push (pop h k) k v" pop get
  "\<lambda>h. ok h \<and> (\<forall>k. length (vals h k) \<le> 1)"
proof
  show "get (pop h k) k' = (if k' = k then None else get h k')"
    if "ok h \<and> (\<forall>k. length (vals h k) \<le> 1)" for h k k'
  proof -
    from that have "tl (vals h k) = []" by (metis Suc_eq_plus1 One_nat_def le_0_eq length_0_conv length_tl diff_is_0_eq)
    with that show ?thesis by (simp add: get_vals vals_pop)
  qed
qed (auto simp: ok_new ok_push ok_pop vals_new vals_push vals_pop get_new get_push get_pop_other le_diff_conv)

text \<open>A table whose stored objects are changed in place through the pointer that was looked up.\<close>

locale kv_store = kv_stack +
  fixes store :: "'h \<Rightarrow> string \<Rightarrow> ('v \<Rightarrow> 'v) \<Rightarrow> 'h"
  assumes ok_store: "ok h \<Longrightarrow> ok (store h k f)"
    and vals_store: "ok h \<Longrightarrow> vals (store h k f) k' =
      (if k' = k then (case vals h k of [] \<Rightarrow> [] | v # vs \<Rightarrow> f v # vs) else vals h k')"
begin

lemma get_store: "ok h \<Longrightarrow> get (store h k f) k' = (if k' = k then map_option f (get h k) else get h k')"
  by (auto simp: get_vals vals_store split: list.splits)

lemma length_vals_store: "ok h \<Longrightarrow> length (vals (store h k f) k') = length (vals h k')"
  by (simp add: vals_store split: list.splits)

end

interpretation ht: kv_store hash_new hash_set hash_del hash_get hash_ok hash_vals hash_foreach hash_store
  by unfold_locales
    (simp_all add: hash_get_vals hash_foreach_vals)

lemmas hash_table_simps [simp] =
  ht.get_new ht.get_push ht.get_store ht.get_fold_push ht.ok_fold_push

abbreviation hash_unique :: "'v hash \<Rightarrow> bool" where
  "hash_unique hs \<equiv> hash_ok hs \<and> (\<forall>k. length (hash_vals hs k) \<le> 1)"

lemma hash_free_eq: "hash_ok hs \<Longrightarrow> hash_free hs = (if hs_free_fn hs then map snd (hash_foreach hs) else [])"
  by (simp add: hash_free_def hash_foreach_eq hash_ok_def o_def)

lemma hs_free_fn_ops [simp]:
  "hs_free_fn (hash_set hs k v) = hs_free_fn hs"
  "hs_free_fn (hash_del hs k) = hs_free_fn hs"
  "hs_free_fn (hash_new n ff) = ff"
  by (simp_all add: hash_set_def hash_setn_def hash_del_def hash_deln_def hash_new_def Let_def)

lemma hash_foreach_Nil_iff: "hash_ok hs \<Longrightarrow> hash_foreach hs = [] \<longleftrightarrow> (\<forall>k. hash_vals hs k = [])"
  using hash_foreach_in_iff [of hs] by (metis empty_iff empty_set equals0I list.set_intros(1) neq_Nil_conv surj_pair)

lemma hash_unique_foreach:
  assumes "hash_unique h" and "(k, v) \<in> set (hash_foreach h)"
  shows "hash_get h k = Some v"
proof -
  have ok: "hash_ok h" and one: "length (hash_vals h k) \<le> 1" using assms(1) by simp_all
  from hash_foreach_in_iff [OF ok] assms(2) have "v \<in> set (hash_vals h k)" by blast
  with one have "hash_vals h k = [v]" by (cases "hash_vals h k") auto
  then show ?thesis by (simp add: hash_get_vals)
qed

lemma hash_foreach_one:
  assumes "hash_ok h" and "\<And>k'. hash_vals h k' = (if k' = k then [v] else [])"
  shows "hash_foreach h = [(k, v)]"
proof -
  have keys: "\<forall>e \<in> set (hash_foreach h). fst e = k" using hash_foreach_in_iff [OF assms(1)] assms(2) by (auto split: if_splits)
  then have "filter (\<lambda>e. fst e = k) (hash_foreach h) = hash_foreach h" by (simp add: filter_id_conv)
  with hash_foreach_vals [OF assms(1), of k] assms(2) have "map snd (hash_foreach h) = [v]" by simp
  with keys show ?thesis by auto
qed

lemma hash_foreach_unique:
  assumes "hash_unique h" and "\<And>k'. hash_get h k' = (if k' = k then Some v else None)"
  shows "hash_foreach h = [(k, v)]"
proof (rule hash_foreach_one)
  show "hash_ok h" using assms(1) by simp
  fix k'
  have "length (hash_vals h k') \<le> 1" using assms(1) by simp
  with assms(2) [of k'] show "hash_vals h k' = (if k' = k then [v] else [])"
    by (cases "hash_vals h k'") (auto simp: hash_get_vals split: if_splits)
qed

lemma hash_foreach_single:
  assumes "0 < n"
  shows "hash_foreach (hash_set (hash_new n ff) k v) = [(k, v)]"
  using assms by (intro hash_foreach_one) simp_all

subsection \<open>Properties\<close>

text \<open>C33: A table of \<^verbatim>\<open>util/hash.c\<close> is a stack of values per key.  On a well-formed table \<open>hash_set\<close>
  pushes, \<open>hash_del\<close> pops (other keys are untouched), \<open>hash_get\<close> reads the top, and the table stays
  well formed.\<close>

theorem hash_stack_refinement:
  assumes "hash_ok hs"
  shows "hash_vals (hash_set hs k v) = (hash_vals hs)(k := v # hash_vals hs k)
    \<and> hash_vals (hash_del hs k) = (hash_vals hs)(k := tl (hash_vals hs k))
    \<and> hash_get hs k = (case hash_vals hs k of [] \<Rightarrow> None | v # _ \<Rightarrow> Some v)
    \<and> hash_ok (hash_set hs k v) \<and> hash_ok (hash_del hs k)"
  using assms by (auto simp: fun_eq_iff ht.get_vals)

theorem hash_stack_refinement_witness:
  "hash_ok (hash_set (hash_new 127 True) ''foo'' (1::nat))
    \<and> hash_vals (hash_set (hash_set (hash_new 127 True) ''foo'' (1::nat)) ''foo'' 2) ''foo'' = [2, 1]
    \<and> hash_get (hash_del (hash_set (hash_set (hash_new 127 True) ''foo'' 1) ''foo'' 2) ''foo'') ''foo'' = Some (1::nat)"
proof -
  have ok: "hash_ok (hash_set (hash_new 127 True) ''foo'' (1::nat))" by simp
  show ?thesis
    using ok hash_stack_refinement [OF ok, of "''foo''" 2] by (simp add: ht.get_vals)
qed

text \<open>The iteration protocol (\<open>hash_iterate\<close> until it returns 0, as \<^verbatim>\<open>hash_foreach\<close> does) ends and
  visits every stored entry exactly once: for each key the visited values are exactly the stack of
  values of that key, in order, and nothing else is visited.\<close>

theorem hash_foreach_visits_all:
  assumes "hash_ok hs"
  shows "map snd (filter (\<lambda>e. fst e = k) (hash_foreach hs)) = hash_vals hs k
    \<and> length (hash_foreach hs) = sum_list (map length (hs_buckets hs))"
proof
  show "length (hash_foreach hs) = sum_list (map length (hs_buckets hs))"
    using assms by (simp add: hash_foreach_eq length_concat)
qed (rule hash_foreach_vals [OF assms])

theorem hash_foreach_visits_all_witness:
  "hash_ok (hash_set (hash_new 7 False) ''http'' (80::nat))
    \<and> map snd (filter (\<lambda>e. fst e = ''http'') (hash_foreach (hash_set (hash_new 7 False) ''http'' (80::nat)))) = [80]"
proof -
  have ok: "hash_ok (hash_set (hash_new 7 False) ''http'' (80::nat))" by simp
  show ?thesis
    using ok hash_foreach_visits_all [OF ok, of "''http''"] by simp
qed

text \<open>Deleting a key does not run the free function of the table on its value, and the value is
  gone from the table: after setting and deleting a key of an empty table with a free function,
  freeing the table releases nothing, so the object is leaked (as \<^verbatim>\<open>namespace_put_ingress\<close> and the
  other updates of the cluster state do with the object they replace).\<close>

theorem hash_del_leaks_value:
  "hash_free (hash_del (hash_set (hash_new 127 True) k v) k) = []"
  by (simp add: hash_free_eq hash_foreach_Nil_iff)

end
