(* ===== verification/Base64.thy ===== *)
theory Base64
  imports Prelude
begin

text \<open>
  \<^verbatim>\<open>util/base64.c\<close>: encoding of a byte buffer and decoding of a text.  Bytes are 8-bit words and
  the bit operations are those of the source.  \<open>base64_decode\<close> returns \<open>None\<close> where the code
  returns -1 and otherwise the bytes it stored in \<^verbatim>\<open>outbuf\<close> (their number is the return value).
\<close>

definition b64table :: string where
  "b64table = ''ABCDEFGHIJKLMNOPQRSTUVWXYZabcdefghijklmnopqrstuvwxyz0123456789+/''"

definition b64untable :: "char \<Rightarrow> int" where
  "b64untable c =
     (let n = int (of_char c) in
      if 65 \<le> n \<and> n \<le> 90 then n - 65
      else if 97 \<le> n \<and> n \<le> 122 then n - 97 + 26
      else if 48 \<le> n \<and> n \<le> 57 then n - 48 + 52
      else if c = CHR ''+'' then 62
      else if c = CHR ''/'' then 63
      else if c = CHR ''='' then 0
      else -1)"

definition base64_encode_len :: "nat \<Rightarrow> nat" where
  "base64_encode_len n = 4 * ((n + 2) div 3)"

definition base64_decode_len :: "nat \<Rightarrow> nat" where
  "base64_decode_len n = 3 * ((n + 3) div 4)"

definition b64char :: "byte \<Rightarrow> char" where
  "b64char d = b64table ! unat d"

text \<open>One group of the encoder: \<^verbatim>\<open>todo\<close> is the number of bytes given, the switch falls through.\<close>

definition enc3 :: "byte \<Rightarrow> byte \<Rightarrow> byte \<Rightarrow> string" where
  "enc3 b0 b1 b2 =
     (let d3 = b2 AND 0x3F;
          d2 = (drop_bit 6 (b2 AND 0xC0)) OR (push_bit 2 (b1 AND 0x0F));
          d1 = (drop_bit 4 (b1 AND 0xF0)) OR (push_bit 4 (b0 AND 0x03));
          d0 = drop_bit 2 (b0 AND 0xFC)
      in [b64char d0, b64char d1, b64char d2, b64char d3])"

definition enc2 :: "byte \<Rightarrow> byte \<Rightarrow> string" where
  "enc2 b0 b1 =
     (let d2 = push_bit 2 (b1 AND 0x0F);
          d1 = (drop_bit 4 (b1 AND 0xF0)) OR (push_bit 4 (b0 AND 0x03));
          d0 = drop_bit 2 (b0 AND 0xFC)
      in [b64char d0, b64char d1, b64char d2, CHR ''=''])"

definition enc1 :: "byte \<Rightarrow> string" where
  "enc1 b0 =
     (let d1 = push_bit 4 (b0 AND 0x03);
          d0 = drop_bit 2 (b0 AND 0xFC)
      in [b64char d0, b64char d1, CHR ''='', CHR ''=''])"

fun base64_encode :: "byte list \<Rightarrow> string" where
  "base64_encode [] = []"
| "base64_encode [b0] = enc1 b0"
| "base64_encode [b0, b1] = enc2 b0 b1"
| "base64_encode (b0 # b1 # b2 # bs) = enc3 b0 b1 b2 @ base64_encode bs"

definition untable_byte :: "char \<Rightarrow> byte" where
  "untable_byte c = word_of_int (b64untable c)"

definition dec4 :: "char \<Rightarrow> char \<Rightarrow> char \<Rightarrow> char \<Rightarrow> byte list" where
  "dec4 p0 p1 p2 p3 =
     (let d2 = (untable_byte p3 AND 0x3F) OR (push_bit 6 (untable_byte p2 AND 0x03));
          d1 = (drop_bit 2 (untable_byte p2 AND 0x3C)) OR (push_bit 4 (untable_byte p1 AND 0x0F));
          d0 = (drop_bit 4 (untable_byte p1 AND 0x30)) OR (push_bit 2 (untable_byte p0))
      in [d0, d1, d2])"

fun base64_decode :: "string \<Rightarrow> byte list option" where
  "base64_decode (p0 # p1 # p2 # p3 # rest) =
     (let padding = (if p3 = CHR ''='' then 1 else 0) + (if p2 = CHR ''='' then 1 else 0) in
      if p1 = CHR ''='' \<or> p0 = CHR ''='' then None
      else if padding \<noteq> 0 \<and> rest \<noteq> [] then None
      else if b64untable p3 = -1 \<or> b64untable p2 = -1 \<or> b64untable p1 = -1 \<or> b64untable p0 = -1 then None
      else if padding \<noteq> 0 then Some (take (3 - padding) (dec4 p0 p1 p2 p3))
      else map_option (\<lambda>out. dec4 p0 p1 p2 p3 @ out) (base64_decode rest))"
| "base64_decode _ = Some []"

subsection \<open>One group\<close>

lemma b64untable_table: "n < 64 \<Longrightarrow> b64untable (b64table ! n) = int n \<and> b64table ! n \<noteq> CHR ''=''"
proof -
  have "list_all (\<lambda>n. b64untable (b64table ! n) = int n \<and> b64table ! n \<noteq> CHR ''='') [0..<64]"
    by (simp add: b64table_def b64untable_def upt_rec)
  then show "n < 64 \<Longrightarrow> ?thesis" by (simp add: list_all_iff)
qed

lemma b64char_props:
  assumes "unat d < 64"
  shows "b64untable (b64char d) = uint d" and "b64char d \<noteq> CHR ''=''" and "untable_byte (b64char d) = d"
    and "b64untable (b64char d) \<noteq> -1"
proof -
  show "b64untable (b64char d) = uint d" and "b64char d \<noteq> CHR ''=''"
    using b64untable_table [OF assms] by (simp_all add: b64char_def)
  moreover have "uint d \<noteq> -1" using uint_ge_0 [of d] by linarith
  ultimately show "untable_byte (b64char d) = d" and "b64untable (b64char d) \<noteq> -1"
    by (simp_all add: untable_byte_def)
qed

lemma less_8_cases: "n < 8 \<Longrightarrow> n = 0 \<or> n = 1 \<or> n = 2 \<or> n = 3 \<or> n = 4 \<or> n = 5 \<or> n = 6 \<or> (n::nat) = 7"
  by arith

lemma sextet_bounds:
  "unat ((b2 :: byte) AND 0x3F) < 64"
  "unat ((drop_bit 6 ((b2 :: byte) AND 0xC0)) OR (push_bit 2 (b1 AND 0x0F))) < 64"
  "unat ((drop_bit 4 ((b1 :: byte) AND 0xF0)) OR (push_bit 4 (b0 AND 0x03))) < 64"
  "unat (drop_bit 2 ((b0 :: byte) AND 0xFC)) < 64"
  "unat (push_bit 2 ((b1 :: byte) AND 0x0F)) < 64"
  "unat (push_bit 4 ((b0 :: byte) AND 0x03)) < 64"
proof -
  have lt: "unat w < 64" if "\<not> bit w 6" and "\<not> bit w 7" for w :: byte
  proof -
    have "w = w AND 63"
    proof (rule bit_word_eqI)
      fix n assume "n < LENGTH(8)"
      then have "n < 8" by simp
      from less_8_cases [OF this] show "bit w n = bit (w AND 63) n"
        using that by (elim disjE) (simp_all add: bit_simps)
    qed
    then have "w \<le> 63" by (metis word_and_le1)
    then have "unat w \<le> unat (63 :: byte)" by (simp only: word_le_nat_alt)
    then show ?thesis by simp
  qed
  show "unat ((b2 :: byte) AND 0x3F) < 64"
  "unat ((drop_bit 6 ((b2 :: byte) AND 0xC0)) OR (push_bit 2 (b1 AND 0x0F))) < 64"
  "unat ((drop_bit 4 ((b1 :: byte) AND 0xF0)) OR (push_bit 4 (b0 AND 0x03))) < 64"
  "unat (drop_bit 2 ((b0 :: byte) AND 0xFC)) < 64"
  "unat (push_bit 2 ((b1 :: byte) AND 0x0F)) < 64"
  "unat (push_bit 4 ((b0 :: byte) AND 0x03)) < 64"
    by (rule lt; simp add: bit_simps)+
qed

lemma byte_eqI:
  fixes v w :: byte
  assumes "bit v 0 = bit w 0" "bit v 1 = bit w 1" "bit v 2 = bit w 2" "bit v 3 = bit w 3"
    "bit v 4 = bit w 4" "bit v 5 = bit w 5" "bit v 6 = bit w 6" "bit v 7 = bit w 7"
  shows "v = w"
proof (rule bit_word_eqI)
  fix n assume "n < LENGTH(8)"
  then have "n < 8" by simp
  from less_8_cases [OF this] show "bit v n = bit w n"
    using assms by (elim disjE) simp_all
qed

text \<open>The decoder puts the bits of a group back where the encoder took them from.\<close>

lemma octets_of_sextets:
  fixes b0 b1 b2 :: byte
  shows "((b2 AND 0x3F) AND 0x3F) OR
      push_bit 6 ((drop_bit 6 (b2 AND 0xC0) OR push_bit 2 (b1 AND 0x0F)) AND 0x03) = b2"
    and "drop_bit 2 ((drop_bit 6 (b2 AND 0xC0) OR push_bit 2 (b1 AND 0x0F)) AND 0x3C) OR
      push_bit 4 ((drop_bit 4 (b1 AND 0xF0) OR push_bit 4 (b0 AND 0x03)) AND 0x0F) = b1"
    and "drop_bit 2 (push_bit 2 (b1 AND 0x0F) AND 0x3C) OR
      push_bit 4 ((drop_bit 4 (b1 AND 0xF0) OR push_bit 4 (b0 AND 0x03)) AND 0x0F) = b1"
    and "drop_bit 4 ((drop_bit 4 (b1 AND 0xF0) OR push_bit 4 (b0 AND 0x03)) AND 0x30) OR
      push_bit 2 (drop_bit 2 (b0 AND 0xFC)) = b0"
    and "drop_bit 4 (push_bit 4 (b0 AND 0x03) AND 0x30) OR push_bit 2 (drop_bit 2 (b0 AND 0xFC)) = b0"
  by (rule byte_eqI; simp add: bit_simps)+

text \<open>Decoding of a group given by its sextets.\<close>

definition octets :: "byte \<Rightarrow> byte \<Rightarrow> byte \<Rightarrow> byte \<Rightarrow> byte list" where
  "octets d0 d1 d2 d3 =
     [drop_bit 4 (d1 AND 0x30) OR push_bit 2 d0,
      drop_bit 2 (d2 AND 0x3C) OR push_bit 4 (d1 AND 0x0F),
      (d3 AND 0x3F) OR push_bit 6 (d2 AND 0x03)]"

lemma b64untable_pad [simp]: "b64untable CHR ''='' = 0"
  by (simp add: b64untable_def)

lemma untable_byte_pad [simp]: "untable_byte CHR ''='' = 0"
  by (simp add: untable_byte_def)

lemma decode_group:
  assumes "unat d0 < 64" and "unat d1 < 64" and "unat d2 < 64" and "unat d3 < 64"
  shows "base64_decode (b64char d0 # b64char d1 # b64char d2 # b64char d3 # rest) =
      map_option (\<lambda>out. octets d0 d1 d2 d3 @ out) (base64_decode rest)"
    and "base64_decode [b64char d0, b64char d1, b64char d2, CHR ''=''] = Some [octets d0 d1 d2 0 ! 0, octets d0 d1 d2 0 ! 1]"
    and "base64_decode [b64char d0, b64char d1, CHR ''='', CHR ''=''] = Some [octets d0 d1 0 0 ! 0]"
  using b64char_props [OF assms(1)] b64char_props [OF assms(2)] b64char_props [OF assms(3)]
    b64char_props [OF assms(4)]
  by (cases "base64_decode rest"; simp add: dec4_def octets_def)+

lemma decode_enc3:
  "base64_decode (enc3 b0 b1 b2 @ rest) = map_option (\<lambda>out. b0 # b1 # b2 # out) (base64_decode rest)"
  unfolding enc3_def Let_def append_Cons append_Nil
  by (subst decode_group(1) [OF sextet_bounds(4,3,2,1)], cases "base64_decode rest")
    (simp_all only: octets_def octets_of_sextets append_Cons append_Nil option.map)

lemma decode_enc2: "base64_decode (enc2 b0 b1) = Some [b0, b1]"
  unfolding enc2_def Let_def
  by (subst decode_group(2) [OF sextet_bounds(4,3,5,1)])
    (simp only: octets_def octets_of_sextets nth_Cons_0 nth_Cons_Suc One_nat_def)

lemma decode_enc1: "base64_decode (enc1 b0) = Some [b0]"
  unfolding enc1_def Let_def
  by (subst decode_group(3) [OF sextet_bounds(4,6,1,1)])
    (simp only: octets_def octets_of_sextets nth_Cons_0)

subsection \<open>Whole buffers\<close>

lemma base64_decode_encode [simp]: "base64_decode (base64_encode bs) = Some bs"
  by (induction bs rule: base64_encode.induct) (simp_all add: decode_enc1 decode_enc2 decode_enc3)

lemma base64_encode_inj: "base64_encode bs = base64_encode bs' \<longleftrightarrow> bs = bs'"
  by (metis base64_decode_encode option.inject)

lemma length_base64_encode: "length (base64_encode bs) = base64_encode_len (length bs)"
proof (induction bs rule: base64_encode.induct)
  case (4 b0 b1 b2 bs)
  have "(length (b0 # b1 # b2 # bs) + 2) div 3 = Suc ((length bs + 2) div 3)" by simp
  with 4 show ?case by (simp add: base64_encode_len_def enc3_def Let_def)
qed (simp_all add: base64_encode_len_def enc1_def enc2_def Let_def)

lemma length_dec4 [simp]: "length (dec4 p0 p1 p2 p3) = 3"
  by (simp add: dec4_def)

lemma length_base64_decode:
  "base64_decode s = Some bs \<Longrightarrow> length bs \<le> 3 * (length s div 4)"
proof (induction s arbitrary: bs rule: base64_decode.induct)
  case (1 p0 p1 p2 p3 rest)
  have step: "3 * (length (p0 # p1 # p2 # p3 # rest) div 4) = 3 + 3 * (length rest div 4)"
    by (simp add: div_add_self1 [of 4 "length rest"])
  from "1.prems" consider "length bs \<le> 3"
    | out where "base64_decode rest = Some out" and "bs = dec4 p0 p1 p2 p3 @ out"
    by (auto simp: Let_def split: if_splits)
  then show ?case
  proof cases
    case 1
    with step show ?thesis by linarith
  next
    case 2
    have "length out \<le> 3 * (length rest div 4)"
      by (rule "1.IH") (use "1.prems" 2 in \<open>auto simp: Let_def split: if_splits\<close>)
    with 2 step show ?thesis by simp
  qed
qed simp_all

subsection \<open>Properties\<close>

text \<open>C34: Round trip.  Decoding the encoding of any byte buffer gives the buffer back, and the encoding
  has exactly the length \<^verbatim>\<open>base64_encode_len\<close> that callers allocate for it.\<close>

theorem base64_roundtrip:
  "base64_decode (base64_encode bs) = Some bs
    \<and> length (base64_encode bs) = base64_encode_len (length bs)"
  by (simp add: length_base64_encode)

text \<open>Decoding stores at most \<^verbatim>\<open>base64_decode_len\<close> bytes, the size callers allocate.\<close>

theorem base64_decode_fits:
  assumes "base64_decode s = Some bs"
  shows "length bs \<le> base64_decode_len (length s)"
proof -
  have "length s div 4 \<le> (length s + 3) div 4" by (simp add: div_le_mono)
  with length_base64_decode [OF assms] show ?thesis
    unfolding base64_decode_len_def by linarith
qed

theorem base64_decode_fits_witness:
  "base64_decode ''dGVzdA=='' = Some [0x74, 0x65, 0x73, 0x74]
    \<and> length [0x74, 0x65, 0x73, 0x74 :: byte] \<le> base64_decode_len (length ''dGVzdA=='')"
proof -
  have d: "base64_decode ''dGVzdA=='' = Some [0x74, 0x65, 0x73, 0x74]"
    by (simp add: dec4_def untable_byte_def b64untable_def)
  from d base64_decode_fits [OF d] show ?thesis by blast
qed

end
