(* ===== verification/Strmatch.thy ===== *)
theory Strmatch
  imports Prelude
begin

text \<open>
  \<^verbatim>\<open>contrib/netbsd/strmatch.c\<close>: the wildcard matcher used for query parameters and cookie names.
  Pointers are positions in the two NUL-terminated buffers, so the model reads the bytes behind
  \<^verbatim>\<open>strend\<close> and \<^verbatim>\<open>patend\<close> where the code does, and reading behind the terminating NUL is the
  fault \<open>Out_Of_Bounds\<close>.  The fall-through of the \<^verbatim>\<open>'*'\<close> case into the \<^verbatim>\<open>'['\<close> case and of the
  backslash case into the default are kept.
\<close>

definition rd :: "string \<Rightarrow> nat \<Rightarrow> char res" where
  "rd buf i = (if i < length buf then Inr (buf ! i)
               else if i = length buf then Inr NUL else Inl Out_Of_Bounds)"

text \<open>The value of a \<^verbatim>\<open>char\<close> as a (signed) integer.\<close>

definition schar :: "char \<Rightarrow> int" where
  "schar c = signed_take_bit 7 (int (of_char c))"

lemma rd_bound: "rd buf i = Inr c \<Longrightarrow> i \<le> length buf"
  by (simp add: rd_def split: if_splits)

subsection \<open>Bracket expressions\<close>

text \<open>
  One iteration of the loop of \<^verbatim>\<open>strrangematch\<close>: the closing bracket was read, the function returns
  NULL, or the loop goes on behind an item, which contains the tested character or not.
\<close>

datatype range_item = Range_Close nat | Range_Null | Range_Next bool nat

text \<open>\<^verbatim>\<open>if (c == '\\') c = tolower(*pattern++)\<close>\<close>

definition escaped :: "string \<Rightarrow> char \<Rightarrow> nat \<Rightarrow> (char \<times> nat) res" where
  "escaped pat c j =
     (if c = CHR 0x5C then res_bind (rd pat j) (\<lambda>e. Inr (tolower e, Suc j)) else Inr (c, j))"

definition range_item :: "string \<Rightarrow> nat \<Rightarrow> int \<Rightarrow> nat \<Rightarrow> range_item res" where
  "range_item pat patend test j =
     res_bind (rd pat j) (\<lambda>ch.
       if tolower ch = CHR '']'' then Inr (Range_Close (Suc j))
       else
         res_bind (escaped pat (tolower ch) (Suc j)) (\<lambda>(c, j1).
         if j1 = patend then Inr Range_Null
         else res_bind (rd pat j1) (\<lambda>d.
           if d = CHR ''-'' then
             res_bind (rd pat (Suc j1)) (\<lambda>ch2.
             let c2 = tolower ch2;
                 j2 = (if j1 \<noteq> patend \<and> c2 \<noteq> CHR '']'' then j1 + 2 else j1)
             in res_bind (escaped pat c2 j2) (\<lambda>(c3, j3).
                if j3 = patend then Inr Range_Null
                else Inr (Range_Next (schar c \<le> test \<and> test \<le> schar c3) j3)))
           else Inr (Range_Next (schar c = test) j1))))"

lemma escaped_progress: "escaped pat c j = Inr (c', j') \<Longrightarrow> j \<le> j'"
  by (auto simp: escaped_def split: if_splits)

lemma range_item_progress:
  "range_item pat patend test j = Inr (Range_Next m j') \<Longrightarrow> j < j' \<and> j \<le> length pat"
  "range_item pat patend test j = Inr (Range_Close j') \<Longrightarrow> j < j' \<and> j \<le> length pat"
  unfolding range_item_def Let_def
  by (elim res_bind_Inr_E; force dest!: rd_bound escaped_progress split: if_splits prod.splits elim!: res_bind_Inr_E)+

function range_loop :: "string \<Rightarrow> nat \<Rightarrow> int \<Rightarrow> bool \<Rightarrow> bool \<Rightarrow> nat \<Rightarrow> nat option res" where
  "range_loop pat patend test negate ok j =
     res_bind (range_item pat patend test j) (\<lambda>r. case r of
       Range_Close j' \<Rightarrow> Inr (if ok = negate then None else Some j')
     | Range_Null \<Rightarrow> Inr None
     | Range_Next m j' \<Rightarrow> range_loop pat patend test negate (ok \<or> m) j')"
  by pat_completeness auto
termination
proof (relation "measure (\<lambda>(pat, patend, test, negate, ok, j). Suc (length pat) - j)")
qed (auto dest!: range_item_progress)

declare range_loop.simps [simp del]

definition strrangematch :: "string \<Rightarrow> nat \<Rightarrow> int \<Rightarrow> nat \<Rightarrow> nat option res" where
  "strrangematch pat patend test j =
     res_bind (rd pat j) (\<lambda>c.
       let negate = (c = CHR ''!'' \<or> c = CHR ''^'')
       in range_loop pat patend test negate False (if negate then Suc j else j))"

lemma range_loop_progress:
  "range_loop pat patend test negate ok j = Inr (Some j') \<Longrightarrow> j < j'"
proof (induction pat patend test negate ok j rule: range_loop.induct)
  case (1 pat patend test negate ok j)
  from "1.prems" obtain r where r: "range_item pat patend test j = Inr r"
    and eq: "(case r of Range_Close j' \<Rightarrow> Inr (if ok = negate then None else Some j')
      | Range_Null \<Rightarrow> Inr None
      | Range_Next m j' \<Rightarrow> range_loop pat patend test negate (ok \<or> m) j') = Inr (Some j')"
    by (subst (asm) range_loop.simps) auto
  show ?case
  proof (cases r)
    case (Range_Next m j1)
    with eq "1.IH" [OF r Range_Next] range_item_progress(1) [of pat patend test j m j1] r
    show ?thesis by simp
  qed (use eq r range_item_progress(2) in \<open>auto split: if_splits\<close>)
qed

lemma strrangematch_progress:
  assumes "strrangematch pat patend test j = Inr (Some j')"
  shows "j < j' \<and> j \<le> length pat"
proof -
  from assms obtain c where "rd pat j = Inr c"
    and "range_loop pat patend test (c = CHR ''!'' \<or> c = CHR ''^'') False
      (if c = CHR ''!'' \<or> c = CHR ''^'' then Suc j else j) = Inr (Some j')"
    by (auto simp: strrangematch_def Let_def)
  from range_loop_progress [OF this(2)] rd_bound [OF this(1)] show ?thesis
    by (simp split: if_splits)
qed

subsection \<open>The matcher\<close>

text \<open>\<^verbatim>\<open>while (c == '*') c = tolower(*++pattern)\<close>\<close>

function star_skip :: "string \<Rightarrow> nat \<Rightarrow> nat res" where
  "star_skip pat j = res_bind (rd pat j) (\<lambda>c. if tolower c = CHR ''*'' then star_skip pat (Suc j) else Inr j)"
  by pat_completeness auto
termination
  by (relation "measure (\<lambda>(pat, j). Suc (length pat) - j)") (auto dest!: rd_bound)

declare star_skip.simps [simp del]

lemma star_skip_progress: "star_skip pat j = Inr j' \<Longrightarrow> j \<le> j'"
proof (induction pat j rule: star_skip.induct)
  case (1 pat j)
  then obtain c where "rd pat j = Inr c"
    and "(if tolower c = CHR ''*'' then star_skip pat (Suc j) else Inr j) = Inr j'"
    by (subst (asm) (2) star_skip.simps) auto
  with "1.IH" show ?case by (auto split: if_splits)
qed

text \<open>What one iteration of the outer loop does before the next one starts or the function returns.\<close>

datatype match_step = Done bool | Advance nat nat | Star nat

definition bracket_case :: "string \<Rightarrow> nat \<Rightarrow> string \<Rightarrow> nat \<Rightarrow> nat \<Rightarrow> nat \<Rightarrow> match_step res" where
  "bracket_case str strend pat patend i j =
     (if i = strend then Inr (Done False)
      else res_bind (rd str i) (\<lambda>c.
           res_bind (strrangematch pat patend (schar (tolower c)) j) (\<lambda>r. case r of
             None \<Rightarrow> Inr (Done False)
           | Some j' \<Rightarrow> Inr (Advance (Suc i) j'))))"

definition literal_case :: "string \<Rightarrow> char \<Rightarrow> nat \<Rightarrow> nat \<Rightarrow> match_step res" where
  "literal_case str c i j =
     res_bind (rd str i) (\<lambda>d. Inr (if c \<noteq> tolower d then Done False else Advance (Suc i) j))"

definition match_item :: "string \<Rightarrow> nat \<Rightarrow> string \<Rightarrow> nat \<Rightarrow> nat \<Rightarrow> nat \<Rightarrow> match_step res" where
  "match_item str strend pat patend i j =
     (if j = patend then Inr (Done (i = strend))
      else res_bind (rd pat j) (\<lambda>ch.
        let c = tolower ch in
        if c = CHR ''?'' then
          Inr (if i = strend then Done False else Advance (Suc i) (Suc j))
        else if c = CHR ''*'' then
          (if Suc j = patend then Inr (Done True)
           else res_bind (star_skip pat (Suc j)) (\<lambda>j2.
                Inr (if j2 = patend then Done True else Star j2)))
        else if c = CHR ''['' then bracket_case str strend pat patend i (Suc j)
        else if c = CHR 0x5C then
          res_bind (rd pat (Suc j)) (\<lambda>e.
            if Suc (Suc j) = patend then literal_case str (CHR 0x5C) i (Suc j)
            else literal_case str (tolower e) i (Suc (Suc j)))
        else literal_case str c i (Suc j)))"

lemma bracket_case_progress:
  "bracket_case str strend pat patend i j = Inr (Advance i' j') \<Longrightarrow> j < j'"
  "bracket_case str strend pat patend i j \<noteq> Inr (Star j2)"
  by (auto simp: bracket_case_def dest: strrangematch_progress split: if_splits option.splits)

lemma literal_case_progress:
  "literal_case str c i j = Inr (Advance i' j') \<Longrightarrow> j' = j"
  "literal_case str c i j \<noteq> Inr (Star j2)"
  by (auto simp: literal_case_def split: if_splits)

lemma match_item_progress:
  "match_item str strend pat patend i j = Inr (Advance i' j') \<Longrightarrow> j < j' \<and> j \<le> length pat"
  "match_item str strend pat patend i j = Inr (Star j') \<Longrightarrow> j < j' \<and> j \<le> length pat"
  by (auto simp: match_item_def Let_def bracket_case_progress(2) literal_case_progress(2)
      dest!: rd_bound star_skip_progress bracket_case_progress(1) literal_case_progress(1)
      split: if_splits)

function strmatch_at :: "string \<Rightarrow> nat \<Rightarrow> string \<Rightarrow> nat \<Rightarrow> nat \<Rightarrow> nat \<Rightarrow> bool res"
  and star_loop :: "string \<Rightarrow> nat \<Rightarrow> string \<Rightarrow> nat \<Rightarrow> nat \<Rightarrow> nat \<Rightarrow> bool res" where
  "strmatch_at str strend pat patend i j =
     res_bind (match_item str strend pat patend i j) (\<lambda>r. case r of
       Done b \<Rightarrow> Inr b
     | Advance i' j' \<Rightarrow> strmatch_at str strend pat patend i' j'
     | Star j2 \<Rightarrow>
         res_bind (star_loop str strend pat patend i j2) (\<lambda>found.
           if found then Inr True
           else res_bind (bracket_case str strend pat patend (max i strend) j2) (\<lambda>r'. case r' of
             Advance i' j' \<Rightarrow> strmatch_at str strend pat patend i' j'
           | _ \<Rightarrow> Inr False)))"
| "star_loop str strend pat patend i j =
     (if i < strend then
        res_bind (strmatch_at str strend pat patend i j) (\<lambda>b.
          if b then Inr True else star_loop str strend pat patend (Suc i) j)
      else Inr False)"
  by pat_completeness auto
termination
proof (relation "measures
    [\<lambda>x. case x of Inl (str, strend, pat, patend, i, j) \<Rightarrow> Suc (length pat) - j
              | Inr (str, strend, pat, patend, i, j) \<Rightarrow> Suc (length pat) - j,
     \<lambda>x. case x of Inl (str, strend, pat, patend, i, j) \<Rightarrow> 0
              | Inr (str, strend, pat, patend, i, j) \<Rightarrow> Suc (strend - i)]")
qed (auto dest!: match_item_progress bracket_case_progress(1))

declare strmatch_at.simps [simp del] star_loop.simps [simp del]

text \<open>
  \<^verbatim>\<open>strmatch(str, strend, pattern, patend)\<close> for a string that starts at the front of its buffer
  and a pattern that fills its buffer, as all callers have it.
\<close>

definition strmatch :: "string \<Rightarrow> nat \<Rightarrow> string \<Rightarrow> bool res" where
  "strmatch str strend pat = strmatch_at str strend pat (length pat) 0 0"

subsection \<open>Reference definition of wildcard matching\<close>

fun glob :: "string \<Rightarrow> string \<Rightarrow> bool" where
  "glob [] s = (s = [])"
| "glob (c # p) s =
     (if c = CHR ''?'' then s \<noteq> [] \<and> glob p (tl s)
      else if c = CHR ''*'' then (\<exists>k \<in> {..length s}. glob p (drop k s))
      else s \<noteq> [] \<and> tolower c = tolower (hd s) \<and> glob p (tl s))"

text \<open>
  Patterns without brackets and escapes, and without the character that stands at \<^verbatim>\<open>strend\<close> (the
  \<^verbatim>\<open>=\<close> behind a parameter name, or the terminating NUL).
\<close>

definition plain_pattern :: "char \<Rightarrow> string \<Rightarrow> bool" where
  "plain_pattern t pat \<longleftrightarrow>
     (\<forall>c \<in> set pat. c \<noteq> CHR ''['' \<and> c \<noteq> CHR 0x5C \<and> tolower c \<noteq> tolower t)"

lemma tolower_special [simp]:
  "tolower c = CHR ''*'' \<longleftrightarrow> c = CHR ''*''"
  "tolower c = CHR ''?'' \<longleftrightarrow> c = CHR ''?''"
  "tolower c = CHR ''['' \<longleftrightarrow> c = CHR ''[''"
  "tolower c = CHR 0x5C \<longleftrightarrow> c = CHR 0x5C"
proof -
  have up: "tolower c = d \<longleftrightarrow> c = d" if "(of_char d :: nat) < 65 \<or> 90 < (of_char d :: nat) \<and> (of_char d :: nat) < 97" for d
  proof (cases "65 \<le> (of_char c :: nat) \<and> (of_char c :: nat) \<le> 90")
    case True
    then have "(of_char (tolower c) :: nat) = of_char c + 32" by (simp add: tolower_def)
    with True that show ?thesis by auto
  next
    case False
    then show ?thesis by (auto simp: tolower_def)
  qed
  show "tolower c = CHR ''*'' \<longleftrightarrow> c = CHR ''*''" "tolower c = CHR ''?'' \<longleftrightarrow> c = CHR ''?''"
    "tolower c = CHR ''['' \<longleftrightarrow> c = CHR ''[''" "tolower c = CHR 0x5C \<longleftrightarrow> c = CHR 0x5C"
    by (rule up; simp)+
qed

lemma glob_star_star: "glob (CHR ''*'' # CHR ''*'' # p) s = glob (CHR ''*'' # p) s"
proof
  assume "glob (CHR ''*'' # CHR ''*'' # p) s"
  then obtain k l where "k \<le> length s" "l \<le> length s - k" "glob p (drop l (drop k s))" by auto
  then have "k + l \<le> length s" and "glob p (drop (k + l) s)" by (auto simp: add.commute)
  then show "glob (CHR ''*'' # p) s" by auto
next
  assume "glob (CHR ''*'' # p) s"
  then have "\<exists>k \<in> {..length s}. glob (CHR ''*'' # p) (drop k s)"
    by (intro bexI [of _ 0]) simp_all
  then show "glob (CHR ''*'' # CHR ''*'' # p) s" by simp
qed

lemma glob_star_stars: "glob (CHR ''*'' # p) s = glob (CHR ''*'' # dropWhile (\<lambda>c. c = CHR ''*'') p) s"
  by (induction p) (auto simp only: dropWhile.simps glob_star_star split: if_splits)

lemma star_skip_eq:
  assumes "j \<le> length pat"
  shows "star_skip pat j = Inr (j + length (takeWhile (\<lambda>c. c = CHR ''*'') (drop j pat)))"
  using assms
proof (induction pat j rule: star_skip.induct)
  case (1 pat j)
  show ?case
  proof (cases "j < length pat")
    case True
    then have "drop j pat = pat ! j # drop (Suc j) pat" by (simp add: Cons_nth_drop_Suc)
    with True "1.IH" [of "pat ! j"] show ?thesis
      by (subst star_skip.simps) (simp add: rd_def)
  next
    case False
    with "1.prems" show ?thesis by (subst star_skip.simps) (simp add: rd_def NUL_def)
  qed
qed

lemma ex_from_split:
  assumes "(i::nat) < e"
  shows "(\<exists>k. i \<le> k \<and> k < e \<and> P k) \<longleftrightarrow> P i \<or> (\<exists>k. Suc i \<le> k \<and> k < e \<and> P k)"
proof
  assume "\<exists>k. i \<le> k \<and> k < e \<and> P k"
  then obtain k where "i \<le> k" "k < e" "P k" by blast
  then show "P i \<or> (\<exists>k. Suc i \<le> k \<and> k < e \<and> P k)" by (cases "k = i") auto
next
  assume "P i \<or> (\<exists>k. Suc i \<le> k \<and> k < e \<and> P k)"
  with assms show "\<exists>k. i \<le> k \<and> k < e \<and> P k" using Suc_leD by blast
qed

lemma star_loop_eq:
  assumes "\<And>k. i \<le> k \<Longrightarrow> k < strend \<Longrightarrow> strmatch_at str strend pat patend k j = Inr (P k)"
  shows "star_loop str strend pat patend i j = Inr (\<exists>k. i \<le> k \<and> k < strend \<and> P k)"
  using assms
proof (induction "strend - i" arbitrary: i)
  case 0
  then show ?case by (subst star_loop.simps) auto
next
  case (Suc n)
  then have "i < strend" and IH: "star_loop str strend pat patend (Suc i) j
      = Inr (\<exists>k. Suc i \<le> k \<and> k < strend \<and> P k)" by auto
  then show ?case
    using Suc.prems [of i] ex_from_split [OF \<open>i < strend\<close>, of P]
    by (subst star_loop.simps) simp
qed

lemma strmatch_at_Done:
  "match_item str strend pat patend i j = Inr (Done b) \<Longrightarrow> strmatch_at str strend pat patend i j = Inr b"
  by (simp add: strmatch_at.simps)

lemma strmatch_at_Advance:
  "match_item str strend pat patend i j = Inr (Advance i' j') \<Longrightarrow>
   strmatch_at str strend pat patend i j = strmatch_at str strend pat patend i' j'"
  by (simp add: strmatch_at.simps [of str strend pat patend i j])

text \<open>The star case: the positions the loop tries are all that matter.\<close>

lemma strmatch_at_Star:
  assumes "match_item str strend pat patend i j = Inr (Star j2)" and "i \<le> strend"
    and "\<And>k. i \<le> k \<Longrightarrow> k < strend \<Longrightarrow> strmatch_at str strend pat patend k j2 = Inr (P k)"
  shows "strmatch_at str strend pat patend i j = Inr (\<exists>k. i \<le> k \<and> k < strend \<and> P k)"
  using assms by (simp add: strmatch_at.simps [of str strend pat patend i j] star_loop_eq bracket_case_def max_absorb2)

lemma rd_at_end: "rd str strend = Inr t \<Longrightarrow> strend \<le> length str"
  by (rule rd_bound)

text \<open>One step of the induction behind the equivalence with \<open>glob\<close>, for a literal character.\<close>

lemma match_item_literal:
  assumes "j < length pat" and "c = pat ! j" and "plain_pattern t pat" and "rd str strend = Inr t"
    and "c \<noteq> CHR ''?''" and "c \<noteq> CHR ''*''" and "i \<le> strend"
  shows "match_item str strend pat (length pat) i j =
    Inr (if i < strend \<and> tolower c = tolower (str ! i) then Advance (Suc i) (Suc j) else Done False)"
proof -
  have c: "c \<noteq> CHR ''[''" "c \<noteq> CHR 0x5C" "tolower c \<noteq> tolower t"
    using assms(1-3) nth_mem [of j pat] by (auto simp: plain_pattern_def)
  have "rd str i = Inr (if i = strend then t else str ! i)"
    using assms(4,7) rd_at_end [OF assms(4)] by (auto simp: rd_def)
  with c assms show ?thesis
    by (auto simp: match_item_def literal_case_def rd_def Let_def)
qed

lemma match_item_star:
  assumes "j < length pat" and "pat ! j = CHR ''*''"
    and "j2 = Suc j + length (takeWhile (\<lambda>c. c = CHR ''*'') (drop (Suc j) pat))"
  shows "match_item str strend pat (length pat) i j = Inr (if j2 = length pat then Done True else Star j2)"
    and "drop j2 pat = dropWhile (\<lambda>c. c = CHR ''*'') (drop (Suc j) pat)" and "j2 \<le> length pat"
proof -
  show "match_item str strend pat (length pat) i j = Inr (if j2 = length pat then Done True else Star j2)"
    using assms by (auto simp: match_item_def rd_def Let_def star_skip_eq tolower_def)
  show "drop j2 pat = dropWhile (\<lambda>c. c = CHR ''*'') (drop (Suc j) pat)"
    by (simp add: assms(3) dropWhile_eq_drop add.commute)
  show "j2 \<le> length pat"
    using assms(1) length_takeWhile_le [of "\<lambda>c. c = CHR ''*''" "drop (Suc j) pat"] by (simp add: assms(3))
qed

lemma glob_star_only: "glob [CHR ''*''] s"
  by (simp add: bexI [of _ "length s"])

lemma glob_Nil: "p \<noteq> [] \<Longrightarrow> hd p \<noteq> CHR ''*'' \<Longrightarrow> \<not> glob p []"
  by (cases p) simp_all

text \<open>A star followed by something else matches exactly if the rest matches at a position of the text.\<close>

lemma glob_star_positions:
  assumes "\<not> glob p []" and "i \<le> n" and "n = length s"
  shows "glob (CHR ''*'' # p) (drop i s) \<longleftrightarrow> (\<exists>k. i \<le> k \<and> k < n \<and> glob p (drop k s))"
proof
  assume "glob (CHR ''*'' # p) (drop i s)"
  then obtain l where l: "l \<le> length s - i" "glob p (drop (l + i) s)" by auto
  with assms have "drop (l + i) s \<noteq> []" by auto
  with l assms show "\<exists>k. i \<le> k \<and> k < n \<and> glob p (drop k s)"
    by (intro exI [of _ "l + i"]) auto
next
  assume "\<exists>k. i \<le> k \<and> k < n \<and> glob p (drop k s)"
  then obtain k where k: "i \<le> k" "k < n" "glob p (drop k s)" by blast
  then have "k - i \<in> {..length (drop i s)}" and "glob p (drop (k - i) (drop i s))"
    using assms by auto
  then show "glob (CHR ''*'' # p) (drop i s)" by auto
qed

lemma drop_take_Cons:
  "i < strend \<Longrightarrow> strend \<le> length str \<Longrightarrow> drop i (take strend str) = str ! i # drop (Suc i) (take strend str)"
  by (metis Cons_nth_drop_Suc length_take min.absorb2 nth_take)

lemma strmatch_at_glob:
  assumes "plain_pattern t pat" and "rd str strend = Inr t"
  shows "i \<le> strend \<Longrightarrow> j \<le> length pat \<Longrightarrow>
    strmatch_at str strend pat (length pat) i j = Inr (glob (drop j pat) (drop i (take strend str)))"
proof (induction "length pat - j" arbitrary: i j rule: less_induct)
  case less
  note bound = rd_at_end [OF assms(2)]
  show ?case
  proof (cases "j = length pat")
    case True
    with less.prems bound show ?thesis
      by (intro strmatch_at_Done [THEN trans]) (auto simp: match_item_def)
  next
    case False
    with less.prems have j: "j < length pat" by simp
    define c where "c = pat ! j"
    have pat: "drop j pat = c # drop (Suc j) pat" using j by (simp add: c_def Cons_nth_drop_Suc)
    have text_end: "drop i (take strend str) = [] \<longleftrightarrow> i = strend"
      using less.prems bound by auto
    have IH: "strmatch_at str strend pat (length pat) i' j'
        = Inr (glob (drop j' pat) (drop i' (take strend str)))" if "i' \<le> strend" "j < j'" "j' \<le> length pat" for i' j'
      using that less.hyps [of j' i'] by simp
    consider "c = CHR ''?''" | "c = CHR ''*''" | "c \<noteq> CHR ''?''" "c \<noteq> CHR ''*''" by blast
    then show ?thesis
    proof cases
      case 1
      then have "match_item str strend pat (length pat) i j
          = Inr (if i = strend then Done False else Advance (Suc i) (Suc j))"
        using j by (simp add: match_item_def rd_def c_def tolower_def)
      with 1 IH [of "Suc i" "Suc j"] j less.prems text_end bound show ?thesis
        by (auto simp: pat drop_Suc_Cons drop_take_Cons strmatch_at_Done strmatch_at_Advance)
    next
      case 2
      define j2 where "j2 = Suc j + length (takeWhile (\<lambda>c. c = CHR ''*'') (drop (Suc j) pat))"
      note star = match_item_star [OF j 2 [unfolded c_def] j2_def]
      have g: "glob (drop j pat) s = glob (CHR ''*'' # drop j2 pat) s" for s
        using glob_star_stars [of "drop (Suc j) pat" s] by (simp only: pat 2 star(2))
      show ?thesis
      proof (cases "j2 = length pat")
        case True
        then show ?thesis using star(1) by (simp add: g glob_star_only strmatch_at_Done del: glob.simps)
      next
        case False
        then have ne: "drop j2 pat \<noteq> []" using star(3) by simp
        have "hd (drop j2 pat) \<noteq> CHR ''*''"
          using ne unfolding star(2) by (rule hd_dropWhile)
        with ne have "\<not> glob (drop j2 pat) []" by (rule glob_Nil)
        moreover have "strmatch_at str strend pat (length pat) k j2 = Inr (glob (drop j2 pat) (drop k (take strend str)))"
          if "k < strend" for k using that star(3) by (intro IH) (simp_all add: j2_def)
        ultimately show ?thesis
          using strmatch_at_Star [OF star(1) [unfolded if_not_P [OF False]] less.prems(1)] less.prems(1) bound
          by (simp add: g glob_star_positions [of _ _ strend] del: glob.simps)
      qed
    next
      case 3
      note item = match_item_literal [OF j c_def assms 3 less.prems(1)]
      show ?thesis
      proof (cases "i < strend \<and> tolower c = tolower (str ! i)")
        case True
        with item IH [of "Suc i" "Suc j"] j less.prems bound 3 show ?thesis
          by (simp add: pat drop_take_Cons strmatch_at_Advance)
      next
        case False
        with item less.prems bound 3 text_end show ?thesis
          by (cases "i < strend") (auto simp: pat drop_take_Cons strmatch_at_Done)
      qed
    qed
  qed
qed

subsection \<open>Properties\<close>

text \<open>C35: The matcher agrees with wildcard matching.  For a pattern of literals, \<^verbatim>\<open>?\<close> and \<^verbatim>\<open>*\<close> that does
  not contain the character at \<^verbatim>\<open>strend\<close>, \<open>strmatch\<close> returns, reads nothing outside its buffers and
  answers whether the text before \<^verbatim>\<open>strend\<close> matches, ignoring case.\<close>

theorem strmatch_is_glob:
  assumes "plain_pattern t pat" and "rd str strend = Inr t"
  shows "strmatch str strend pat = Inr (glob pat (take strend str))"
  using strmatch_at_glob [OF assms, of 0 0] by (simp add: strmatch_def)

theorem strmatch_is_glob_witness:
  "plain_pattern CHR ''='' ''UTM_*'' \<and> rd ''utm_source=mail'' 10 = Inr CHR ''=''
    \<and> strmatch ''utm_source=mail'' 10 ''UTM_*'' = Inr True"
proof -
  have p: "plain_pattern CHR ''='' ''UTM_*''" by (simp add: plain_pattern_def tolower_def char_of_eq_iff)
  have r: "rd ''utm_source=mail'' 10 = Inr CHR ''=''" by (simp add: rd_def)
  have "glob ''UTM_*'' (take 10 ''utm_source=mail'')"
    by (simp add: tolower_def char_of_eq_iff)
  with p r strmatch_is_glob [OF p r] show ?thesis by simp
qed

text \<open>A pattern that names the character behind the parameter name escapes from the name: \<^verbatim>\<open>a=*\<close>
  matches the parameter \<^verbatim>\<open>a=1\<close> although only its name \<^verbatim>\<open>a\<close> was given to be matched, and a pattern that
  ends in a backslash makes the matcher read behind the end of the pattern.\<close>

theorem strmatch_overruns:
  "strmatch ''a=1'' 1 ''a=*'' = Inr True \<and> \<not> glob ''a=*'' (take 1 ''a=1'')
    \<and> strmatch ''a'' 1 (''a'' @ [CHR 0x5C]) = Inl Out_Of_Bounds"
proof -
  have "strmatch ''a=1'' 1 ''a=*'' = Inr True"
    by (simp add: strmatch_def strmatch_at.simps match_item_def literal_case_def rd_def tolower_def)
  moreover have "strmatch ''a'' 1 (''a'' @ [CHR 0x5C]) = Inl Out_Of_Bounds"
    by (simp add: strmatch_def strmatch_at.simps match_item_def literal_case_def rd_def tolower_def NUL_def)
  ultimately show ?thesis by simp
qed

end
