(* ===== verification/Api.thy ===== *)
theory Api
  imports Hash
begin

text \<open>
  The cluster state of \<^verbatim>\<open>api/api.h\<close>, \<^verbatim>\<open>api/namespace.c\<close> and \<^verbatim>\<open>api/cluster.c\<close>: the Kubernetes objects the
  plugin keeps, the tables of a namespace, the cluster with its global configuration, the parser
  of the ConfigMap options, and the domain matching used for default certificates and for the
  domain access list.  A pointer that may be NULL is an option; a vector with its length is a
  list; a \<^verbatim>\<open>TAILQ\<close> is the list of its elements.
\<close>

subsection \<open>Objects\<close>

record endpoints_port_t =
  et_name :: string
  et_port :: int
  et_protocol :: string

record endpoints_address_t =
  ea_ip :: "string option"
  ea_nodename :: "string option"

record endpoints_subset_t =
  es_addrs :: "endpoints_address_t list"
  es_ports :: "endpoints_port_t hash"

record endpoints_t =
  ep_name :: string
  ep_namespace :: string
  ep_subsets :: "endpoints_subset_t list"

datatype service_proto_t = SV_P_TCP | SV_P_UDP

record service_port_t =
  sp_name :: string
  sp_port :: int
  sp_target_port :: int
  sp_protocol :: service_proto_t

record service_t =
  sv_name :: string
  sv_namespace :: string
  sv_type :: "string option"
  sv_cluster_ip :: "string option"
  sv_session_affinity :: "string option"
  sv_external_name :: "string option"
  sv_selector :: "string hash option"
  sv_ports :: "service_port_t hash option"

record ingress_tls_t =
  it_secret_name :: "string option"
  it_hosts :: "string list"

record ingress_path_t =
  ip_path :: "string option"
  ip_service_name :: "string option"
  ip_service_port :: "string option"

record ingress_rule_t =
  ir_host :: "string option"
  ir_paths :: "ingress_path_t list"

record ingress_t =
  in_name :: string
  in_namespace :: string
  in_tls :: "ingress_tls_t list"
  in_rules :: "ingress_rule_t list"
  in_annotations :: "string hash"

record secret_t =
  se_name :: string
  se_namespace :: string
  se_type :: string
  se_data :: "string hash"

record configmap_t =
  cm_name :: string
  cm_namespace :: string
  cm_data :: "string hash"

record namespace_t =
  ns_name :: string
  ns_ingresses :: "ingress_t hash"
  ns_secrets :: "secret_t hash"
  ns_services :: "service_t hash"
  ns_endpointses :: "endpoints_t hash"

record cluster_cert_t =
  cr_domain :: string
  cr_namespace :: string
  cr_name :: string

record cluster_domain_t =
  da_domain :: string
  da_namespaces :: "unit hash"

record cluster_config_t =
  cc_tls_minimum_version :: int
  cc_hsts_max_age :: int
  cc_hsts_subdomains :: bool
  cc_http2 :: bool
  cc_healthcheck :: string
  cc_domains :: "cluster_domain_t list"
  cc_certs :: "cluster_cert_t list"

record cluster_t =
  cs_namespaces :: "namespace_t hash"
  cs_config :: cluster_config_t

definition IN_TLS_VERSION_1_0_VALUE :: int where "IN_TLS_VERSION_1_0_VALUE = 0x0100"
definition IN_TLS_VERSION_1_1_VALUE :: int where "IN_TLS_VERSION_1_1_VALUE = 0x0101"
definition IN_TLS_VERSION_1_2_VALUE :: int where "IN_TLS_VERSION_1_2_VALUE = 0x0102"

definition truefalse :: "string \<Rightarrow> bool" where
  "truefalse str \<longleftrightarrow> str = ''true''"

subsection \<open>Namespaces\<close>

definition namespace_make :: "string \<Rightarrow> namespace_t" where
  "namespace_make name =
     \<lparr>ns_name = name, ns_ingresses = hash_new 127 True, ns_secrets = hash_new 127 True,
      ns_services = hash_new 127 True, ns_endpointses = hash_new 127 True\<rparr>"

definition namespace_put_ingress :: "namespace_t \<Rightarrow> ingress_t \<Rightarrow> namespace_t" where
  "namespace_put_ingress ns ing =
     ns\<lparr>ns_ingresses := hash_set (hash_del (ns_ingresses ns) (in_name ing)) (in_name ing) ing\<rparr>"

definition namespace_get_ingress :: "namespace_t \<Rightarrow> string \<Rightarrow> ingress_t option" where
  "namespace_get_ingress ns name = hash_get (ns_ingresses ns) name"

definition namespace_del_ingress :: "namespace_t \<Rightarrow> string \<Rightarrow> namespace_t" where
  "namespace_del_ingress ns name = ns\<lparr>ns_ingresses := hash_del (ns_ingresses ns) name\<rparr>"

definition namespace_put_secret :: "namespace_t \<Rightarrow> secret_t \<Rightarrow> namespace_t" where
  "namespace_put_secret ns sec =
     ns\<lparr>ns_secrets := hash_set (hash_del (ns_secrets ns) (se_name sec)) (se_name sec) sec\<rparr>"

definition namespace_get_secret :: "namespace_t \<Rightarrow> string \<Rightarrow> secret_t option" where
  "namespace_get_secret ns name = hash_get (ns_secrets ns) name"

definition namespace_del_secret :: "namespace_t \<Rightarrow> string \<Rightarrow> namespace_t" where
  "namespace_del_secret ns name = ns\<lparr>ns_secrets := hash_del (ns_secrets ns) name\<rparr>"

definition namespace_put_service :: "namespace_t \<Rightarrow> service_t \<Rightarrow> namespace_t" where
  "namespace_put_service ns svc =
     ns\<lparr>ns_services := hash_set (hash_del (ns_services ns) (sv_name svc)) (sv_name svc) svc\<rparr>"

definition namespace_get_service :: "namespace_t \<Rightarrow> string \<Rightarrow> service_t option" where
  "namespace_get_service ns name = hash_get (ns_services ns) name"

definition namespace_del_service :: "namespace_t \<Rightarrow> string \<Rightarrow> namespace_t" where
  "namespace_del_service ns name = ns\<lparr>ns_services := hash_del (ns_services ns) name\<rparr>"

definition namespace_put_endpoints :: "namespace_t \<Rightarrow> endpoints_t \<Rightarrow> namespace_t" where
  "namespace_put_endpoints ns eps =
     ns\<lparr>ns_endpointses := hash_set (hash_del (ns_endpointses ns) (ep_name eps)) (ep_name eps) eps\<rparr>"

definition namespace_get_endpoints :: "namespace_t \<Rightarrow> string \<Rightarrow> endpoints_t option" where
  "namespace_get_endpoints ns name = hash_get (ns_endpointses ns) name"

definition namespace_del_endpoints :: "namespace_t \<Rightarrow> string \<Rightarrow> namespace_t" where
  "namespace_del_endpoints ns name = ns\<lparr>ns_endpointses := hash_del (ns_endpointses ns) name\<rparr>"

subsection \<open>The cluster and its configuration\<close>

definition cluster_config_new :: cluster_config_t where
  "cluster_config_new =
     \<lparr>cc_tls_minimum_version = IN_TLS_VERSION_1_0_VALUE, cc_hsts_max_age = 0,
      cc_hsts_subdomains = False, cc_http2 = True,
      cc_healthcheck = ''/__trafficserver_alive'', cc_domains = [], cc_certs = []\<rparr>"

definition cluster_make :: cluster_t where
  "cluster_make = \<lparr>cs_namespaces = hash_new 127 True, cs_config = cluster_config_new\<rparr>"

text \<open>
  \<open>cluster_get_namespace\<close> makes sure that the namespace exists; the pointer it returns is then the
  entry of the table, and what the code does with it is a \<open>cluster_update_namespace\<close>.
\<close>

definition cluster_get_namespace :: "cluster_t \<Rightarrow> string \<Rightarrow> cluster_t" where
  "cluster_get_namespace cs name =
     (case hash_get (cs_namespaces cs) name of
        Some _ \<Rightarrow> cs
      | None \<Rightarrow> cs\<lparr>cs_namespaces := hash_set (cs_namespaces cs) name (namespace_make name)\<rparr>)"

definition cluster_update_namespace :: "cluster_t \<Rightarrow> string \<Rightarrow> (namespace_t \<Rightarrow> namespace_t) \<Rightarrow> cluster_t" where
  "cluster_update_namespace cs name f =
     (let cs' = cluster_get_namespace cs name
      in cs'\<lparr>cs_namespaces := hash_store (cs_namespaces cs') name f\<rparr>)"

text \<open>One entry of the \<^verbatim>\<open>tls-certificates\<close> option, as the loop body of \<^verbatim>\<open>cluster_config_add_certs\<close>
  reads it: the domains before the colon, then namespace and name of the secret.\<close>

definition parse_cert_entry :: "string \<Rightarrow> cluster_cert_t list" where
  "parse_cert_entry p =
     (case strchr p CHR '':'' of
        None \<Rightarrow> []
      | Some n \<Rightarrow>
          (let certns = drop (Suc n) p in
           case strchr certns CHR ''/'' of
             None \<Rightarrow> []
           | Some m \<Rightarrow>
               map (\<lambda>d. \<lparr>cr_domain = d, cr_namespace = take m certns, cr_name = drop (Suc m) certns\<rparr>)
                 (strsep_all '','' (take n p))))"

definition cluster_config_add_certs :: "cluster_config_t \<Rightarrow> string \<Rightarrow> cluster_config_t" where
  "cluster_config_add_certs cc certs =
     cc\<lparr>cc_certs := cc_certs cc @ concat (map parse_cert_entry (strsep_all ('' '' @ [CHR 0x09] @ '','') certs))\<rparr>"

definition parse_domain_entry :: "string \<Rightarrow> cluster_domain_t list" where
  "parse_domain_entry q =
     (case strchr q CHR '':'' of
        None \<Rightarrow> []
      | Some n \<Rightarrow>
          [\<lparr>da_domain = take n q,
            da_namespaces = fold (\<lambda>ns h. hash_set h ns ()) (strsep_all '','' (drop (Suc n) q)) (hash_new 13 False)\<rparr>])"

definition cluster_config_add_domains :: "cluster_config_t \<Rightarrow> string \<Rightarrow> cluster_config_t" where
  "cluster_config_add_domains cc s =
     cc\<lparr>cc_domains := cc_domains cc @
       concat (map parse_domain_entry (strsep_all ('' '' @ [CHR 0x09, CHR 0x0A, CHR 0x0D]) s))\<rparr>"

definition set_min_version :: "cluster_config_t \<Rightarrow> string \<Rightarrow> cluster_config_t" where
  "set_min_version cc s =
     (if s = ''1.0'' then cc\<lparr>cc_tls_minimum_version := IN_TLS_VERSION_1_0_VALUE\<rparr>
      else if s = ''1.1'' then cc\<lparr>cc_tls_minimum_version := IN_TLS_VERSION_1_1_VALUE\<rparr>
      else if s = ''1.2'' then cc\<lparr>cc_tls_minimum_version := IN_TLS_VERSION_1_2_VALUE\<rparr>
      else cc)"

definition set_healthcheck :: "cluster_config_t \<Rightarrow> string \<Rightarrow> cluster_config_t" where
  "set_healthcheck cc s =
     (if take 1 (cc_healthcheck cc) \<noteq> ''/'' then cc else cc\<lparr>cc_healthcheck := s\<rparr>)"

definition on_option :: "string hash \<Rightarrow> string \<Rightarrow> (cluster_config_t \<Rightarrow> string \<Rightarrow> cluster_config_t)
    \<Rightarrow> cluster_config_t \<Rightarrow> cluster_config_t" where
  "on_option data key f cc = (case hash_get data key of None \<Rightarrow> cc | Some s \<Rightarrow> f cc s)"

definition parse_configmap :: "string hash \<Rightarrow> cluster_config_t" where
  "parse_configmap data =
     (let cc = cluster_config_new;
          cc = on_option data ''hsts-max-age'' (\<lambda>cc s. cc\<lparr>cc_hsts_max_age := atoi s\<rparr>) cc;
          cc = on_option data ''hsts-include-subdomains'' (\<lambda>cc s. cc\<lparr>cc_hsts_subdomains := truefalse s\<rparr>) cc;
          cc = on_option data ''http2-enable'' (\<lambda>cc s. cc\<lparr>cc_http2 := truefalse s\<rparr>) cc;
          cc = on_option data ''tls-minimum-version'' set_min_version cc;
          cc = on_option data ''tls-certificates'' cluster_config_add_certs cc;
          cc = on_option data ''healthcheck-path'' set_healthcheck cc
      in on_option data ''domain-access-list'' cluster_config_add_domains cc)"

definition cluster_set_configmap :: "cluster_t \<Rightarrow> configmap_t option \<Rightarrow> cluster_t" where
  "cluster_set_configmap cs cm =
     (case cm of
        None \<Rightarrow> cs\<lparr>cs_config := cluster_config_new\<rparr>
      | Some cm \<Rightarrow> cs\<lparr>cs_config := parse_configmap (cm_data cm)\<rparr>)"

subsection \<open>Domain matching\<close>

definition domain_match :: "string \<Rightarrow> string \<Rightarrow> bool" where
  "domain_match pat str =
     (if pat = ''*'' then True
      else if length str < 3 \<or> length pat < 3 then False
      else if pat ! 0 \<noteq> CHR ''*'' then pat = str
      else if pat ! 0 = CHR ''*'' \<and> pat ! 1 = CHR ''.'' then
        (case strchr str CHR ''.'' of None \<Rightarrow> False | Some n \<Rightarrow> drop 2 pat = drop (Suc n) str)
      else if drop 1 pat = str then True
      else (case strchr str CHR ''.'' of None \<Rightarrow> False | Some n \<Rightarrow> drop 1 pat = drop (Suc n) str))"

definition cluster_get_cert_for_hostname :: "cluster_t \<Rightarrow> string \<Rightarrow> cluster_cert_t option" where
  "cluster_get_cert_for_hostname cs host =
     List.find (\<lambda>crt. domain_match (cr_domain crt) host) (cc_certs (cs_config cs))"

fun domain_list_allows :: "cluster_domain_t list \<Rightarrow> string \<Rightarrow> string \<Rightarrow> bool" where
  "domain_list_allows [] dname ns = False"
| "domain_list_allows (cd # cds) dname ns =
     (if (da_domain cd = ''*'' \<or> domain_match (da_domain cd) dname) \<and>
         (hash_get (da_namespaces cd) ''*'' = Some () \<or> hash_get (da_namespaces cd) ns = Some ())
      then True else domain_list_allows cds dname ns)"

definition cluster_domain_for_ns :: "cluster_t \<Rightarrow> string \<Rightarrow> string \<Rightarrow> bool" where
  "cluster_domain_for_ns cs dname ns =
     (if cc_domains (cs_config cs) = [] then True
      else domain_list_allows (cc_domains (cs_config cs)) dname ns)"

subsection \<open>Well-formed states\<close>

definition namespace_ok :: "namespace_t \<Rightarrow> bool" where
  "namespace_ok ns \<longleftrightarrow> hash_unique (ns_ingresses ns) \<and> hash_unique (ns_secrets ns)
     \<and> hash_unique (ns_services ns) \<and> hash_unique (ns_endpointses ns)"

definition cluster_ok :: "cluster_t \<Rightarrow> bool" where
  "cluster_ok cs \<longleftrightarrow> hash_unique (cs_namespaces cs)
     \<and> (\<forall>k ns. hash_get (cs_namespaces cs) k = Some ns \<longrightarrow> namespace_ok ns \<and> ns_name ns = k)"

text \<open>The four tables of a namespace are used through the map contract of \<open>kv_map\<close>.\<close>

lemmas namespace_table_simps =
  ht.unique.inv_fresh ht.unique.inv_put ht.unique.inv_del
  ht.unique.lookup_fresh ht.unique.lookup_put ht.unique.lookup_del

lemmas namespace_op_defs =
  namespace_put_ingress_def namespace_get_ingress_def namespace_del_ingress_def
  namespace_put_secret_def namespace_get_secret_def namespace_del_secret_def
  namespace_put_service_def namespace_get_service_def namespace_del_service_def
  namespace_put_endpoints_def namespace_get_endpoints_def namespace_del_endpoints_def

lemma namespace_make_ok [simp]: "namespace_ok (namespace_make name)"
  by (simp add: namespace_ok_def namespace_make_def)

lemma namespace_ops_ok [intro]:
  assumes "namespace_ok ns"
  shows "namespace_ok (namespace_put_ingress ns i)" "namespace_ok (namespace_del_ingress ns n)"
    "namespace_ok (namespace_put_secret ns s)" "namespace_ok (namespace_del_secret ns n)"
    "namespace_ok (namespace_put_service ns v)" "namespace_ok (namespace_del_service ns n)"
    "namespace_ok (namespace_put_endpoints ns e)" "namespace_ok (namespace_del_endpoints ns n)"
  using assms
    ht.unique.inv_put [of "ns_ingresses ns"] ht.unique.inv_del [of "ns_ingresses ns"]
    ht.unique.inv_put [of "ns_secrets ns"] ht.unique.inv_del [of "ns_secrets ns"]
    ht.unique.inv_put [of "ns_services ns"] ht.unique.inv_del [of "ns_services ns"]
    ht.unique.inv_put [of "ns_endpointses ns"] ht.unique.inv_del [of "ns_endpointses ns"]
  by (simp_all add: namespace_ok_def namespace_op_defs)

lemma namespace_ops_name [simp]:
  "ns_name (namespace_put_ingress ns i) = ns_name ns" "ns_name (namespace_del_ingress ns n) = ns_name ns"
  "ns_name (namespace_put_secret ns s) = ns_name ns" "ns_name (namespace_del_secret ns n) = ns_name ns"
  "ns_name (namespace_put_service ns v) = ns_name ns" "ns_name (namespace_del_service ns n) = ns_name ns"
  "ns_name (namespace_put_endpoints ns e) = ns_name ns" "ns_name (namespace_del_endpoints ns n) = ns_name ns"
  by (simp_all add: namespace_op_defs)

lemma cluster_make_ok [simp]: "cluster_ok cluster_make"
  by (simp add: cluster_ok_def cluster_make_def)

lemma cluster_set_configmap_ok [simp]: "cluster_ok (cluster_set_configmap cs cm) \<longleftrightarrow> cluster_ok cs"
  by (simp add: cluster_ok_def cluster_set_configmap_def split: option.splits)

lemma cluster_get_namespace_lookup:
  assumes "cluster_ok cs"
  shows "hash_get (cs_namespaces (cluster_get_namespace cs name)) k =
    (if k = name then Some (case hash_get (cs_namespaces cs) name of None \<Rightarrow> namespace_make name | Some ns \<Rightarrow> ns)
     else hash_get (cs_namespaces cs) k)"
  using assms by (auto simp: cluster_get_namespace_def cluster_ok_def split: option.splits)

lemma hash_unique_set_fresh:
  assumes "hash_unique h" and "hash_get h k = None"
  shows "hash_unique (hash_set h k v)"
  using assms by (auto simp: ht.get_vals split: list.splits)

lemma cluster_get_namespace_ok [intro]: "cluster_ok cs \<Longrightarrow> cluster_ok (cluster_get_namespace cs name)"
  using cluster_get_namespace_lookup [of cs name] hash_unique_set_fresh [of "cs_namespaces cs" name]
  by (auto simp: cluster_ok_def cluster_get_namespace_def namespace_make_def namespace_ok_def split: option.splits if_splits)

lemma cluster_update_namespace_lookup:
  assumes "cluster_ok cs"
  shows "hash_get (cs_namespaces (cluster_update_namespace cs name f)) k =
    (if k = name
     then Some (f (case hash_get (cs_namespaces cs) name of None \<Rightarrow> namespace_make name | Some ns \<Rightarrow> ns))
     else hash_get (cs_namespaces cs) k)"
  using cluster_get_namespace_lookup [OF assms, of name] cluster_get_namespace_ok [OF assms, of name]
  by (simp add: cluster_update_namespace_def Let_def cluster_ok_def)

lemma cluster_update_namespace_ok:
  assumes "cluster_ok cs"
    and "\<And>ns. namespace_ok ns \<Longrightarrow> namespace_ok (f ns) \<and> ns_name (f ns) = ns_name ns"
  shows "cluster_ok (cluster_update_namespace cs name f)"
proof -
  let ?cs = "cluster_get_namespace cs name"
  have ok: "cluster_ok ?cs" using assms(1) by blast
  then have "hash_unique (hash_store (cs_namespaces ?cs) name f)"
    by (simp only: cluster_ok_def ht.ok_store ht.length_vals_store simp_thms)
  with ok assms(2) show ?thesis
    by (auto simp: cluster_update_namespace_def cluster_ok_def Let_def split: if_splits)
qed

lemma cs_config_update_namespace [simp]: "cs_config (cluster_update_namespace cs name f) = cs_config cs"
  by (simp add: cluster_update_namespace_def cluster_get_namespace_def Let_def split: option.splits)

text \<open>
  The contract of one kind of object of a namespace.  A client sees the cluster as a table indexed
  by namespace and name; \<open>cluster_replay\<close> says what a log of changes leaves in it.
\<close>

definition cluster_lookup :: "(namespace_t \<Rightarrow> string \<Rightarrow> 'o option) \<Rightarrow> cluster_t \<Rightarrow> string \<Rightarrow> string \<Rightarrow> 'o option" where
  "cluster_lookup get cs n k = Option.bind (hash_get (cs_namespaces cs) n) (\<lambda>ns. get ns k)"

locale ns_objects =
  fixes put :: "namespace_t \<Rightarrow> 'o \<Rightarrow> namespace_t"
    and get :: "namespace_t \<Rightarrow> string \<Rightarrow> 'o option"
    and del :: "namespace_t \<Rightarrow> string \<Rightarrow> namespace_t"
    and oname :: "'o \<Rightarrow> string"
  assumes put_ok: "namespace_ok ns \<Longrightarrow> namespace_ok (put ns ob) \<and> ns_name (put ns ob) = ns_name ns"
    and del_ok: "namespace_ok ns \<Longrightarrow> namespace_ok (del ns k) \<and> ns_name (del ns k) = ns_name ns"
    and get_make: "get (namespace_make n) k = None"
    and get_put: "namespace_ok ns \<Longrightarrow> get (put ns ob) k = (if k = oname ob then Some ob else get ns k)"
    and get_del: "namespace_ok ns \<Longrightarrow> get (del ns k') k = (if k = k' then None else get ns k)"
begin

lemma cluster_put:
  assumes "cluster_ok cs"
  shows "cluster_ok (cluster_update_namespace cs n (\<lambda>ns. put ns ob))"
    and "cluster_lookup get (cluster_update_namespace cs n (\<lambda>ns. put ns ob)) m k =
      (if m = n \<and> k = oname ob then Some ob else cluster_lookup get cs m k)"
proof -
  show "cluster_ok (cluster_update_namespace cs n (\<lambda>ns. put ns ob))"
    using assms put_ok by (intro cluster_update_namespace_ok) auto
  show "cluster_lookup get (cluster_update_namespace cs n (\<lambda>ns. put ns ob)) m k =
      (if m = n \<and> k = oname ob then Some ob else cluster_lookup get cs m k)"
    using assms by (auto simp: cluster_lookup_def cluster_update_namespace_lookup get_put get_make
        cluster_ok_def split: option.splits)
qed

lemma cluster_del:
  assumes "cluster_ok cs"
  shows "cluster_ok (cluster_update_namespace cs n (\<lambda>ns. del ns k'))"
    and "cluster_lookup get (cluster_update_namespace cs n (\<lambda>ns. del ns k')) m k =
      (if m = n \<and> k = k' then None else cluster_lookup get cs m k)"
proof -
  show "cluster_ok (cluster_update_namespace cs n (\<lambda>ns. del ns k'))"
    using assms del_ok by (intro cluster_update_namespace_ok) auto
  show "cluster_lookup get (cluster_update_namespace cs n (\<lambda>ns. del ns k')) m k =
      (if m = n \<and> k = k' then None else cluster_lookup get cs m k)"
    using assms by (auto simp: cluster_lookup_def cluster_update_namespace_lookup get_del get_make
        cluster_ok_def split: option.splits)
qed

lemma cluster_replay:
  assumes "cluster_ok cs"
  shows "cluster_ok (fold (\<lambda>((n, k), ov) cs. cluster_update_namespace cs n
            (\<lambda>ns. case ov of None \<Rightarrow> del ns k | Some ob \<Rightarrow> put ns ob)) es cs)
    \<and> ((\<forall>n k ob. ((n, k), Some ob) \<in> set es \<longrightarrow> oname ob = k) \<longrightarrow>
       cluster_lookup get (fold (\<lambda>((n, k), ov) cs. cluster_update_namespace cs n
            (\<lambda>ns. case ov of None \<Rightarrow> del ns k | Some ob \<Rightarrow> put ns ob)) es cs) m j
       = (case map_of (rev es) (m, j) of None \<Rightarrow> cluster_lookup get cs m j | Some ov \<Rightarrow> ov))"
  using assms
proof (induction es arbitrary: cs)
  case (Cons e es)
  obtain n k ov where e: "e = ((n, k), ov)" by (metis surj_pair)
  show ?case
  proof (cases ov)
    case None
    with Cons.prems Cons.IH [OF cluster_del(1) [OF Cons.prems, of n k]] e show ?thesis
      by (auto simp: cluster_del map_add_def split: option.splits)
  next
    case (Some ob)
    with Cons.prems Cons.IH [OF cluster_put(1) [OF Cons.prems, of n ob]] e show ?thesis
      by (auto simp: cluster_put map_add_def split: option.splits)
  qed
qed simp

end

lemmas namespace_contract_simps = namespace_ok_def namespace_op_defs namespace_make_def

interpretation ingresses: ns_objects namespace_put_ingress namespace_get_ingress namespace_del_ingress in_name
  by unfold_locales (auto simp: namespace_contract_simps ht.unique.lookup_del)

interpretation secrets: ns_objects namespace_put_secret namespace_get_secret namespace_del_secret se_name
  by unfold_locales (auto simp: namespace_contract_simps ht.unique.lookup_del)

interpretation services: ns_objects namespace_put_service namespace_get_service namespace_del_service sv_name
  by unfold_locales (auto simp: namespace_contract_simps ht.unique.lookup_del)

interpretation endpointses: ns_objects namespace_put_endpoints namespace_get_endpoints namespace_del_endpoints ep_name
  by unfold_locales (auto simp: namespace_contract_simps ht.unique.lookup_del)

subsection \<open>The configuration\<close>

lemma after_component_iff:
  "(case strchr str c of None \<Rightarrow> False | Some n \<Rightarrow> d = drop (Suc n) str)
    \<longleftrightarrow> (\<exists>h. str = h @ c # d \<and> c \<notin> set h)"
  using strchr_rest_iff [of "\<lambda>a b. d = b" str c] by auto

text \<open>An option that does not touch a field leaves it alone; the one that sets it decides.\<close>

lemma on_option_keep: "(\<And>cc s. fld (f cc s) = fld cc) \<Longrightarrow> fld (on_option data key f cc) = fld cc"
  by (simp add: on_option_def split: option.splits)

lemma on_option_set: "fld (on_option data key f cc) =
    (case hash_get data key of None \<Rightarrow> fld cc | Some s \<Rightarrow> fld (f cc s))"
  by (simp add: on_option_def split: option.splits)

lemma config_setters_keep [simp]:
  "cc_certs (set_min_version cc s) = cc_certs cc" "cc_domains (set_min_version cc s) = cc_domains cc"
  "cc_healthcheck (set_min_version cc s) = cc_healthcheck cc"
  "cc_certs (set_healthcheck cc s) = cc_certs cc" "cc_domains (set_healthcheck cc s) = cc_domains cc"
  "cc_tls_minimum_version (set_healthcheck cc s) = cc_tls_minimum_version cc"
  "cc_domains (cluster_config_add_certs cc s) = cc_domains cc"
  "cc_healthcheck (cluster_config_add_certs cc s) = cc_healthcheck cc"
  "cc_tls_minimum_version (cluster_config_add_certs cc s) = cc_tls_minimum_version cc"
  "cc_certs (cluster_config_add_domains cc s) = cc_certs cc"
  "cc_healthcheck (cluster_config_add_domains cc s) = cc_healthcheck cc"
  "cc_tls_minimum_version (cluster_config_add_domains cc s) = cc_tls_minimum_version cc"
  by (simp_all add: set_min_version_def set_healthcheck_def cluster_config_add_certs_def
      cluster_config_add_domains_def)

text \<open>The entries of a domain access list.\<close>

definition domain_entries :: "string \<Rightarrow> string list" where
  "domain_entries s = strsep_all ('' '' @ [CHR 0x09, CHR 0x0A, CHR 0x0D]) s"

lemma parse_configmap_domains:
  "cc_domains (parse_configmap data) = (case hash_get data ''domain-access-list'' of
      None \<Rightarrow> [] | Some s \<Rightarrow> concat (map parse_domain_entry (domain_entries s)))"
  by (simp add: parse_configmap_def Let_def on_option_set [of cc_domains _ "''domain-access-list''"]
      on_option_keep [of cc_domains] cluster_config_add_domains_def domain_entries_def
      cong: option.case_cong) (simp add: cluster_config_new_def split: option.split)

lemma parse_configmap_healthcheck:
  "cc_healthcheck (parse_configmap data) = (case hash_get data ''healthcheck-path'' of
      None \<Rightarrow> ''/__trafficserver_alive'' | Some s \<Rightarrow> s)"
  by (simp add: parse_configmap_def Let_def on_option_set [of cc_healthcheck _ "''healthcheck-path''"]
      on_option_keep [of cc_healthcheck] set_healthcheck_def
      cong: option.case_cong) (simp add: cluster_config_new_def split: option.split)

lemma hash_set_of_list:
  "0 < n \<Longrightarrow> hash_get (fold (\<lambda>k h. hash_set h k ()) ks (hash_new n ff)) k = Some () \<longleftrightarrow> k \<in> set ks"
  using ht.get_fold_push [of "hash_new n ff" "\<lambda>_. ()" ks k] by simp

lemma domain_match_star [simp]: "domain_match ''*'' str"
  by (simp add: domain_match_def)

lemma domain_list_allows_iff:
  "domain_list_allows cds dname ns \<longleftrightarrow>
    (\<exists>cd \<in> set cds. domain_match (da_domain cd) dname \<and>
       (hash_get (da_namespaces cd) ''*'' = Some () \<or> hash_get (da_namespaces cd) ns = Some ()))"
  by (induction cds) auto

text \<open>
  The well-formed entries of an access list, those with a colon, as pairs of a pattern and a list of namespaces, and the
  rule of \<^verbatim>\<open>docs/domainaccess.md\<close>: the first entry that matches a domain decides, and a domain without one is denied.
\<close>

definition access_entry :: "string \<Rightarrow> (string \<times> string) option" where
  "access_entry q = map_option (\<lambda>n. (take n q, drop (Suc n) q)) (strchr q CHR '':'')"

definition access_entries :: "string \<Rightarrow> (string \<times> string) list" where
  "access_entries s = List.map_filter access_entry (domain_entries s)"

definition entry_admits :: "string \<Rightarrow> string \<Rightarrow> bool" where
  "entry_admits l ns \<longleftrightarrow> ''*'' \<in> set (strsep_all '','' l) \<or> ns \<in> set (strsep_all '','' l)"

definition documented_access :: "string \<Rightarrow> string \<Rightarrow> string \<Rightarrow> bool" where
  "documented_access s dname ns =
     (case filter (\<lambda>(p, l). domain_match p dname) (access_entries s) of [] \<Rightarrow> False | (p, l) # _ \<Rightarrow> entry_admits l ns)"

lemma parse_domain_entries:
  "concat (map parse_domain_entry qs) = map (\<lambda>(p, l). \<lparr>da_domain = p,
     da_namespaces = fold (\<lambda>ns h. hash_set h ns ()) (strsep_all '','' l) (hash_new 13 False)\<rparr>) (List.map_filter access_entry qs)"
  by (induction qs) (auto simp: parse_domain_entry_def access_entry_def map_filter_simps split: option.splits simp del: strchr_None_iff)

lemma cc_domains_access_entries:
  assumes "hash_get (cm_data cm) ''domain-access-list'' = Some s"
  shows "cluster_domain_for_ns (cluster_set_configmap cs (Some cm)) dname ns \<longleftrightarrow>
    access_entries s = [] \<or> (\<exists>(p, l) \<in> set (access_entries s). domain_match p dname \<and> entry_admits l ns)"
  using assms by (auto simp: cluster_domain_for_ns_def cluster_set_configmap_def parse_configmap_domains parse_domain_entries
      access_entries_def domain_list_allows_iff hash_set_of_list entry_admits_def case_prod_unfold)

subsection \<open>Properties\<close>

text \<open>C30: The host patterns of the certificate list and of the domain access list mean what the comment
  above \<^verbatim>\<open>domain_match\<close> says.  A lone star matches every host.  Otherwise host and pattern need three
  characters, and: a pattern that does not start with a star matches itself only; \<open>*.d\<close> matches a host
  that is one component followed by \<open>.d\<close>; \<open>*d\<close> matches \<open>d\<close> itself and one component followed by \<open>.d\<close>.\<close>

theorem domain_match_correct:
  "domain_match pat str \<longleftrightarrow> pat = ''*'' \<or>
    3 \<le> length str \<and> 3 \<le> length pat \<and>
    (hd pat \<noteq> CHR ''*'' \<and> str = pat
     \<or> (\<exists>d h. pat = ''*.'' @ d \<and> str = h @ ''.'' @ d \<and> CHR ''.'' \<notin> set h)
     \<or> (\<exists>d h. pat = ''*'' @ d \<and> hd d \<noteq> CHR ''.'' \<and>
          (str = d \<or> str = h @ ''.'' @ d \<and> CHR ''.'' \<notin> set h)))"
proof (cases "3 \<le> length str \<and> 3 \<le> length pat")
  case False
  then show ?thesis by (auto simp: domain_match_def)
next
  case True
  then obtain a b r where pat: "pat = a # b # r" "r \<noteq> []"
    by (cases pat; cases "tl pat"; cases "tl (tl pat)") auto
  consider "a \<noteq> CHR ''*''" | "a = CHR ''*''" "b = CHR ''.''" | "a = CHR ''*''" "b \<noteq> CHR ''.''" by blast
  then show ?thesis
  proof cases
    case 1
    with True pat show ?thesis by (auto simp: domain_match_def)
  next
    case 2
    with True pat show ?thesis by (simp add: domain_match_def after_component_iff)
  next
    case 3
    with True pat show ?thesis by (auto simp: domain_match_def after_component_iff)
  qed
qed

text \<open>C15: What a \<^verbatim>\<open>domain-access-list\<close> in the ConfigMap allows.  A namespace may use a domain exactly if some well-formed
  entry, not only the first, matches the domain and names the namespace or a star, or if the list has no well-formed entry at all.
  So whatever the documented first-match rule allows the code allows too; the two agree on a domain that at most one entry
  matches, provided the list has a well-formed entry.  Where several entries match, the code may allow what the documentation denies.\<close>

theorem domain_access_decision:
  assumes "hash_get (cm_data cm) ''domain-access-list'' = Some s"
  shows "(cluster_domain_for_ns (cluster_set_configmap cs (Some cm)) dname ns \<longleftrightarrow>
      access_entries s = [] \<or> (\<exists>(p, l) \<in> set (access_entries s). domain_match p dname \<and> entry_admits l ns))
    \<and> (documented_access s dname ns \<longrightarrow> cluster_domain_for_ns (cluster_set_configmap cs (Some cm)) dname ns)
    \<and> (access_entries s \<noteq> [] \<and> length (filter (\<lambda>(p, l). domain_match p dname) (access_entries s)) \<le> 1 \<longrightarrow>
        cluster_domain_for_ns (cluster_set_configmap cs (Some cm)) dname ns = documented_access s dname ns)"
proof -
  let ?m = "filter (\<lambda>(p, l). domain_match p dname) (access_entries s)"
  note code = cc_domains_access_entries [OF assms, of cs dname ns]
  have any: "(\<exists>(p, l) \<in> set (access_entries s). domain_match p dname \<and> entry_admits l ns) \<longleftrightarrow> (\<exists>(p, l) \<in> set ?m. entry_admits l ns)"
    by auto
  have "documented_access s dname ns \<longrightarrow> (\<exists>(p, l) \<in> set ?m. entry_admits l ns)"
    by (cases ?m) (auto simp: documented_access_def)
  moreover have "(\<exists>(p, l) \<in> set ?m. entry_admits l ns) = documented_access s dname ns" if "length ?m \<le> 1"
    using that by (cases ?m) (auto simp: documented_access_def)
  ultimately show ?thesis using code any by blast
qed

theorem domain_access_decision_witness:
  "let cm = \<lparr>cm_name = ''c'', cm_namespace = ''kube-system'',
             cm_data = hash_set (hash_new 127 True) ''domain-access-list'' ''*.acme.com:acme,ops *:dev''\<rparr>
   in cluster_domain_for_ns (cluster_set_configmap cluster_make (Some cm)) ''www.acme.com'' ''ops''
    \<and> \<not> cluster_domain_for_ns (cluster_set_configmap cluster_make (Some cm)) ''www.acme.com'' ''evil''
    \<and> cluster_domain_for_ns (cluster_set_configmap cluster_make (Some cm)) ''www.acme.com'' ''dev''
    \<and> \<not> documented_access ''*.acme.com:acme,ops *:dev'' ''www.acme.com'' ''dev''"
proof -
  let ?cm = "\<lparr>cm_name = ''c'', cm_namespace = ''kube-system'',
             cm_data = hash_set (hash_new 127 True) ''domain-access-list'' ''*.acme.com:acme,ops *:dev''\<rparr>"
  have h: "hash_get (cm_data ?cm) ''domain-access-list'' = Some ''*.acme.com:acme,ops *:dev''" by simp
  have E: "access_entries ''*.acme.com:acme,ops *:dev'' = [(''*.acme.com'', ''acme,ops''), (''*'', ''dev'')]"
    by (simp add: access_entries_def access_entry_def domain_entries_def map_filter_simps)
  have D: "domain_match ''*.acme.com'' ''www.acme.com''" by (simp add: domain_match_def)
  have "cluster_domain_for_ns (cluster_set_configmap cluster_make (Some ?cm)) ''www.acme.com'' ns
      \<longleftrightarrow> ns \<in> {''acme'', ''ops'', ''dev''}" for ns
    using domain_access_decision [OF h, of cluster_make "''www.acme.com''" ns] unfolding E by (simp add: D entry_admits_def)
  moreover have "\<not> documented_access ''*.acme.com:acme,ops *:dev'' ''www.acme.com'' ''dev''"
    by (simp add: documented_access_def E D entry_admits_def)
  ultimately show ?thesis by (simp add: Let_def)
qed

text \<open>The access list is not first-match.  \<^verbatim>\<open>docs/domainaccess.md\<close> says that the first entry matching a
  host decides, and recommends to end the list with \<open>*:*\<close> to leave unlisted domains open.  The code
  goes on to later entries, so a list with an entry \<open>*:*\<close> protects no domain at all: every namespace
  may use every domain, whatever the entries before it say.\<close>

theorem domain_access_catch_all_opens_everything:
  assumes "hash_get (cm_data cm) ''domain-access-list'' = Some s"
    and "''*:*'' \<in> set (domain_entries s)"
  shows "cluster_domain_for_ns (cluster_set_configmap cs (Some cm)) dname ns"
proof -
  have "access_entry ''*:*'' = Some (''*'', ''*'')" by (simp add: access_entry_def)
  with assms(2) have "(''*'', ''*'') \<in> set (access_entries s)"
    by (force simp: access_entries_def List.map_filter_def)
  then show ?thesis unfolding cc_domains_access_entries [OF assms(1)] by (force simp: entry_admits_def)
qed

theorem domain_access_catch_all_opens_everything_witness:
  "cluster_domain_for_ns (cluster_set_configmap cluster_make (Some
     \<lparr>cm_name = ''c'', cm_namespace = ''n'',
      cm_data = hash_set (hash_new 127 True) ''domain-access-list'' ''*fooapp.com:fooapp-prod *:*''\<rparr>))
     ''fooapp.com'' ''attacker''"
  by (rule domain_access_catch_all_opens_everything [where s = "''*fooapp.com:fooapp-prod *:*''"])
    (simp_all add: domain_entries_def)

text \<open>A default certificate for several domains is not honoured.  An entry \<open>a,b:ns/name\<close> of
  \<^verbatim>\<open>tls-certificates\<close>, which the comment and \<^verbatim>\<open>docs/tls.md\<close> document as a certificate for both domains, is
  cut at the comma first: only \<open>b\<close> gets the certificate.\<close>

theorem tls_certificates_drop_domains:
  assumes "set (a @ b @ ns @ name) \<inter> {CHR '' '', CHR 0x09, CHR '','', CHR '':'', CHR ''/''} = {}"
  shows "cc_certs (cluster_config_add_certs cc (a @ '','' @ b @ '':'' @ ns @ ''/'' @ name)) =
    cc_certs cc @ [\<lparr>cr_domain = b, cr_namespace = ns, cr_name = name\<rparr>]"
proof -
  have "strsep_all ('' '' @ [CHR 0x09] @ '','') (a @ '','' @ b @ '':'' @ ns @ ''/'' @ name)
      = [a, b @ '':'' @ ns @ ''/'' @ name]"
    using assms strsep_all_append [of a "'' '' @ [CHR 0x09] @ '',''" "CHR '',''"]
    by (auto simp: strsep_all_single)
  moreover have "parse_cert_entry a = []"
    using assms by (auto simp: parse_cert_entry_def split: option.splits dest!: strchr_SomeD nth_mem)
  moreover have "parse_cert_entry (b @ '':'' @ ns @ ''/'' @ name)
      = [\<lparr>cr_domain = b, cr_namespace = ns, cr_name = name\<rparr>]"
    using assms by (auto simp: parse_cert_entry_def strsep_all_single)
  ultimately show ?thesis by (simp add: cluster_config_add_certs_def)
qed

theorem tls_certificates_drop_domains_witness:
  "cc_certs (cluster_config_add_certs cluster_config_new ''a.com,b.com:default/cert'') =
    [\<lparr>cr_domain = ''b.com'', cr_namespace = ''default'', cr_name = ''cert''\<rparr>]"
  using tls_certificates_drop_domains [of "''a.com''" "''b.com''" "''default''" "''cert''" cluster_config_new]
  by (simp add: cluster_config_new_def)

text \<open>The check of \<^verbatim>\<open>healthcheck-path\<close> reads the default instead of the new value, so every value is
  accepted, also one that does not start with a slash, and also the empty one.\<close>

theorem healthcheck_path_unchecked:
  assumes "hash_get (cm_data cm) ''healthcheck-path'' = Some s"
  shows "cc_healthcheck (cs_config (cluster_set_configmap cs (Some cm))) = s"
  using assms by (simp add: cluster_set_configmap_def parse_configmap_healthcheck)

theorem healthcheck_path_unchecked_witness:
  "cc_healthcheck (cs_config (cluster_set_configmap cluster_make
     (Some \<lparr>cm_name = ''c'', cm_namespace = ''n'',
            cm_data = hash_set (hash_new 127 True) ''healthcheck-path'' []\<rparr>))) = []"
  by (rule healthcheck_path_unchecked) simp

end
