(* ===== verification/Config.thy ===== *)
theory Config
  imports Hash
begin

text \<open>
  The plugin configuration of \<^verbatim>\<open>tsapi/config.h\<close> and \<^verbatim>\<open>tsapi/config.c\<close>: the parser of the
  configuration file and the overlay of the in-cluster service account and of the environment.
  The file system and the environment are arguments: \<open>readfile\<close> gives the contents of a file that
  can be opened, \<open>exists\<close> says whether \<^verbatim>\<open>stat\<close> succeeds, \<open>getenv\<close> reads a variable and \<open>dir\<close> is what
  \<^verbatim>\<open>TSConfigDirGet\<close> returns.
\<close>

record k8s_config_t =
  co_server :: "string option"
  co_tls_certfile :: "string option"
  co_tls_keyfile :: "string option"
  co_tls_cafile :: "string option"
  co_tls_verify :: bool
  co_token :: "string option"
  co_tls :: bool
  co_remap :: bool
  co_classes :: "unit hash"
  co_xfp :: bool
  co_configmap_namespace :: "string option"
  co_configmap_name :: "string option"

definition SA_TOKEN_FILE :: string where
  "SA_TOKEN_FILE = ''/var/run/secrets/kubernetes.io/serviceaccount/token''"

definition SA_CACERT_FILE :: string where
  "SA_CACERT_FILE = ''/var/run/secrets/kubernetes.io/serviceaccount/ca.crt''"

definition EOL :: string where "EOL = [CHR 0x0D, CHR 0x0A]"

definition cfg_set_ingress_classes :: "k8s_config_t \<Rightarrow> string \<Rightarrow> k8s_config_t" where
  "cfg_set_ingress_classes cfg classes =
     cfg\<lparr>co_classes := fold (\<lambda>p h. hash_set h p ())
       (strtok_all ('' '' @ [CHR 0x09, CHR 0x0D, CHR 0x0A]) classes) (hash_new 11 False)\<rparr>"

definition k8s_config_new :: k8s_config_t where
  "k8s_config_new = cfg_set_ingress_classes
     \<lparr>co_server = None, co_tls_certfile = None, co_tls_keyfile = None, co_tls_cafile = None,
      co_tls_verify = True, co_token = None, co_tls = True, co_remap = True,
      co_classes = hash_new 11 False, co_xfp = True,
      co_configmap_namespace = None, co_configmap_name = None\<rparr> ''trafficserver''"

text \<open>
  \<^verbatim>\<open>fgets\<close> with a buffer of \<open>Suc n\<close> bytes: at most \<open>n\<close> characters, up to and including a newline.
  \<open>fgets_all\<close> is the sequence of buffers of a read loop.
\<close>

fun fgets :: "nat \<Rightarrow> string \<Rightarrow> string \<times> string" where
  "fgets 0 s = ([], s)"
| "fgets (Suc n) [] = ([], [])"
| "fgets (Suc n) (c # s) =
     (if c = CHR 0x0A then ([c], s) else (let (l, r) = fgets n s in (c # l, r)))"

lemma fgets_split: "fgets n s = (l, r) \<Longrightarrow> s = l @ r"
  by (induction n s arbitrary: l r rule: fgets.induct) (auto split: if_splits prod.splits)

lemma fgets_progress: "0 < n \<Longrightarrow> s \<noteq> [] \<Longrightarrow> fgets n s = (l, r) \<Longrightarrow> l \<noteq> []"
  by (cases n; cases s) (auto split: if_splits prod.splits)

function fgets_all :: "nat \<Rightarrow> string \<Rightarrow> string list" where
  "fgets_all n s = (if s = [] then [] else fst (fgets (Suc n) s) # fgets_all n (snd (fgets (Suc n) s)))"
  by pat_completeness auto
termination
proof (relation "measure (\<lambda>(n, s). length s)")
  fix n and s :: string assume "s \<noteq> []"
  then show "((n, snd (fgets (Suc n) s)), n, s) \<in> measure (\<lambda>(n, s). length s)"
    using fgets_split [of "Suc n" s] fgets_progress [of "Suc n" s]
    by (cases "fgets (Suc n) s") auto
qed simp

declare fgets_all.simps [simp del]

text \<open>The loop that cuts trailing line ends off a buffer.\<close>

definition strip_eol :: "string \<Rightarrow> string" where
  "strip_eol l = rev (dropWhile (\<lambda>c. c \<in> set EOL) (rev l))"

definition cfg_bool :: "string \<Rightarrow> (bool \<Rightarrow> k8s_config_t) \<Rightarrow> k8s_config_t option" where
  "cfg_bool value upd =
     (if value = ''true'' then Some (upd True)
      else if value = ''false'' then Some (upd False) else None)"

definition cfg_configmap :: "string \<Rightarrow> k8s_config_t \<Rightarrow> k8s_config_t option" where
  "cfg_configmap value cfg =
     (case strchr value CHR ''/'' of
        None \<Rightarrow> None
      | Some n \<Rightarrow> Some (cfg\<lparr>co_configmap_namespace := Some (take n value),
                           co_configmap_name := Some (drop (Suc n) value)\<rparr>))"

definition cfg_option :: "string \<Rightarrow> string \<Rightarrow> k8s_config_t \<Rightarrow> k8s_config_t option" where
  "cfg_option name value cfg =
     (if name = ''server'' then Some (cfg\<lparr>co_server := Some value\<rparr>)
      else if name = ''token'' then Some (cfg\<lparr>co_token := Some value\<rparr>)
      else if name = ''certfile'' then Some (cfg\<lparr>co_tls_certfile := Some value\<rparr>)
      else if name = ''keyfile'' then Some (cfg\<lparr>co_tls_keyfile := Some value\<rparr>)
      else if name = ''cafile'' then Some (cfg\<lparr>co_tls_cafile := Some value\<rparr>)
      else if name = ''tls'' then cfg_bool value (\<lambda>b. cfg\<lparr>co_tls := b\<rparr>)
      else if name = ''tls_verify'' then cfg_bool value (\<lambda>b. cfg\<lparr>co_tls_verify := b\<rparr>)
      else if name = ''remap'' then cfg_bool value (\<lambda>b. cfg\<lparr>co_remap := b\<rparr>)
      else if name = ''x_forwarded_proto'' then cfg_bool value (\<lambda>b. cfg\<lparr>co_xfp := b\<rparr>)
      else if name = ''ingress_classes'' then Some (cfg_set_ingress_classes cfg value)
      else if name = ''configmap'' then cfg_configmap value cfg
      else None)"

definition cfg_line :: "string \<Rightarrow> k8s_config_t \<Rightarrow> k8s_config_t option" where
  "cfg_line line cfg =
     (let opt = dropWhile isspace (strip_eol (cstr line)) in
      if opt = [] \<or> hd opt = CHR ''#'' then Some cfg
      else (case strchr opt CHR '':'' of
              None \<Rightarrow> None
            | Some n \<Rightarrow> cfg_option (take n opt) (dropWhile isspace (drop (Suc n) opt)) cfg))"

fun cfg_lines :: "string list \<Rightarrow> k8s_config_t \<Rightarrow> k8s_config_t option" where
  "cfg_lines [] cfg = Some cfg"
| "cfg_lines (l # ls) cfg = Option.bind (cfg_line l cfg) (cfg_lines ls)"

definition cfg_load_file :: "(string \<Rightarrow> string option) \<Rightarrow> string \<Rightarrow> string \<Rightarrow> k8s_config_t \<Rightarrow> k8s_config_t option" where
  "cfg_load_file readfile dir file cfg =
     (let file = (if CHR ''/'' \<notin> set file then take 4096 (dir @ ''/'' @ file) else file) in
      case readfile file of
        None \<Rightarrow> None
      | Some text \<Rightarrow> cfg_lines (fgets_all 1022 text) cfg)"

text \<open>
  The service account token is the first line of its file.  The loop that removes the line end
  reads before the buffer when nothing is left of the line.
\<close>

definition cfg_service_account ::
  "(string \<Rightarrow> string option) \<Rightarrow> (string \<Rightarrow> string option) \<Rightarrow> k8s_config_t \<Rightarrow> k8s_config_t res" where
  "cfg_service_account readfile getenv cfg =
     (case readfile SA_TOKEN_FILE of
        None \<Rightarrow> Inr cfg
      | Some text \<Rightarrow>
          if text = [] then Inr cfg
          else (let token = strip_eol (cstr (fst (fgets 2047 text))) in
                if token = [] then Inl Out_Of_Bounds
                else Inr (case (getenv ''KUBERNETES_SERVICE_HOST'', getenv ''KUBERNETES_SERVICE_PORT'') of
                    (Some host, Some port) \<Rightarrow>
                      cfg\<lparr>co_token := Some token,
                          co_server := Some (take 255 (''https://'' @ host @ '':'' @ port))\<rparr>
                  | _ \<Rightarrow> cfg\<lparr>co_token := Some token\<rparr>)))"

text \<open>The overrides from the environment, in the order of the source: a variable and what it does.\<close>

type_synonym env_step = "string \<times> (string \<Rightarrow> k8s_config_t \<Rightarrow> k8s_config_t option)"

fun env_steps :: "(string \<Rightarrow> string option) \<Rightarrow> env_step list \<Rightarrow> k8s_config_t \<Rightarrow> k8s_config_t option" where
  "env_steps getenv [] cfg = Some cfg"
| "env_steps getenv ((var, f) # es) cfg =
     Option.bind (case getenv var of None \<Rightarrow> Some cfg | Some s \<Rightarrow> f s cfg) (env_steps getenv es)"

definition env_strings :: "env_step list" where
  "env_strings =
     [(''TS_SERVER'', \<lambda>s cfg. Some (cfg\<lparr>co_server := Some s\<rparr>)),
      (''TS_CAFILE'', \<lambda>s cfg. Some (cfg\<lparr>co_tls_cafile := Some s\<rparr>)),
      (''TS_CERTFILE'', \<lambda>s cfg. Some (cfg\<lparr>co_tls_certfile := Some s\<rparr>)),
      (''TS_KEYFILE'', \<lambda>s cfg. Some (cfg\<lparr>co_tls_keyfile := Some s\<rparr>)),
      (''TS_TOKEN'', \<lambda>s cfg. Some (cfg\<lparr>co_token := Some s\<rparr>))]"

definition env_settings :: "env_step list" where
  "env_settings =
     [(''TS_TLS'', \<lambda>s cfg. cfg_bool s (\<lambda>b. cfg\<lparr>co_tls := b\<rparr>)),
      (''TS_TLS_VERIFY'', \<lambda>s cfg. cfg_bool s (\<lambda>b. cfg\<lparr>co_tls_verify := b\<rparr>)),
      (''TS_REMAP'', \<lambda>s cfg. cfg_bool s (\<lambda>b. cfg\<lparr>co_remap := b\<rparr>)),
      (''TS_CONFIGMAP'', cfg_configmap),
      (''TS_INGRESS_CLASSES'', \<lambda>s cfg. Some (cfg_set_ingress_classes cfg s))]"

definition cfg_env :: "(string \<Rightarrow> string option) \<Rightarrow> k8s_config_t \<Rightarrow> k8s_config_t option" where
  "cfg_env getenv cfg = env_steps getenv (env_strings @ env_settings) cfg"

definition cfg_finish :: "k8s_config_t \<Rightarrow> k8s_config_t option" where
  "cfg_finish cfg =
     (let cfg = (if co_tls_keyfile cfg \<noteq> None then cfg\<lparr>co_token := None\<rparr> else cfg) in
      if co_tls_keyfile cfg \<noteq> None \<and> co_tls_certfile cfg = None then None
      else if co_tls_certfile cfg \<noteq> None \<and> co_tls_keyfile cfg = None then None
      else if co_server cfg = None then None
      else Some cfg)"

definition k8s_config_load ::
  "(string \<Rightarrow> string option) \<Rightarrow> (string \<Rightarrow> bool) \<Rightarrow> (string \<Rightarrow> string option) \<Rightarrow> string
    \<Rightarrow> string option \<Rightarrow> k8s_config_t option res" where
  "k8s_config_load readfile exists getenv dir file =
     (case (case file of None \<Rightarrow> Some k8s_config_new | Some f \<Rightarrow> cfg_load_file readfile dir f k8s_config_new) of
        None \<Rightarrow> Inr None
      | Some cfg \<Rightarrow>
          res_bind (cfg_service_account readfile getenv cfg) (\<lambda>cfg.
            let cfg = (if exists SA_CACERT_FILE then cfg\<lparr>co_tls_cafile := Some SA_CACERT_FILE\<rparr> else cfg)
            in Inr (Option.bind (cfg_env getenv cfg) cfg_finish)))"

subsection \<open>What a loaded configuration satisfies\<close>

definition cfg_ok :: "k8s_config_t \<Rightarrow> bool" where
  "cfg_ok cfg \<longleftrightarrow> hash_ok (co_classes cfg)
     \<and> (co_configmap_namespace cfg = None \<longleftrightarrow> co_configmap_name cfg = None)"

lemma cfg_classes_ok [simp]: "cfg_ok cfg \<Longrightarrow> cfg_ok (cfg_set_ingress_classes cfg s)"
  by (simp add: cfg_ok_def cfg_set_ingress_classes_def ht.ok_fold_push)

lemma cfg_classes_iff:
  "hash_get (co_classes (cfg_set_ingress_classes cfg s)) c = Some () \<longleftrightarrow>
    c \<in> set (strtok_all ('' '' @ [CHR 0x09, CHR 0x0D, CHR 0x0A]) s)"
  by (simp add: cfg_set_ingress_classes_def)

lemma k8s_config_new_ok [simp]: "cfg_ok k8s_config_new"
  unfolding k8s_config_new_def by (rule cfg_classes_ok) (simp add: cfg_ok_def)

lemma cfg_bool_ok: "cfg_bool v upd = Some cfg' \<Longrightarrow> (\<And>b. cfg_ok (upd b)) \<Longrightarrow> cfg_ok cfg'"
  by (auto simp: cfg_bool_def split: if_splits)

lemma cfg_configmap_ok: "cfg_configmap v cfg = Some cfg' \<Longrightarrow> cfg_ok cfg \<Longrightarrow> cfg_ok cfg'"
  by (auto simp: cfg_configmap_def cfg_ok_def split: option.splits)

lemma cfg_ok_update [simp]:
  "cfg_ok (cfg\<lparr>co_server := x\<rparr>) = cfg_ok cfg" "cfg_ok (cfg\<lparr>co_token := x\<rparr>) = cfg_ok cfg"
  "cfg_ok (cfg\<lparr>co_tls_certfile := x\<rparr>) = cfg_ok cfg" "cfg_ok (cfg\<lparr>co_tls_keyfile := x\<rparr>) = cfg_ok cfg"
  "cfg_ok (cfg\<lparr>co_tls_cafile := x\<rparr>) = cfg_ok cfg" "cfg_ok (cfg\<lparr>co_tls := y\<rparr>) = cfg_ok cfg"
  "cfg_ok (cfg\<lparr>co_tls_verify := y\<rparr>) = cfg_ok cfg" "cfg_ok (cfg\<lparr>co_remap := y\<rparr>) = cfg_ok cfg"
  "cfg_ok (cfg\<lparr>co_xfp := y\<rparr>) = cfg_ok cfg"
  by (simp_all add: cfg_ok_def)

lemma cfg_option_ok: "cfg_option name value cfg = Some cfg' \<Longrightarrow> cfg_ok cfg \<Longrightarrow> cfg_ok cfg'"
  unfolding cfg_option_def
  by (auto split: if_splits elim!: cfg_bool_ok cfg_configmap_ok)

lemma cfg_line_ok: "cfg_line l cfg = Some cfg' \<Longrightarrow> cfg_ok cfg \<Longrightarrow> cfg_ok cfg'"
  by (auto simp: cfg_line_def Let_def split: if_splits option.splits intro: cfg_option_ok)

lemma cfg_lines_ok: "cfg_lines ls cfg = Some cfg' \<Longrightarrow> cfg_ok cfg \<Longrightarrow> cfg_ok cfg'"
  by (induction ls arbitrary: cfg) (auto simp: Option.bind_eq_Some_conv intro: cfg_line_ok)

lemma cfg_load_file_ok: "cfg_load_file rf dir f cfg = Some cfg' \<Longrightarrow> cfg_ok cfg \<Longrightarrow> cfg_ok cfg'"
  unfolding cfg_load_file_def Let_def by (auto split: option.splits intro: cfg_lines_ok)

lemma cfg_service_account_ok: "cfg_service_account rf ge cfg = Inr cfg' \<Longrightarrow> cfg_ok cfg \<Longrightarrow> cfg_ok cfg'"
  by (auto simp: cfg_service_account_def cfg_ok_def Let_def split: option.splits if_splits)

lemma env_steps_invariant:
  assumes "env_steps ge es cfg = Some cfg'" and "P cfg"
    and "\<And>v f s c c'. (v, f) \<in> set es \<Longrightarrow> f s c = Some c' \<Longrightarrow> P c \<Longrightarrow> P c'"
  shows "P cfg'"
  using assms
proof (induction es arbitrary: cfg)
  case (Cons e es)
  obtain v f where e: "e = (v, f)" by (cases e)
  from Cons.prems(1) obtain c1 where c1: "(case ge v of None \<Rightarrow> Some cfg | Some s \<Rightarrow> f s cfg) = Some c1"
    "env_steps ge es c1 = Some cfg'" by (auto simp: e Option.bind_eq_Some_conv)
  have "P c1"
    using c1(1) Cons.prems(2) Cons.prems(3) [of v f] by (auto simp: e split: option.splits)
  with c1(2) Cons.IH [of c1] Cons.prems(3) show ?case by (meson list.set_intros(2))
qed simp

lemma env_steps_append: "env_steps ge (as @ bs) cfg = Option.bind (env_steps ge as cfg) (env_steps ge bs)"
  by (induction as arbitrary: cfg) (auto simp: bind_assoc intro!: Option.bind_cong)

lemma cfg_env_ok: "cfg_env ge cfg = Some cfg' \<Longrightarrow> cfg_ok cfg \<Longrightarrow> cfg_ok cfg'"
  unfolding cfg_env_def
  by (erule env_steps_invariant [where P = cfg_ok])
    (auto simp: env_strings_def env_settings_def elim: cfg_bool_ok cfg_configmap_ok)

text \<open>The settings that are not strings touch none of the credentials.\<close>

lemma env_settings_keep:
  assumes "env_steps ge env_settings cfg = Some cfg'"
  shows "(co_server cfg', co_tls_certfile cfg', co_tls_keyfile cfg', co_tls_cafile cfg', co_token cfg')
    = (co_server cfg, co_tls_certfile cfg, co_tls_keyfile cfg, co_tls_cafile cfg, co_token cfg)"
  using assms
  by (rule env_steps_invariant [where P = "\<lambda>c. (co_server c, co_tls_certfile c, co_tls_keyfile c, co_tls_cafile c, co_token c)
      = (co_server cfg, co_tls_certfile cfg, co_tls_keyfile cfg, co_tls_cafile cfg, co_token cfg)"])
    (auto simp: env_settings_def cfg_bool_def cfg_configmap_def cfg_set_ingress_classes_def
      split: if_splits option.splits)

definition env_or :: "(string \<Rightarrow> string option) \<Rightarrow> string \<Rightarrow> string option \<Rightarrow> string option" where
  "env_or ge v x = (case ge v of None \<Rightarrow> x | Some s \<Rightarrow> Some s)"

lemma cfg_env_strings:
  assumes "cfg_env ge cfg = Some cfg'"
  shows "co_server cfg' = env_or ge ''TS_SERVER'' (co_server cfg)"
    "co_tls_certfile cfg' = env_or ge ''TS_CERTFILE'' (co_tls_certfile cfg)"
    "co_tls_keyfile cfg' = env_or ge ''TS_KEYFILE'' (co_tls_keyfile cfg)"
    "co_tls_cafile cfg' = env_or ge ''TS_CAFILE'' (co_tls_cafile cfg)"
    "co_token cfg' = env_or ge ''TS_TOKEN'' (co_token cfg)"
proof -
  from assms obtain c1 where c1: "env_steps ge env_strings cfg = Some c1" "env_steps ge env_settings c1 = Some cfg'"
    by (auto simp: cfg_env_def env_steps_append Option.bind_eq_Some_conv)
  have "(co_server c1, co_tls_certfile c1, co_tls_keyfile c1, co_tls_cafile c1, co_token c1)
      = (env_or ge ''TS_SERVER'' (co_server cfg), env_or ge ''TS_CERTFILE'' (co_tls_certfile cfg),
         env_or ge ''TS_KEYFILE'' (co_tls_keyfile cfg), env_or ge ''TS_CAFILE'' (co_tls_cafile cfg),
         env_or ge ''TS_TOKEN'' (co_token cfg))"
    using c1(1) by (auto simp: env_strings_def env_or_def split: option.splits)
  with env_settings_keep [OF c1(2)]
  show "co_server cfg' = env_or ge ''TS_SERVER'' (co_server cfg)"
    "co_tls_certfile cfg' = env_or ge ''TS_CERTFILE'' (co_tls_certfile cfg)"
    "co_tls_keyfile cfg' = env_or ge ''TS_KEYFILE'' (co_tls_keyfile cfg)"
    "co_tls_cafile cfg' = env_or ge ''TS_CAFILE'' (co_tls_cafile cfg)"
    "co_token cfg' = env_or ge ''TS_TOKEN'' (co_token cfg)" by simp_all
qed

lemma k8s_config_load_Some:
  assumes "k8s_config_load rf ex ge dir file = Inr (Some cfg)"
  obtains c1 c2 where "cfg_ok c1" "cfg_env ge c1 = Some c2" "cfg_finish c2 = Some cfg"
proof -
  from assms obtain c0 c1 where c0: "(case file of None \<Rightarrow> Some k8s_config_new
      | Some f \<Rightarrow> cfg_load_file rf dir f k8s_config_new) = Some c0"
    and c1: "cfg_service_account rf ge c0 = Inr c1"
    and fin: "Option.bind (cfg_env ge (if ex SA_CACERT_FILE then c1\<lparr>co_tls_cafile := Some SA_CACERT_FILE\<rparr> else c1))
      cfg_finish = Some cfg"
    by (auto simp: k8s_config_load_def Let_def split: option.splits)
  have "cfg_ok c0" using c0 by (auto split: option.splits intro: cfg_load_file_ok)
  then have "cfg_ok c1" using c1 by (rule cfg_service_account_ok [rotated])
  then have "cfg_ok (if ex SA_CACERT_FILE then c1\<lparr>co_tls_cafile := Some SA_CACERT_FILE\<rparr> else c1)" by simp
  with fin that show thesis unfolding Option.bind_eq_Some_conv by blast
qed

subsection \<open>Properties\<close>

text \<open>C31: A configuration that loads is usable.  Whatever the file, the service account and the
  environment say, a loaded configuration names a server, has a client certificate exactly if it
  has a key, uses no token when it uses a client key, has both parts of the ConfigMap name or none,
  and has a well-formed class table.\<close>

theorem config_load_valid:
  assumes "k8s_config_load readfile exists getenv dir file = Inr (Some cfg)"
  shows "co_server cfg \<noteq> None
    \<and> (co_tls_certfile cfg = None \<longleftrightarrow> co_tls_keyfile cfg = None)
    \<and> (co_tls_keyfile cfg = None \<or> co_token cfg = None)
    \<and> (co_configmap_namespace cfg = None \<longleftrightarrow> co_configmap_name cfg = None)
    \<and> hash_ok (co_classes cfg)"
proof -
  from assms obtain c1 c2 where c: "cfg_ok c1" "cfg_env getenv c1 = Some c2" "cfg_finish c2 = Some cfg"
    by (rule k8s_config_load_Some)
  have ok: "cfg_ok c2" using c(1,2) by (rule cfg_env_ok [rotated])
  from c(3) have fin: "cfg = (if co_tls_keyfile c2 \<noteq> None then c2\<lparr>co_token := None\<rparr> else c2)"
    "co_server cfg \<noteq> None" "co_tls_keyfile cfg = None \<longleftrightarrow> co_tls_certfile cfg = None"
    by (auto simp: cfg_finish_def Let_def split: if_splits)
  from ok fin(1) have "cfg_ok cfg" by simp
  with fin show ?thesis by (auto simp: cfg_ok_def)
qed

theorem config_load_valid_witness:
  "let load = k8s_config_load (\<lambda>f. if f = ''/ts/k.config'' then Some (''server: http://k'' @ [CHR 0x0A]) else None)
       (\<lambda>_. False) (\<lambda>_. None) ''/ts'' (Some ''k.config'')
   in \<exists>cfg. load = Inr (Some cfg) \<and> co_server cfg = Some ''http://k'' \<and> hash_ok (co_classes cfg)"
proof -
  let ?rf = "\<lambda>f. if f = ''/ts/k.config'' then Some (''server: http://k'' @ [CHR 0x0A]) else None"
  have load: "k8s_config_load ?rf (\<lambda>_. False) (\<lambda>_. None) ''/ts'' (Some ''k.config'')
      = Inr (Some (k8s_config_new\<lparr>co_server := Some ''http://k''\<rparr>))"
    by (simp add: k8s_config_load_def cfg_load_file_def fgets_all.simps eval_nat_numeral cfg_line_def Let_def
        strip_eol_def EOL_def cfg_option_def cfg_service_account_def SA_TOKEN_FILE_def cfg_env_def
        env_strings_def env_settings_def cfg_finish_def k8s_config_new_def cfg_set_ingress_classes_def
        cstr_def NUL_def isspace_def)
  show ?thesis using load config_load_valid [OF load] by (simp add: Let_def)
qed

text \<open>The environment overrides the configuration file and the service account: if a variable is
  set, its value is in the loaded configuration (a token only when no client key is configured).\<close>

theorem config_environment_wins:
  assumes "k8s_config_load readfile exists getenv dir file = Inr (Some cfg)"
  shows "(getenv ''TS_SERVER'' = Some s \<longrightarrow> co_server cfg = Some s)
    \<and> (getenv ''TS_CERTFILE'' = Some s \<longrightarrow> co_tls_certfile cfg = Some s)
    \<and> (getenv ''TS_KEYFILE'' = Some s \<longrightarrow> co_tls_keyfile cfg = Some s)
    \<and> (getenv ''TS_CAFILE'' = Some s \<longrightarrow> co_tls_cafile cfg = Some s)
    \<and> (getenv ''TS_TOKEN'' = Some s \<longrightarrow> co_token cfg = (if co_tls_keyfile cfg = None then Some s else None))"
proof -
  from assms obtain c1 c2 where c: "cfg_ok c1" "cfg_env getenv c1 = Some c2" "cfg_finish c2 = Some cfg"
    by (rule k8s_config_load_Some)
  from c(3) have "cfg = (if co_tls_keyfile c2 \<noteq> None then c2\<lparr>co_token := None\<rparr> else c2)"
    by (auto simp: cfg_finish_def Let_def split: if_splits)
  with cfg_env_strings [OF c(2)] show ?thesis by (simp add: env_or_def)
qed

theorem config_environment_wins_witness:
  "let load = k8s_config_load (\<lambda>_. None) (\<lambda>_. False) (\<lambda>v. if v = ''TS_SERVER'' then Some ''http://k'' else None) ''/ts'' None
   in \<exists>cfg. load = Inr (Some cfg) \<and> co_server cfg = Some ''http://k''"
proof -
  let ?ge = "\<lambda>v. if v = ''TS_SERVER'' then Some ''http://k'' else None"
  have load: "k8s_config_load (\<lambda>_. None) (\<lambda>_. False) ?ge ''/ts'' None
      = Inr (Some (k8s_config_new\<lparr>co_server := Some ''http://k''\<rparr>))"
    by (simp add: k8s_config_load_def cfg_service_account_def cfg_env_def
        env_strings_def env_settings_def cfg_finish_def k8s_config_new_def cfg_set_ingress_classes_def)
  show ?thesis
    using load config_environment_wins [OF load, of "''http://k''"] by (simp add: Let_def)
qed

end
