(* ===== verification/Remap_Path.thy ===== *)
theory Remap_Path
  imports Api Base64
begin

text \<open>
  The paths of the remap database: the types of \<^verbatim>\<open>remap/remap.h\<close> that describe a path and its
  backends, and \<^verbatim>\<open>remap/remap_path.c\<close>, which builds a path and configures it from the annotations of an
  Ingress.  A compiled regular expression is represented by the pattern it was compiled from;
  \<open>regcomp\<close> (does a pattern compile) and \<open>inet_pton4\<close>, \<open>inet_pton6\<close> (the bytes of an address in network
  order) are arguments.
\<close>

unbundle bit_operations_syntax

subsection \<open>Types\<close>

datatype remap_auth = REMAP_AUTH_NONE | REMAP_AUTH_BASIC | REMAP_AUTH_DIGEST

datatype remap_satisfy = REMAP_SATISFY_ALL | REMAP_SATISFY_ANY

text \<open>An address with its family; an IPv4 address is the 32-bit value in network byte order.\<close>

datatype inet_addr = Ra_v4 "32 word" | Ra_v6 "byte list"

record remap_auth_addr =
  ra_addr :: inet_addr
  ra_prefix_length :: int

record remap_target_t =
  rt_host :: string
  rt_port :: int

record remap_path_t =
  rp_regex :: "string option"
  rp_addrs :: "remap_target_t list"
  rp_users :: "string hash option"
  rp_cache :: bool
  rp_cache_gen :: int
  rp_ignore_params :: "unit hash option"
  rp_whitelist_params :: "unit hash option"
  rp_ignore_cookies :: "unit hash option"
  rp_whitelist_cookies :: "unit hash option"
  rp_follow_redirects :: bool
  rp_secure_backends :: bool
  rp_no_ssl_redirect :: bool
  rp_force_ssl_redirect :: bool
  rp_preserve_host :: bool
  rp_app_root :: "string option"
  rp_rewrite_target :: "string option"
  rp_read_timeout :: int
  rp_compress :: bool
  rp_server_push :: bool
  rp_debug_log :: bool
  rp_compress_types :: "unit hash"
  rp_auth_type :: remap_auth
  rp_auth_satisfy :: remap_satisfy
  rp_auth_realm :: "string option"
  rp_enable_cors :: bool
  rp_cors_creds :: bool
  rp_cors_origins :: "unit hash"
  rp_cors_methods :: "string option"
  rp_cors_headers :: "string option"
  rp_cors_max_age :: int
  rp_auth_addr_list :: "remap_auth_addr list"

subsection \<open>Annotation names\<close>

abbreviation (input) IN_SECURE_BACKENDS :: string where "IN_SECURE_BACKENDS \<equiv> ''ingress.kubernetes.io/secure-backends''"
abbreviation (input) IN_SSL_REDIRECT :: string where "IN_SSL_REDIRECT \<equiv> ''ingress.kubernetes.io/ssl-redirect''"
abbreviation (input) IN_FORCE_SSL_REDIRECT :: string where "IN_FORCE_SSL_REDIRECT \<equiv> ''ingress.kubernetes.io/force-ssl-redirect''"
abbreviation (input) IN_SSL_PASSTHROUGH :: string where "IN_SSL_PASSTHROUGH \<equiv> ''ingress.kubernetes.io/ssl-passthrough''"
abbreviation (input) IN_TLS_MINIMUM_VERSION :: string where "IN_TLS_MINIMUM_VERSION \<equiv> ''ingress.kubernetes.io/tls-minimum-version''"
abbreviation (input) IN_APP_ROOT :: string where "IN_APP_ROOT \<equiv> ''ingress.kubernetes.io/app-root''"
abbreviation (input) IN_REWRITE_TARGET :: string where "IN_REWRITE_TARGET \<equiv> ''ingress.kubernetes.io/rewrite-target''"
abbreviation (input) IN_AUTH_TYPE :: string where "IN_AUTH_TYPE \<equiv> ''ingress.kubernetes.io/auth-type''"
abbreviation (input) IN_AUTH_REALM :: string where "IN_AUTH_REALM \<equiv> ''ingress.kubernetes.io/auth-realm''"
abbreviation (input) IN_AUTH_SECRET :: string where "IN_AUTH_SECRET \<equiv> ''ingress.kubernetes.io/auth-secret''"
abbreviation (input) IN_AUTH_SATISFY :: string where "IN_AUTH_SATISFY \<equiv> ''ingress.kubernetes.io/auth-satisfy''"
abbreviation (input) IN_WHITELIST_SOURCE_RANGE :: string where "IN_WHITELIST_SOURCE_RANGE \<equiv> ''ingress.kubernetes.io/whitelist-source-range''"
abbreviation (input) IN_CACHE_ENABLE :: string where "IN_CACHE_ENABLE \<equiv> ''ingress.kubernetes.io/cache-enable''"
abbreviation (input) IN_CACHE_GENERATION :: string where "IN_CACHE_GENERATION \<equiv> ''ingress.kubernetes.io/cache-generation''"
abbreviation (input) IN_CACHE_IGNORE_PARAMS :: string where "IN_CACHE_IGNORE_PARAMS \<equiv> ''ingress.kubernetes.io/cache-ignore-query-params''"
abbreviation (input) IN_CACHE_WHITELIST_PARAMS :: string where "IN_CACHE_WHITELIST_PARAMS \<equiv> ''ingress.kubernetes.io/cache-whitelist-query-params''"
abbreviation (input) IN_CACHE_IGNORE_COOKIES :: string where "IN_CACHE_IGNORE_COOKIES \<equiv> ''ingress.kubernetes.io/cache-ignore-cookies''"
abbreviation (input) IN_CACHE_WHITELIST_COOKIES :: string where "IN_CACHE_WHITELIST_COOKIES \<equiv> ''ingress.kubernetes.io/cache-whitelist-cookies''"
abbreviation (input) IN_HSTS_INCLUDE_SUBDOMAINS :: string where "IN_HSTS_INCLUDE_SUBDOMAINS \<equiv> ''ingress.kubernetes.io/hsts-include-subdomains''"
abbreviation (input) IN_HSTS_MAX_AGE :: string where "IN_HSTS_MAX_AGE \<equiv> ''ingress.kubernetes.io/hsts-max-age''"
abbreviation (input) IN_FOLLOW_REDIRECTS :: string where "IN_FOLLOW_REDIRECTS \<equiv> ''ingress.kubernetes.io/follow-redirects''"
abbreviation (input) IN_PRESERVE_HOST :: string where "IN_PRESERVE_HOST \<equiv> ''ingress.kubernetes.io/preserve-host''"
abbreviation (input) IN_READ_RESPONSE_TIMEOUT :: string where "IN_READ_RESPONSE_TIMEOUT \<equiv> ''ingress.kubernetes.io/read-response-timeout''"
abbreviation (input) IN_CLASS :: string where "IN_CLASS \<equiv> ''kubernetes.io/ingress.class''"
abbreviation (input) IN_ENABLE_CORS :: string where "IN_ENABLE_CORS \<equiv> ''ingress.kubernetes.io/enable-cors''"
abbreviation (input) IN_CORS_ORIGINS :: string where "IN_CORS_ORIGINS \<equiv> ''ingress.kubernetes.io/cors-origins''"
abbreviation (input) IN_CORS_MAX_AGE :: string where "IN_CORS_MAX_AGE \<equiv> ''ingress.kubernetes.io/cors-max-age''"
abbreviation (input) IN_CORS_CREDENTIALS :: string where "IN_CORS_CREDENTIALS \<equiv> ''ingress.kubernetes.io/cors-credentials''"
abbreviation (input) IN_CORS_HEADERS :: string where "IN_CORS_HEADERS \<equiv> ''ingress.kubernetes.io/cors-headers''"
abbreviation (input) IN_CORS_METHODS :: string where "IN_CORS_METHODS \<equiv> ''ingress.kubernetes.io/cors-methods''"
abbreviation (input) IN_COMPRESS_ENABLE :: string where "IN_COMPRESS_ENABLE \<equiv> ''ingress.kubernetes.io/compress-enable''"
abbreviation (input) IN_COMPRESS_TYPES :: string where "IN_COMPRESS_TYPES \<equiv> ''ingress.kubernetes.io/compress-types''"
abbreviation (input) IN_SERVER_PUSH :: string where "IN_SERVER_PUSH \<equiv> ''ingress.kubernetes.io/server-push''"
abbreviation (input) IN_HTTP2_ENABLE :: string where "IN_HTTP2_ENABLE \<equiv> ''ingress.kubernetes.io/http2-enable''"
abbreviation (input) IN_DEBUG_LOG :: string where "IN_DEBUG_LOG \<equiv> ''ingress.torchbox.com/debug-log''"

subsection \<open>Creating a path\<close>

definition token_set :: "nat \<Rightarrow> string list \<Rightarrow> unit hash" where
  "token_set sz ts = fold (\<lambda>r h. hash_set h r ()) ts (hash_new sz False)"

definition default_compress_types :: "string list" where
  "default_compress_types =
     [''application/atom+xml'', ''application/javascript'', ''aplication/x-javascript'',
      ''application/json'', ''application/rss+xml'', ''application/vnd.ms-fontobject'',
      ''application/x-font-ttf'', ''application/x-web-app-manifest+json'', ''application/xml'',
      ''font/opentype'', ''image/svg+xml'', ''image/x-icon'', ''text/css'', ''text/plain'',
      ''text/x-component'']"

definition remap_path_default :: remap_path_t where
  "remap_path_default =
     \<lparr>rp_regex = None, rp_addrs = [], rp_users = None, rp_cache = True, rp_cache_gen = 0,
      rp_ignore_params = None, rp_whitelist_params = None,
      rp_ignore_cookies = Some (hash_new 127 False), rp_whitelist_cookies = None,
      rp_follow_redirects = False, rp_secure_backends = False, rp_no_ssl_redirect = False,
      rp_force_ssl_redirect = False, rp_preserve_host = True, rp_app_root = None,
      rp_rewrite_target = None, rp_read_timeout = 0, rp_compress = True, rp_server_push = True,
      rp_debug_log = False, rp_compress_types = token_set 127 default_compress_types,
      rp_auth_type = REMAP_AUTH_NONE, rp_auth_satisfy = REMAP_SATISFY_ALL, rp_auth_realm = None,
      rp_enable_cors = False, rp_cors_creds = False,
      rp_cors_origins = hash_set (hash_new 127 False) ''*'' (), rp_cors_methods = None,
      rp_cors_headers = None, rp_cors_max_age = 0, rp_auth_addr_list = []\<rparr>"

definition remap_path_new :: "(string \<Rightarrow> bool) \<Rightarrow> string option \<Rightarrow> remap_path_t option" where
  "remap_path_new regcomp path =
     (case path of
        None \<Rightarrow> Some remap_path_default
      | Some p \<Rightarrow>
          if take 1 p \<noteq> ''/'' then None
          else (let pregex = CHR ''^'' # drop 1 p in
                if regcomp pregex then Some (remap_path_default\<lparr>rp_regex := Some pregex\<rparr>) else None))"

definition remap_path_add_address :: "remap_path_t \<Rightarrow> string \<Rightarrow> int \<Rightarrow> remap_path_t" where
  "remap_path_add_address rp host port =
     rp\<lparr>rp_addrs := rp_addrs rp @ [\<lparr>rt_host = host, rt_port = port\<rparr>]\<rparr>"

subsection \<open>The address whitelist\<close>

text \<open>The value stored for four bytes of an address, on a little-endian machine.\<close>

definition le32 :: "byte list \<Rightarrow> 32 word" where
  "le32 bs = ucast (bs ! 0) OR push_bit 8 (ucast (bs ! 1)) OR
     push_bit 16 (ucast (bs ! 2)) OR push_bit 24 (ucast (bs ! 3))"

definition parse_auth_addr ::
  "(string \<Rightarrow> byte list option) \<Rightarrow> (string \<Rightarrow> byte list option) \<Rightarrow> string \<Rightarrow> remap_auth_addr option" where
  "parse_auth_addr inet_pton4 inet_pton6 saddr =
     (let (host, pfx) = (case strchr saddr CHR ''/'' of
                           None \<Rightarrow> (saddr, None)
                         | Some n \<Rightarrow> (take n saddr, Some (atoi (drop (Suc n) saddr))))
      in case inet_pton6 host of
           Some bs \<Rightarrow> Some \<lparr>ra_addr = Ra_v6 bs, ra_prefix_length = (case pfx of None \<Rightarrow> 128 | Some l \<Rightarrow> l)\<rparr>
         | None \<Rightarrow>
             (case inet_pton4 host of
                Some bs \<Rightarrow> Some \<lparr>ra_addr = Ra_v4 (le32 bs), ra_prefix_length = (case pfx of None \<Rightarrow> 32 | Some l \<Rightarrow> l)\<rparr>
              | None \<Rightarrow> None))"

definition remap_path_get_addresses ::
  "(string \<Rightarrow> byte list option) \<Rightarrow> (string \<Rightarrow> byte list option) \<Rightarrow> string \<Rightarrow> remap_auth_addr list" where
  "remap_path_get_addresses inet_pton4 inet_pton6 str =
     fold (\<lambda>saddr list. case parse_auth_addr inet_pton4 inet_pton6 saddr of None \<Rightarrow> list | Some entry \<Rightarrow> entry # list)
       (strtok_all '','' str) []"

subsection \<open>The user database\<close>

text \<open>
  The loop that removes line ends from a password looks at the byte before the end of the string.
  \<open>before\<close> is the byte in front of the password, which the loop reads and overwrites when the
  password is empty; \<^verbatim>\<open>strchr("\r\n", c)\<close> also finds the terminating NUL.
\<close>

partial_function (option) trim_eol :: "char \<Rightarrow> string \<Rightarrow> string option" where
  "trim_eol before p =
     (let c = (if p = [] then before else last p) in
      if c \<in> {CHR 0x0D, CHR 0x0A, NUL}
      then (if p = [] then trim_eol NUL [] else trim_eol before (butlast p))
      else Some p)"

definition add_user_entry :: "string \<Rightarrow> string hash \<Rightarrow> string hash res" where
  "add_user_entry entry users =
     (case strchr entry CHR '':'' of
        None \<Rightarrow> Inr users
      | Some n \<Rightarrow>
          (let password = drop (Suc n) entry;
               password = (case strchr password CHR '':'' of None \<Rightarrow> password | Some m \<Rightarrow> take m password)
           in case trim_eol NUL password of
                None \<Rightarrow> Inl Diverges
              | Some pw \<Rightarrow> Inr (hash_set users (take n entry) pw)))"

definition remap_path_add_users :: "string hash \<Rightarrow> secret_t \<Rightarrow> string hash res" where
  "remap_path_add_users users secret =
     (case hash_get (se_data secret) ''auth'' of
        None \<Rightarrow> Inr users
      | Some authdata \<Rightarrow>
          (case base64_decode authdata of
             None \<Rightarrow> Inr users
           | Some bs \<Rightarrow>
               res_fold add_user_entry (strsep_all [CHR 0x0D, CHR 0x0A] (cstr (map char_of_byte bs))) users))"

subsection \<open>Annotations\<close>

definition BLANK :: string where "BLANK = [CHR '' '', CHR 0x09]"

definition annotate_one ::
  "(string \<Rightarrow> byte list option) \<Rightarrow> (string \<Rightarrow> byte list option) \<Rightarrow> namespace_t
    \<Rightarrow> string \<times> string \<Rightarrow> remap_path_t \<Rightarrow> remap_path_t res" where
  "annotate_one inet_pton4 inet_pton6 ns kv rp =
     (let key = fst kv; value = snd kv in
      if key = IN_CACHE_ENABLE then Inr (rp\<lparr>rp_cache := truefalse value\<rparr>)
      else if key = IN_CACHE_GENERATION then Inr (rp\<lparr>rp_cache_gen := atoi value\<rparr>)
      else if key = IN_CACHE_IGNORE_PARAMS then
        Inr (rp\<lparr>rp_ignore_params := Some (token_set 127 (strtok_all BLANK value))\<rparr>)
      else if key = IN_CACHE_WHITELIST_PARAMS then
        Inr (rp\<lparr>rp_whitelist_params := Some (token_set 127 (strtok_all BLANK value))\<rparr>)
      else if key = IN_CACHE_IGNORE_COOKIES then
        Inr (rp\<lparr>rp_ignore_cookies := Some (token_set 127 (strtok_all BLANK value))\<rparr>)
      else if key = IN_CACHE_WHITELIST_COOKIES then
        Inr (rp\<lparr>rp_whitelist_cookies := Some (token_set 127 (strtok_all BLANK value))\<rparr>)
      else if key = IN_COMPRESS_TYPES then
        Inr (rp\<lparr>rp_compress_types := token_set 127 (strtok_all BLANK value)\<rparr>)
      else if key = IN_COMPRESS_ENABLE then Inr (rp\<lparr>rp_compress := truefalse value\<rparr>)
      else if key = IN_FOLLOW_REDIRECTS then Inr (rp\<lparr>rp_follow_redirects := truefalse value\<rparr>)
      else if key = IN_SERVER_PUSH then Inr (rp\<lparr>rp_server_push := truefalse value\<rparr>)
      else if key = IN_SECURE_BACKENDS then Inr (rp\<lparr>rp_secure_backends := truefalse value\<rparr>)
      else if key = IN_DEBUG_LOG then Inr (rp\<lparr>rp_debug_log := truefalse value\<rparr>)
      else if key = IN_SSL_REDIRECT then Inr (rp\<lparr>rp_no_ssl_redirect := \<not> truefalse value\<rparr>)
      else if key = IN_FORCE_SSL_REDIRECT then Inr (rp\<lparr>rp_force_ssl_redirect := truefalse value\<rparr>)
      else if key = IN_PRESERVE_HOST then Inr (rp\<lparr>rp_preserve_host := truefalse value\<rparr>)
      else if key = IN_APP_ROOT then Inr (rp\<lparr>rp_app_root := Some value\<rparr>)
      else if key = IN_REWRITE_TARGET \<and> take 1 value = ''/'' then
        Inr (rp\<lparr>rp_rewrite_target := Some (drop 1 value)\<rparr>)
      else if key = IN_READ_RESPONSE_TIMEOUT then Inr (rp\<lparr>rp_read_timeout := atoi value\<rparr>)
      else if key = IN_ENABLE_CORS then Inr (rp\<lparr>rp_enable_cors := truefalse value\<rparr>)
      else if key = IN_CORS_ORIGINS then
        Inr (rp\<lparr>rp_cors_origins := token_set 1 (strtok_all (BLANK @ [CHR 0x0D, CHR 0x0A]) value),
                rp_enable_cors := True\<rparr>)
      else if key = IN_CORS_MAX_AGE then Inr (rp\<lparr>rp_cors_max_age := atoi value\<rparr>)
      else if key = IN_CORS_HEADERS then Inr (rp\<lparr>rp_cors_headers := Some value\<rparr>)
      else if key = IN_CORS_METHODS then Inr (rp\<lparr>rp_cors_methods := Some value\<rparr>)
      else if key = IN_CORS_CREDENTIALS then Inr (rp\<lparr>rp_cors_creds := truefalse value\<rparr>)
      else if key = IN_AUTH_TYPE then
        Inr (if value = ''basic'' then rp\<lparr>rp_auth_type := REMAP_AUTH_BASIC\<rparr>
             else if value = ''digest'' then rp\<lparr>rp_auth_type := REMAP_AUTH_DIGEST\<rparr>
             else rp)
      else if key = IN_AUTH_REALM then Inr (rp\<lparr>rp_auth_realm := Some value\<rparr>)
      else if key = IN_AUTH_SECRET then
        (case namespace_get_secret ns value of
           None \<Rightarrow> Inr rp
         | Some se \<Rightarrow>
             res_bind (remap_path_add_users (hash_new 127 True) se) (\<lambda>users.
               Inr (rp\<lparr>rp_users := Some users\<rparr>)))
      else if key = IN_AUTH_SATISFY then
        Inr (rp\<lparr>rp_auth_satisfy := (if value = ''any'' then REMAP_SATISFY_ANY else REMAP_SATISFY_ALL)\<rparr>)
      else if key = IN_WHITELIST_SOURCE_RANGE then
        Inr (rp\<lparr>rp_auth_addr_list := remap_path_get_addresses inet_pton4 inet_pton6 value\<rparr>)
      else Inr rp)"

definition remap_path_annotate ::
  "(string \<Rightarrow> byte list option) \<Rightarrow> (string \<Rightarrow> byte list option) \<Rightarrow> namespace_t
    \<Rightarrow> remap_path_t \<Rightarrow> string hash \<Rightarrow> remap_path_t res" where
  "remap_path_annotate inet_pton4 inet_pton6 ns rp annotations =
     res_fold (annotate_one inet_pton4 inet_pton6 ns) (hash_foreach annotations) rp"

subsection \<open>Choosing a backend\<close>

text \<open>\<^verbatim>\<open>rand()\<close> returns a number between 0 and \<open>RAND_MAX\<close>, here as in the GNU C library.\<close>

definition RAND_MAX :: nat where "RAND_MAX = 2147483647"

definition pick_index :: "nat \<Rightarrow> nat \<Rightarrow> nat" where
  "pick_index rnd naddrs = rnd div (RAND_MAX div naddrs + 1)"

definition remap_path_pick_target :: "nat \<Rightarrow> remap_path_t \<Rightarrow> remap_target_t res" where
  "remap_path_pick_target rnd rp =
     (let n = pick_index rnd (length (rp_addrs rp)) in
      if n < length (rp_addrs rp) then Inr (rp_addrs rp ! n) else Inl Out_Of_Bounds)"

subsection \<open>Lemmas\<close>

lemma token_set_iff [simp]: "0 < n \<Longrightarrow> hash_get (token_set n ts) k = Some () \<longleftrightarrow> k \<in> set ts"
  by (simp add: token_set_def hash_set_of_list)

lemma token_set_ok [simp]: "0 < n \<Longrightarrow> hash_ok (token_set n ts)"
  by (simp add: token_set_def ht.ok_fold_push)

lemma pick_index_less:
  assumes "0 < n" and "rnd \<le> RAND_MAX"
  shows "pick_index rnd n < n"
proof -
  have "RAND_MAX < n * (RAND_MAX div n + 1)"
    using assms(1) by (simp add: dividend_less_times_div add.commute)
  with assms(2) have "rnd < n * (RAND_MAX div n + 1)" by linarith
  then show ?thesis by (simp add: pick_index_def less_mult_imp_div_less)
qed

lemma pick_index_hits:
  assumes "i < n" and "n * n \<le> RAND_MAX"
  shows "\<exists>rnd \<le> RAND_MAX. pick_index rnd n = i"
proof -
  define q where "q = RAND_MAX div n"
  have n: "0 < n" using assms(1) by simp
  have nq: "n \<le> q" unfolding q_def using assms(2) n by (simp add: less_eq_div_iff_mult_less_eq)
  have "i * (q + 1) \<le> (n - 1) * (q + 1)" using assms(1) by (intro mult_le_mono1) simp
  also have "\<dots> = n * q + n - q - 1"
    using n nq by (simp add: algebra_simps diff_mult_distrib)
  also have "\<dots> \<le> n * q" using nq by simp
  also have "\<dots> \<le> RAND_MAX" by (simp add: q_def)
  finally have "i * (q + 1) \<le> RAND_MAX" .
  moreover have "pick_index (i * (q + 1)) n = i"
    unfolding pick_index_def q_def [symmetric] by (rule nonzero_mult_div_cancel_right) simp
  ultimately show ?thesis by blast
qed

lemma get_addresses_fold:
  "fold (\<lambda>a l. case f a of None \<Rightarrow> l | Some e \<Rightarrow> e # l) ts l = rev (List.map_filter f ts) @ l"
  by (induction ts arbitrary: l) (auto simp: map_filter_simps split: option.splits)

lemma remap_path_get_addresses_eq:
  "remap_path_get_addresses p4 p6 str = rev (List.map_filter (parse_auth_addr p4 p6) (strtok_all '','' str))"
  by (simp add: remap_path_get_addresses_def get_addresses_fold)

text \<open>The password loop: it returns a password that is not empty and has no line end; it never ends on
  the empty password.\<close>

lemma trim_eol_id: "p \<noteq> [] \<Longrightarrow> last p \<notin> {CHR 0x0D, CHR 0x0A, NUL} \<Longrightarrow> trim_eol b p = Some p"
  by (subst trim_eol.simps) simp

lemma trim_eol_returns:
  assumes "trim_eol b p = Some r"
  shows "\<not> (b = NUL \<and> p = [])"
  by (rule trim_eol.raw_induct [where P = "\<lambda>b p r. \<not> (b = NUL \<and> p = [])", OF _ assms])
    (auto simp: Let_def split: if_splits)

lemma trim_eol_empty: "trim_eol NUL [] = None"
  using trim_eol_returns [of NUL "[]"] by (cases "trim_eol NUL []") auto

definition password_ok :: "string \<Rightarrow> bool" where
  "password_ok pw \<longleftrightarrow> pw \<noteq> [] \<and> set pw \<inter> {CHR '':'', CHR 0x0D, CHR 0x0A, NUL} = {}"

definition user_ok :: "string \<Rightarrow> bool" where
  "user_ok u \<longleftrightarrow> set u \<inter> {CHR '':'', CHR 0x0D, CHR 0x0A, NUL} = {}"

lemma add_user_entry_ok:
  assumes "user_ok u" and "password_ok pw" and "rest = [] \<or> hd rest = CHR '':''"
  shows "add_user_entry (u @ '':'' @ pw @ rest) users = Inr (hash_set users u pw)"
proof -
  have u: "CHR '':'' \<notin> set u" and pw: "CHR '':'' \<notin> set pw" "pw \<noteq> []"
    using assms(1,2) by (auto simp: user_ok_def password_ok_def)
  then have last: "last pw \<notin> {CHR 0x0D, CHR 0x0A, NUL}"
    using last_in_set [of pw] assms(2) unfolding password_ok_def by (metis Int_iff empty_iff insertCI)
  have "(case strchr (pw @ rest) CHR '':'' of None \<Rightarrow> pw @ rest | Some m \<Rightarrow> take m (pw @ rest)) = pw"
    using assms(3) pw(1) by (cases rest) (simp_all add: strchr_absent)
  with u pw last show ?thesis by (simp add: add_user_entry_def Let_def trim_eol_id)
qed

lemma add_user_entry_empty_password:
  assumes u: "CHR '':'' \<notin> set u" and "rest = [] \<or> hd rest = CHR '':''"
  shows "add_user_entry (u @ '':'' @ rest) users = Inl Diverges"
proof -
  have "(case strchr rest CHR '':'' of None \<Rightarrow> rest | Some m \<Rightarrow> take m rest) = []"
    using assms(2) by (cases rest) auto
  with u show ?thesis by (simp add: add_user_entry_def Let_def trim_eol_empty)
qed

text \<open>A line has no password if nothing stands between its first colon and the end or the next colon.\<close>

definition no_password :: "string \<Rightarrow> bool" where
  "no_password e \<longleftrightarrow> (\<exists>u r. e = u @ '':'' @ r \<and> CHR '':'' \<notin> set u \<and> (r = [] \<or> hd r = CHR '':''))"

lemma add_user_entry_total:
  assumes "set e \<inter> {CHR 0x0D, CHR 0x0A, NUL} = {}" and "\<not> no_password e"
  shows "\<exists>users'. add_user_entry e users = Inr users'"
proof (cases "strchr e CHR '':''")
  case (Some n)
  let ?r = "drop (Suc n) e"
  let ?pw = "case strchr ?r CHR '':'' of None \<Rightarrow> ?r | Some m \<Rightarrow> take m ?r"
  have e: "e = take n e @ '':'' @ ?r" "CHR '':'' \<notin> set (take n e)"
    using strchr_split [OF Some] strchr_SomeD [OF Some] by simp_all
  with assms(2) have r: "?r \<noteq> []" "hd ?r \<noteq> CHR '':''" unfolding no_password_def by blast+
  then have ne: "?pw \<noteq> []" by (cases "?r") (auto split: option.split)
  have "set ?pw \<subseteq> set ?r" by (auto split: option.split dest: in_set_takeD)
  then have "set ?pw \<subseteq> set e" by (auto dest: in_set_dropD)
  with assms(1) last_in_set [OF ne] have "last ?pw \<notin> {CHR 0x0D, CHR 0x0A, NUL}" by blast
  from trim_eol_id [OF ne this] Some show ?thesis by (simp add: add_user_entry_def Let_def)
qed (simp add: add_user_entry_def strchr_absent)

lemma add_users_fold_hangs:
  assumes "\<And>e. e \<in> set es \<Longrightarrow> set e \<inter> {CHR 0x0D, CHR 0x0A, NUL} = {}"
  shows "if \<exists>e \<in> set es. no_password e then res_fold add_user_entry es users = Inl Diverges
    else \<exists>users'. res_fold add_user_entry es users = Inr users'"
  using assms
proof (induction es arbitrary: users)
  case (Cons e es)
  show ?case
  proof (cases "no_password e")
    case True
    then obtain u r where "e = u @ '':'' @ r" "CHR '':'' \<notin> set u" "r = [] \<or> hd r = CHR '':''" by (auto simp: no_password_def)
    from add_user_entry_empty_password [OF this(2,3)] this(1) True show ?thesis by simp
  next
    case False
    from add_user_entry_total [OF Cons.prems False] obtain users' where "add_user_entry e users = Inr users'" by auto
    with Cons.IH [of users'] Cons.prems False show ?thesis by simp
  qed
qed simp

lemma add_user_entry_blank [simp]: "add_user_entry [] users = Inr users"
  by (simp add: add_user_entry_def)

text \<open>The text of a password file, one line per user.\<close>

definition htpasswd :: "(string \<times> string) list \<Rightarrow> string" where
  "htpasswd us = concat (map (\<lambda>(u, pw). u @ '':'' @ pw @ [CHR 0x0A]) us)"

lemma htpasswd_simps [simp]:
  "htpasswd [] = []"
  "htpasswd ((u, pw) # us) = u @ '':'' @ pw @ CHR 0x0A # htpasswd us"
  "htpasswd (us @ vs) = htpasswd us @ htpasswd vs"
  by (simp_all add: htpasswd_def)

lemma htpasswd_no_NUL: "list_all (\<lambda>(u, pw). user_ok u \<and> password_ok pw) us \<Longrightarrow> NUL \<notin> set (htpasswd us)"
  by (induction us) (auto simp: user_ok_def password_ok_def NUL_def)

lemma strsep_htpasswd:
  assumes "list_all (\<lambda>(u, pw). user_ok u \<and> password_ok pw) us"
  shows "strsep_all [CHR 0x0D, CHR 0x0A] (htpasswd us @ rest) =
    map (\<lambda>(u, pw). u @ '':'' @ pw) us @ strsep_all [CHR 0x0D, CHR 0x0A] rest"
  using assms
proof (induction us)
  case (Cons e us)
  obtain u pw where e: "e = (u, pw)" by (cases e)
  have "set (u @ '':'' @ pw) \<inter> set [CHR 0x0D, CHR 0x0A] = {}"
    using Cons.prems by (auto simp: e user_ok_def password_ok_def)
  from strsep_all_append [OF this, of "CHR 0x0A" "htpasswd us @ rest"] Cons show ?case
    by (simp add: e)
qed simp

lemma add_users_fold:
  assumes "list_all (\<lambda>(u, pw). user_ok u \<and> password_ok pw) us"
  shows "res_fold add_user_entry (map (\<lambda>(u, pw). u @ '':'' @ pw) us @ es) users =
    res_fold add_user_entry es (fold (\<lambda>(u, pw) h. hash_set h u pw) us users)"
  using assms
proof (induction us arbitrary: users)
  case (Cons e us)
  obtain u pw where e: "e = (u, pw)" by (cases e)
  with Cons add_user_entry_ok [of u pw "[]" users] show ?case by simp
qed simp

lemma hash_get_fold_set:
  "hash_ok h \<Longrightarrow> hash_get (fold (\<lambda>(k, v) h. hash_set h k v) es h) k =
    (case map_of (rev es) k of None \<Rightarrow> hash_get h k | Some v \<Rightarrow> Some v)"
  by (induction es arbitrary: h) (auto simp: map_add_def split: option.splits)

lemma base64_encoded_text [simp]:
  "map char_of_byte (map byte_of_char t) = t"
  by (simp add: map_idI)

lemma add_users_htpasswd:
  assumes "list_all (\<lambda>(u, pw). user_ok u \<and> password_ok pw) us"
    and "hash_get (se_data se) ''auth'' = Some (base64_encode (map byte_of_char (htpasswd us)))"
  shows "\<exists>users. remap_path_add_users (hash_new 127 True) se = Inr users
    \<and> (\<forall>u. hash_get users u = map_of (rev us) u)"
proof -
  have "remap_path_add_users (hash_new 127 True) se =
      Inr (fold (\<lambda>(u, pw) h. hash_set h u pw) us (hash_new 127 True))"
    using assms htpasswd_no_NUL [OF assms(1)] strsep_htpasswd [OF assms(1), of "[]"]
      add_users_fold [OF assms(1), of "[[]]"]
    by (simp add: remap_path_add_users_def del: map_map)
  then show ?thesis by (simp add: hash_get_fold_set split: option.splits)
qed

text \<open>
  How annotations become settings.  If one annotation alone decides a field, then its value in the
  annotation table decides the field of the configured path, whatever the order of the iteration.
\<close>

lemma res_fold_field:
  assumes "\<And>k v s s'. k \<noteq> K \<Longrightarrow> f (k, v) s = Inr s' \<Longrightarrow> fld s' = fld s"
    and "\<And>v s s'. f (K, v) s = Inr s' \<Longrightarrow> fld s' = g v (fld s)"
    and "res_fold f es s = Inr s'"
  shows "fld s' = fold g (map snd (filter (\<lambda>e. fst e = K) es)) (fld s)"
  using assms(3)
proof (induction es arbitrary: s)
  case (Cons e es)
  obtain k v where e: "e = (k, v)" by (cases e)
  from Cons.prems obtain s1 where s1: "f (k, v) s = Inr s1" "res_fold f es s1 = Inr s'" by (auto simp: e)
  have "fld s1 = (if k = K then g v (fld s) else fld s)"
    using assms(1) [of k v s s1] assms(2) [of v s s1] s1(1) by auto
  with Cons.IH [OF s1(2)] show ?case by (simp add: e)
qed simp

lemma fold_hash_vals:
  assumes "hash_unique h"
  shows "fold g (hash_vals h K) x = (case hash_get h K of None \<Rightarrow> x | Some v \<Rightarrow> g v x)"
proof -
  have "length (hash_vals h K) \<le> 1" using assms by blast
  then show ?thesis by (cases "hash_vals h K"; cases "tl (hash_vals h K)") (auto simp: ht.get_vals)
qed

lemma annotate_field:
  assumes "hash_unique ann" and "remap_path_annotate p4 p6 ns rp ann = Inr rp'"
    and "\<And>k v s s'. k \<noteq> K \<Longrightarrow> annotate_one p4 p6 ns (k, v) s = Inr s' \<Longrightarrow> fld s' = fld s"
    and "\<And>v s s'. annotate_one p4 p6 ns (K, v) s = Inr s' \<Longrightarrow> fld s' = g v (fld s)"
  shows "fld rp' = (case hash_get ann K of None \<Rightarrow> fld rp | Some v \<Rightarrow> g v (fld rp))"
proof -
  have "fld rp' = fold g (map snd (filter (\<lambda>e. fst e = K) (hash_foreach ann))) (fld rp)"
    using res_fold_field [where f = "annotate_one p4 p6 ns" and fld = fld and g = g and K = K] assms(2-4)
    unfolding remap_path_annotate_def by blast
  also have "\<dots> = fold g (hash_vals ann K) (fld rp)" using assms(1) by (simp add: ht.entries_vals)
  finally show ?thesis using fold_hash_vals [OF assms(1)] by simp
qed

lemma annotate_one_keeps:
  assumes "annotate_one p4 p6 ns (k, v) rp = Inr rp'"
  shows "k \<noteq> IN_AUTH_TYPE \<Longrightarrow> rp_auth_type rp' = rp_auth_type rp"
    and "k \<noteq> IN_AUTH_SATISFY \<Longrightarrow> rp_auth_satisfy rp' = rp_auth_satisfy rp"
    and "k \<noteq> IN_AUTH_SECRET \<Longrightarrow> rp_users rp' = rp_users rp"
    and "k \<noteq> IN_WHITELIST_SOURCE_RANGE \<Longrightarrow> rp_auth_addr_list rp' = rp_auth_addr_list rp"
    and "k \<noteq> IN_AUTH_REALM \<Longrightarrow> rp_auth_realm rp' = rp_auth_realm rp"
    and "rp_regex rp' = rp_regex rp" and "rp_addrs rp' = rp_addrs rp"
  using assms unfolding annotate_one_def Let_def fst_conv snd_conv
  by (auto split: if_splits option.splits)

subsection \<open>Properties\<close>

text \<open>C29: Loading a password file.  For a secret whose \<^verbatim>\<open>auth\<close> entry is the base64 text of a password
  file with well-formed lines, the user database that \<^verbatim>\<open>remap_path_add_users\<close> builds maps every user to
  the password hash of the last line of that user, and no other user is in it.\<close>

theorem add_users_correct:
  assumes "list_all (\<lambda>(u, pw). user_ok u \<and> password_ok pw) us"
    and "hash_get (se_data se) ''auth'' = Some (base64_encode (map byte_of_char (htpasswd us)))"
  shows "\<exists>users. remap_path_add_users (hash_new 127 True) se = Inr users
    \<and> (\<forall>u. hash_get users u = map_of (rev us) u)"
  by (rule add_users_htpasswd [OF assms])

theorem add_users_correct_witness:
  "let se = \<lparr>se_name = ''s'', se_namespace = ''n'', se_type = ''Opaque'',
             se_data = hash_set (hash_new 127 True) ''auth''
               (base64_encode (map byte_of_char (htpasswd [(''bob'', ''x1''), (''bob'', ''x2'')])))\<rparr>
   in \<exists>users. remap_path_add_users (hash_new 127 True) se = Inr users \<and> hash_get users ''bob'' = Some ''x2''"
proof -
  let ?us = "[(''bob'', ''x1''), (''bob'', ''x2'')]"
  let ?se = "\<lparr>se_name = ''s'', se_namespace = ''n'', se_type = ''Opaque'',
             se_data = hash_set (hash_new 127 True) ''auth'' (base64_encode (map byte_of_char (htpasswd ?us)))\<rparr>"
  have ok: "list_all (\<lambda>(u, pw). user_ok u \<and> password_ok pw) ?us"
    by (simp add: user_ok_def password_ok_def NUL_def)
  have "hash_get (se_data ?se) ''auth'' = Some (base64_encode (map byte_of_char (htpasswd ?us)))"
    by (simp del: htpasswd_simps)
  from add_users_correct [OF ok this] show ?thesis by (auto simp: Let_def simp del: htpasswd_simps)
qed

text \<open>C40: A line without a password hangs the plugin.  Reading the password file of a secret runs forever, in the loop that
  strips line ends from a password, exactly if some line of it, wherever it stands, has a first colon that is followed by the end of
  the line or by another colon (\<^verbatim>\<open>user:\<close> or \<^verbatim>\<open>user::...\<close>, with or without a line end); otherwise it returns.  The lines are
  the parts of the decoded text, up to its first NUL, between CR and LF characters.\<close>

theorem add_users_empty_password_hangs:
  assumes "hash_get (se_data se) ''auth'' = Some authdata" and "base64_decode authdata = Some bs"
  shows "if \<exists>e \<in> set (strsep_all [CHR 0x0D, CHR 0x0A] (cstr (map char_of_byte bs))).
              \<exists>u r. e = u @ '':'' @ r \<and> CHR '':'' \<notin> set u \<and> (r = [] \<or> hd r = CHR '':'')
    then remap_path_add_users users se = Inl Diverges
    else \<exists>users'. remap_path_add_users users se = Inr users'"
proof -
  let ?s = "cstr (map char_of_byte bs)"
  have "NUL \<notin> set ?s" by simp
  then have "set e \<inter> {CHR 0x0D, CHR 0x0A, NUL} = {}" if "e \<in> set (strsep_all [CHR 0x0D, CHR 0x0A] ?s)" for e
    using strsep_all_tokens [OF that] by auto
  from add_users_fold_hangs [of "strsep_all [CHR 0x0D, CHR 0x0A] ?s" users, OF this] assms show ?thesis
    by (simp add: remap_path_add_users_def no_password_def)
qed

theorem add_users_empty_password_hangs_witness:
  "let secret = \<lambda>pws. \<lparr>se_name = ''s'', se_namespace = ''n'', se_type = ''Opaque'',
     se_data = hash_set (hash_new 127 True) ''auth'' (base64_encode (map byte_of_char pws))\<rparr>
   in remap_path_add_users (hash_new 127 True) (secret (''bob:'' @ [CHR 0x0A] @ ''eve:x'')) = Inl Diverges
    \<and> remap_path_add_users (hash_new 127 True) (secret (''eve:x'' @ [CHR 0x0A] @ ''bob::x'' @ [CHR 0x0A])) = Inl Diverges"
proof -
  have hang: "remap_path_add_users (hash_new 127 True) \<lparr>se_name = ''s'', se_namespace = ''n'', se_type = ''Opaque'',
       se_data = hash_set (hash_new 127 True) ''auth'' (base64_encode (map byte_of_char pws))\<rparr> = Inl Diverges"
    if "NUL \<notin> set pws" "u @ '':'' @ r \<in> set (strsep_all [CHR 0x0D, CHR 0x0A] pws)" "CHR '':'' \<notin> set u" "r = [] \<or> hd r = CHR '':''"
    for pws u r
  proof -
    let ?se = "\<lparr>se_name = ''s'', se_namespace = ''n'', se_type = ''Opaque'',
       se_data = hash_set (hash_new 127 True) ''auth'' (base64_encode (map byte_of_char pws))\<rparr>"
    have get: "hash_get (se_data ?se) ''auth'' = Some (base64_encode (map byte_of_char pws))"
      and dec: "base64_decode (base64_encode (map byte_of_char pws)) = Some (map byte_of_char pws)" by simp_all
    have "cstr (map char_of_byte (map byte_of_char pws)) = pws" using that(1) by (simp del: map_map)
    with add_users_empty_password_hangs [OF get dec, of "hash_new 127 True"] that(2-4) show ?thesis by (auto split: if_splits)
  qed
  have "remap_path_add_users (hash_new 127 True) \<lparr>se_name = ''s'', se_namespace = ''n'', se_type = ''Opaque'',
       se_data = hash_set (hash_new 127 True) ''auth'' (base64_encode (map byte_of_char (''bob:'' @ [CHR 0x0A] @ ''eve:x'')))\<rparr> = Inl Diverges"
    by (rule hang [where u = "''bob''" and r = "[]"]) (simp_all add: NUL_def)
  moreover have "remap_path_add_users (hash_new 127 True) \<lparr>se_name = ''s'', se_namespace = ''n'', se_type = ''Opaque'',
       se_data = hash_set (hash_new 127 True) ''auth''
         (base64_encode (map byte_of_char (''eve:x'' @ [CHR 0x0A] @ ''bob::x'' @ [CHR 0x0A])))\<rparr> = Inl Diverges"
    by (rule hang [where u = "''bob''" and r = "'':x''"]) (simp_all add: NUL_def)
  ultimately show ?thesis unfolding Let_def by (rule conjI)
qed

text \<open>Choosing a backend is safe and fair enough to use them all.  With at least one backend and any
  value of \<^verbatim>\<open>rand()\<close> the index is in range, and with at most 46340 backends each of them is picked for
  some value.\<close>

theorem pick_target_in_range:
  assumes "rp_addrs rp \<noteq> []"
  shows "(\<forall>rnd \<le> RAND_MAX. \<exists>t \<in> set (rp_addrs rp). remap_path_pick_target rnd rp = Inr t)
    \<and> (length (rp_addrs rp) \<le> 46340 \<longrightarrow>
        (\<forall>t \<in> set (rp_addrs rp). \<exists>rnd \<le> RAND_MAX. remap_path_pick_target rnd rp = Inr t))"
proof (intro conjI impI ballI allI)
  show "\<exists>t \<in> set (rp_addrs rp). remap_path_pick_target rnd rp = Inr t" if "rnd \<le> RAND_MAX" for rnd
    using pick_index_less [of "length (rp_addrs rp)" rnd] assms that
    by (simp add: remap_path_pick_target_def Let_def)
next
  fix t assume len: "length (rp_addrs rp) \<le> 46340" and t: "t \<in> set (rp_addrs rp)"
  from t obtain i where i: "i < length (rp_addrs rp)" "rp_addrs rp ! i = t" by (auto simp: in_set_conv_nth)
  from len have "length (rp_addrs rp) * length (rp_addrs rp) \<le> 46340 * 46340" by (rule mult_le_mono) (rule len)
  then have "length (rp_addrs rp) * length (rp_addrs rp) \<le> RAND_MAX" by (simp add: RAND_MAX_def)
  from pick_index_hits [OF i(1) this] i show "\<exists>rnd \<le> RAND_MAX. remap_path_pick_target rnd rp = Inr t"
    by (auto simp: remap_path_pick_target_def Let_def)
qed

theorem pick_target_in_range_witness:
  "\<exists>t \<in> set (rp_addrs (remap_path_add_address remap_path_default ''10.0.0.1'' 80)).
     remap_path_pick_target 12345 (remap_path_add_address remap_path_default ''10.0.0.1'' 80) = Inr t"
proof -
  have "rp_addrs (remap_path_add_address remap_path_default ''10.0.0.1'' 80) \<noteq> []"
    by (simp add: remap_path_add_address_def)
  from pick_target_in_range [OF this] show ?thesis by (simp add: RAND_MAX_def)
qed

text \<open>C28: The access settings of a path are the ones its Ingress asks for.  Configuring a path from a table
  with one value per annotation sets the authentication type, the satisfy rule, the user database and
  the address list from the annotations of that name, independent of the order of the iteration;
  an absent annotation leaves the setting alone.\<close>

theorem annotate_access_settings:
  assumes "hash_unique ann" and "remap_path_annotate p4 p6 ns rp ann = Inr rp'"
  shows "rp_auth_type rp' = (case hash_get ann ''ingress.kubernetes.io/auth-type'' of
        None \<Rightarrow> rp_auth_type rp
      | Some v \<Rightarrow> if v = ''basic'' then REMAP_AUTH_BASIC else if v = ''digest'' then REMAP_AUTH_DIGEST else rp_auth_type rp)
    \<and> rp_auth_satisfy rp' = (case hash_get ann ''ingress.kubernetes.io/auth-satisfy'' of
        None \<Rightarrow> rp_auth_satisfy rp
      | Some v \<Rightarrow> if v = ''any'' then REMAP_SATISFY_ANY else REMAP_SATISFY_ALL)
    \<and> rp_users rp' = (case hash_get ann ''ingress.kubernetes.io/auth-secret'' of
        None \<Rightarrow> rp_users rp
      | Some v \<Rightarrow> (case namespace_get_secret ns v of
            None \<Rightarrow> rp_users rp
          | Some se \<Rightarrow> (case remap_path_add_users (hash_new 127 True) se of Inl _ \<Rightarrow> rp_users rp | Inr us \<Rightarrow> Some us)))
    \<and> rp_auth_addr_list rp' = (case hash_get ann ''ingress.kubernetes.io/whitelist-source-range'' of
        None \<Rightarrow> rp_auth_addr_list rp
      | Some v \<Rightarrow> rev (List.map_filter (parse_auth_addr p4 p6) (strtok_all '','' v)))"
proof (intro conjI)
  note field = annotate_field [OF assms]
  show "rp_auth_type rp' = (case hash_get ann ''ingress.kubernetes.io/auth-type'' of
        None \<Rightarrow> rp_auth_type rp
      | Some v \<Rightarrow> if v = ''basic'' then REMAP_AUTH_BASIC else if v = ''digest'' then REMAP_AUTH_DIGEST else rp_auth_type rp)"
    by (rule field [where fld = rp_auth_type], rule annotate_one_keeps(1), assumption, assumption)
      (auto simp: annotate_one_def)
  show "rp_auth_satisfy rp' = (case hash_get ann ''ingress.kubernetes.io/auth-satisfy'' of
        None \<Rightarrow> rp_auth_satisfy rp
      | Some v \<Rightarrow> if v = ''any'' then REMAP_SATISFY_ANY else REMAP_SATISFY_ALL)"
    by (rule field [where fld = rp_auth_satisfy], rule annotate_one_keeps(2), assumption, assumption)
      (auto simp: annotate_one_def)
  show "rp_users rp' = (case hash_get ann ''ingress.kubernetes.io/auth-secret'' of
        None \<Rightarrow> rp_users rp
      | Some v \<Rightarrow> (case namespace_get_secret ns v of
            None \<Rightarrow> rp_users rp
          | Some se \<Rightarrow> (case remap_path_add_users (hash_new 127 True) se of Inl _ \<Rightarrow> rp_users rp | Inr us \<Rightarrow> Some us)))"
    by (rule field [where fld = rp_users], rule annotate_one_keeps(3), assumption, assumption)
      (auto simp: annotate_one_def split: option.splits)
  show "rp_auth_addr_list rp' = (case hash_get ann ''ingress.kubernetes.io/whitelist-source-range'' of
        None \<Rightarrow> rp_auth_addr_list rp
      | Some v \<Rightarrow> rev (List.map_filter (parse_auth_addr p4 p6) (strtok_all '','' v)))"
    by (rule field [where fld = rp_auth_addr_list], rule annotate_one_keeps(4), assumption, assumption)
      (auto simp: annotate_one_def remap_path_get_addresses_eq)
qed

theorem annotate_access_settings_witness:
  "\<exists>rp'. remap_path_annotate (\<lambda>_. None) (\<lambda>_. None) (namespace_make ''n'') remap_path_default
      (hash_set (hash_new 127 True) ''ingress.kubernetes.io/auth-type'' ''basic'') = Inr rp'
    \<and> rp_auth_type rp' = REMAP_AUTH_BASIC \<and> rp_users rp' = None"
proof -
  let ?ann = "hash_set (hash_new 127 True) ''ingress.kubernetes.io/auth-type'' ''basic''"
  have u: "hash_unique ?ann" by simp
  have "\<exists>rp'. remap_path_annotate (\<lambda>_. None) (\<lambda>_. None) (namespace_make ''n'') remap_path_default ?ann = Inr rp'"
    by (simp add: remap_path_annotate_def annotate_one_def hash_foreach_single)
  then obtain rp' where rp': "remap_path_annotate (\<lambda>_. None) (\<lambda>_. None) (namespace_make ''n'') remap_path_default ?ann = Inr rp'" ..
  from annotate_access_settings [OF u rp'] rp' show ?thesis
    by (simp add: remap_path_default_def)
qed

end
