(* ===== verification/Auth.thy ===== *)
theory Auth
  imports Remap_Path
begin

text \<open>
  Access control, \<^verbatim>\<open>auth/auth.c\<close>: the check of a Basic authorization header against the user database of
  a path, and the check of a client address against its address list.  The password check
  \<open>crypt_check\<close> of \<^verbatim>\<open>crypt/\<close> is an argument.
\<close>

unbundle bit_operations_syntax

datatype sockaddr = Sockaddr_in "32 word" | Sockaddr_in6 "byte list" | Sockaddr_other

definition auth_check_password :: "(string \<Rightarrow> string \<Rightarrow> bool) \<Rightarrow> string hash \<Rightarrow> string \<Rightarrow> string \<Rightarrow> bool" where
  "auth_check_password crypt_check users usenam pass =
     (case hash_get users usenam of None \<Rightarrow> False | Some crypted \<Rightarrow> crypt_check pass crypted)"

definition auth_check_basic :: "(string \<Rightarrow> string \<Rightarrow> bool) \<Rightarrow> string \<Rightarrow> remap_path_t \<Rightarrow> int" where
  "auth_check_basic crypt_check hdr rp =
     (if rp_auth_type rp \<noteq> REMAP_AUTH_BASIC then 0
      else case rp_users rp of
        None \<Rightarrow> 0
      | Some users \<Rightarrow>
          (case strchr hdr CHR '' '' of
             None \<Rightarrow> -1
           | Some n \<Rightarrow>
               if length hdr < 7 then -1
               else if take 6 hdr \<noteq> ''Basic '' then -1
               else (let creds = dropWhile isspace (drop n hdr) in
                 if creds = [] then -1
                 else if base64_decode_len (length creds) > 255 then -1
                 else (case base64_decode creds of
                         None \<Rightarrow> -1
                       | Some bs \<Rightarrow>
                           if length bs < 3 then -1
                           else (let buf = cstr (map char_of_byte bs) in
                             case strchr buf CHR '':'' of
                               None \<Rightarrow> -1
                             | Some m \<Rightarrow>
                                 if auth_check_password crypt_check users (take m buf) (drop (Suc m) buf)
                                 then 1 else 0)))))"

definition htonl :: "32 word \<Rightarrow> 32 word" where
  "htonl w = push_bit 24 (w AND 0xFF) OR push_bit 8 (w AND 0xFF00) OR
     (drop_bit 8 w AND 0xFF00) OR (drop_bit 24 w AND 0xFF)"

definition ipv4_in_network :: "32 word \<Rightarrow> 32 word \<Rightarrow> int \<Rightarrow> bool" where
  "ipv4_in_network ip net pfxlen =
     (let mask = (ucast (push_bit (nat (32 - pfxlen)) (NOT 0 :: 64 word)) :: 32 word) in
      if pfxlen < 0 \<or> pfxlen > 32 then False
      else htonl ip AND mask = htonl net AND mask)"

definition ip6_mask :: "nat \<Rightarrow> 32 word list" where
  "ip6_mask pfxlen =
     (let i = pfxlen div 32;
          mask = map (\<lambda>j. if i \<le> j then 0 else NOT 0) [0..<4]
      in if i < 4 \<and> pfxlen mod 32 \<noteq> 0
         then mask[i := htonl (push_bit (32 - pfxlen mod 32) (NOT 0))] else mask)"

definition ip6_words :: "byte list \<Rightarrow> 32 word list" where
  "ip6_words bs = map (\<lambda>i. le32 (take 4 (drop (4 * i) bs))) [0..<4]"

definition ipv6_in_network :: "byte list \<Rightarrow> byte list \<Rightarrow> int \<Rightarrow> bool" where
  "ipv6_in_network ip net pfxlen =
     (if pfxlen < 0 \<or> pfxlen > 128 then False
      else (let uip = ip6_words ip; unet = ip6_words net; mask = ip6_mask (nat pfxlen) in
            list_all (\<lambda>i. uip ! i AND mask ! i = unet ! i AND mask ! i) [0..<4]))"

fun auth_addr_match :: "sockaddr \<Rightarrow> remap_auth_addr \<Rightarrow> bool" where
  "auth_addr_match (Sockaddr_in ip) rad =
     (case ra_addr rad of Ra_v4 net \<Rightarrow> ipv4_in_network ip net (ra_prefix_length rad) | Ra_v6 _ \<Rightarrow> False)"
| "auth_addr_match (Sockaddr_in6 ip) rad =
     (case ra_addr rad of Ra_v6 net \<Rightarrow> ipv6_in_network ip net (ra_prefix_length rad) | Ra_v4 _ \<Rightarrow> False)"
| "auth_addr_match Sockaddr_other rad = False"

definition auth_check_address :: "sockaddr \<Rightarrow> remap_path_t \<Rightarrow> bool" where
  "auth_check_address addr rp = list_ex (auth_addr_match addr) (rp_auth_addr_list rp)"

subsection \<open>Networks are bit prefixes\<close>

text \<open>The bits of an address, most significant bit of the first byte first.\<close>

definition addr_bits :: "byte list \<Rightarrow> bool list" where
  "addr_bits bs = concat (map (\<lambda>b. map (\<lambda>j. bit b (7 - j)) [0..<8]) bs)"

lemma length_addr_bits [simp]: "length (addr_bits bs) = 8 * length bs"
  by (induction bs) (simp_all add: addr_bits_def)

lemma addr_bits_append: "addr_bits (as @ bs) = addr_bits as @ addr_bits bs"
  by (simp add: addr_bits_def)

lemma byte_of_bit:
  assumes "(i::nat) < 32"
  obtains k r where "i = 8 * k + r" "r < 8" "k = 0 \<or> k = 1 \<or> k = 2 \<or> k = 3"
proof
  show "i = 8 * (i div 8) + i mod 8" "i mod 8 < 8" by simp_all
  have "i div 8 < 4" using assms by (simp add: less_mult_imp_div_less)
  then show "i div 8 = 0 \<or> i div 8 = 1 \<or> i div 8 = 2 \<or> i div 8 = 3" by linarith
qed

lemma htonl_masks:
  "htonl w = push_bit 24 (w AND mask 8) OR push_bit 8 (w AND push_bit 8 (mask 8)) OR
     (drop_bit 8 w AND push_bit 8 (mask 8)) OR (drop_bit 24 w AND mask 8)"
  by (simp add: htonl_def mask_eq_exp_minus_1 push_bit_eq_mult)

lemma bit_htonl_byte:
  assumes "r < 8"
  shows "bit (htonl w) r \<longleftrightarrow> bit w (24 + r)" "bit (htonl w) (8 + r) \<longleftrightarrow> bit w (16 + r)"
    "bit (htonl w) (16 + r) \<longleftrightarrow> bit w (8 + r)" "bit (htonl w) (24 + r) \<longleftrightarrow> bit w r"
  using assms by (auto simp: htonl_masks bit_simps)

lemma bit_htonl: "bit (htonl w) i \<longleftrightarrow> i < 32 \<and> bit w (8 * (3 - i div 8) + i mod 8)"
proof (cases "i < 32")
  case True
  then obtain k r where i: "i = 8 * k + r" "r < 8" "k = 0 \<or> k = 1 \<or> k = 2 \<or> k = 3" by (rule byte_of_bit)
  then show ?thesis by (auto simp: bit_htonl_byte)
next
  case False
  then show ?thesis using bit_imp_le_length [of "htonl w" i] by auto
qed

lemma htonl_htonl [simp]: "htonl (htonl w) = w"
proof (rule bit_word_eqI)
  fix i assume "i < LENGTH(32)"
  then have "i < 32" by simp
  then obtain k r where "i = 8 * k + r" "r < 8" "k = 0 \<or> k = 1 \<or> k = 2 \<or> k = 3" by (rule byte_of_bit)
  then show "bit (htonl (htonl w)) i = bit w i" by (auto simp: bit_htonl_byte)
qed

lemma htonl_AND: "htonl (a AND b) = htonl a AND htonl b"
  by (rule bit_word_eqI) (simp add: bit_htonl bit_and_iff conj_ac)

lemma htonl_eq_iff: "htonl a = htonl b \<longleftrightarrow> a = b"
  by (metis htonl_htonl)

lemma AND_htonl_iff: "a AND htonl m = b AND htonl m \<longleftrightarrow> htonl a AND m = htonl b AND m"
  by (metis htonl_AND htonl_eq_iff htonl_htonl)

lemma bit_le32_byte:
  assumes "r < 8"
  shows "bit (le32 bs) r \<longleftrightarrow> bit (bs ! 0) r" "bit (le32 bs) (8 + r) \<longleftrightarrow> bit (bs ! 1) r"
    "bit (le32 bs) (16 + r) \<longleftrightarrow> bit (bs ! 2) r" "bit (le32 bs) (24 + r) \<longleftrightarrow> bit (bs ! 3) r"
  using assms bit_imp_le_length [of "bs ! 0"] bit_imp_le_length [of "bs ! 1"] bit_imp_le_length [of "bs ! 2"]
  by (auto simp: le32_def bit_simps) force+

lemma addr_bits_nth: "r < 8 \<Longrightarrow> k < length bs \<Longrightarrow> addr_bits bs ! (8 * k + r) = bit (bs ! k) (7 - r)"
proof (induction bs arbitrary: k)
  case (Cons b bs)
  have split: "addr_bits (b # bs) = map (\<lambda>j. bit b (7 - j)) [0..<8] @ addr_bits bs"
    by (simp add: addr_bits_def)
  show ?case
  proof (cases k)
    case 0
    with Cons.prems show ?thesis by (simp add: split nth_append)
  next
    case (Suc k')
    with Cons show ?thesis by (simp add: split nth_append)
  qed
qed simp

lemma bit_le32:
  assumes "length bs = 4" and "j < 32"
  shows "bit (htonl (le32 bs)) (31 - j) \<longleftrightarrow> addr_bits bs ! j"
proof -
  from assms(2) obtain k r where j: "j = 8 * k + r" "r < 8" "k = 0 \<or> k = 1 \<or> k = 2 \<or> k = 3" by (rule byte_of_bit)
  have "bit (htonl (le32 bs)) (31 - j) \<longleftrightarrow> bit (bs ! k) (7 - r)"
    using j bit_htonl_byte [of "7 - r" "le32 bs"] bit_le32_byte [of "7 - r" bs] by auto
  also have "\<dots> \<longleftrightarrow> addr_bits bs ! j" using j assms(1) addr_bits_nth [of r k bs] by auto
  finally show ?thesis .
qed

definition prefix_mask :: "nat \<Rightarrow> 32 word" where
  "prefix_mask n = push_bit (32 - n) (NOT 0)"

lemma bit_prefix_mask: "j < 32 \<Longrightarrow> bit (prefix_mask n) (31 - j) \<longleftrightarrow> j < n"
  by (auto simp: prefix_mask_def bit_simps)

lemma take_eq_iff_nth:
  "length xs = length ys \<Longrightarrow> take n xs = take n ys \<longleftrightarrow> (\<forall>j < length xs. j < n \<longrightarrow> xs ! j = ys ! j)"
  by (auto simp: list_eq_iff_nth_eq)

lemma word_eq_iff_rev: "(a :: 32 word) = b \<longleftrightarrow> (\<forall>j < 32. bit a (31 - j) = bit b (31 - j))"
proof
  assume *: "\<forall>j < 32. bit a (31 - j) = bit b (31 - j)"
  show "a = b"
  proof (rule bit_word_eqI)
    fix n assume "n < LENGTH(32)"
    then have "31 - (31 - n) = n" by simp
    then show "bit a n = bit b n" using * [rule_format, of "31 - n"] by simp
  qed
qed simp

lemma masked_eq_iff:
  assumes "length a = 4" and "length b = 4"
  shows "htonl (le32 a) AND prefix_mask n = htonl (le32 b) AND prefix_mask n
    \<longleftrightarrow> take n (addr_bits a) = take n (addr_bits b)"
  using assms
  by (auto simp: word_eq_iff_rev take_eq_iff_nth bit_and_iff bit_prefix_mask bit_le32)

lemma ipv4_in_network_iff:
  assumes "length a = 4" and "length b = 4"
  shows "ipv4_in_network (le32 a) (le32 b) p \<longleftrightarrow>
    0 \<le> p \<and> p \<le> 32 \<and> take (nat p) (addr_bits a) = take (nat p) (addr_bits b)"
proof -
  have "(ucast (push_bit (nat (32 - p)) (NOT 0 :: 64 word)) :: 32 word) = prefix_mask (nat p)" if "0 \<le> p" "p \<le> 32"
  proof -
    have n: "nat (32 - p) = 32 - nat p" using that by simp
    show ?thesis unfolding n by (rule bit_word_eqI) (auto simp: prefix_mask_def bit_simps)
  qed
  then show ?thesis
    using masked_eq_iff [OF assms] by (auto simp: ipv4_in_network_def Let_def)
qed

lemma ip6_mask_nth:
  assumes "k < 4"
  shows "ip6_mask p ! k = htonl (prefix_mask (p - 32 * k))"
proof -
  have ones: "htonl (prefix_mask n) = NOT 0" if "32 \<le> n" for n
    using that by (intro bit_word_eqI) (auto simp: prefix_mask_def bit_htonl bit_simps)
  have zero: "htonl (prefix_mask 0) = 0"
    by (rule bit_word_eqI) (auto simp: prefix_mask_def bit_htonl bit_simps)
  consider "k < p div 32" | "k = p div 32" | "p div 32 < k" by linarith
  then show ?thesis
  proof cases
    case 1
    then have "32 * Suc k \<le> p" by (metis Suc_leI div_times_less_eq_dividend dual_order.trans mult.commute mult_le_mono2)
    with 1 assms show ?thesis by (simp add: ip6_mask_def Let_def ones)
  next
    case 2
    then have "p - 32 * k = p mod 32" by (simp add: minus_mult_div_eq_mod)
    with 2 assms zero show ?thesis by (auto simp: ip6_mask_def Let_def prefix_mask_def)
  next
    case 3
    then have "p < 32 * k" by (metis div_less_iff_less_mult mult.commute zero_less_numeral)
    with 3 assms zero show ?thesis by (simp add: ip6_mask_def Let_def)
  qed
qed

lemma addr_bits_chunks:
  assumes "length a = 16"
  shows "addr_bits a = addr_bits (take 4 a) @ addr_bits (take 4 (drop 4 a))
    @ addr_bits (take 4 (drop 8 a)) @ addr_bits (take 4 (drop 12 a))"
proof -
  have "a = take 4 a @ take 4 (drop 4 a) @ take 4 (drop 8 a) @ take 4 (drop 12 a)"
    using assms append_take_drop_id [of 4 a] append_take_drop_id [of 4 "drop 4 a"] append_take_drop_id [of 4 "drop 8 a"]
    by (simp del: append_take_drop_id)
  then show ?thesis by (metis addr_bits_append)
qed

lemma ipv6_in_network_iff:
  assumes "length a = 16" and "length b = 16"
  shows "ipv6_in_network a b p \<longleftrightarrow>
    0 \<le> p \<and> p \<le> 128 \<and> take (nat p) (addr_bits a) = take (nat p) (addr_bits b)"
proof -
  have word: "ip6_words a ! k AND ip6_mask n ! k = ip6_words b ! k AND ip6_mask n ! k \<longleftrightarrow>
      take (n - 32 * k) (addr_bits (take 4 (drop (4 * k) a))) = take (n - 32 * k) (addr_bits (take 4 (drop (4 * k) b)))"
    if "k < 4" for n k
    using that assms by (simp add: ip6_mask_nth ip6_words_def AND_htonl_iff masked_eq_iff)
  have "list_all (\<lambda>i. ip6_words a ! i AND ip6_mask n ! i = ip6_words b ! i AND ip6_mask n ! i) [0..<4] \<longleftrightarrow>
      take n (addr_bits a) = take n (addr_bits b)" for n
    using assms word [of 0 n] word [of 1 n] word [of 2 n] word [of 3 n]
    by (simp add: upt_rec numeral_2_eq_2 numeral_3_eq_3 addr_bits_chunks [OF assms(1)] addr_bits_chunks [OF assms(2)])
  then show ?thesis by (auto simp: ipv6_in_network_def Let_def)
qed

subsection \<open>Basic authentication\<close>

lemma isspace_not_base64: "isspace c \<Longrightarrow> b64untable c = -1"
  by (auto simp: isspace_def b64untable_def Let_def)

lemma dropWhile_base64:
  assumes "base64_decode cs = Some bs" and "4 \<le> length cs"
  shows "dropWhile isspace cs = cs"
proof -
  from assms(2) obtain p0 p1 p2 p3 r where cs: "cs = p0 # p1 # p2 # p3 # r"
    by (cases cs; cases "tl cs"; cases "tl (tl cs)"; cases "tl (tl (tl cs))") auto
  with assms(1) have "b64untable p0 \<noteq> -1" by (auto simp: Let_def split: if_splits)
  with cs isspace_not_base64 show ?thesis by auto
qed

lemma dropWhile_base64_encode: "dropWhile isspace (base64_encode bs) = base64_encode bs"
proof (cases bs)
  case (Cons b bs')
  then have "4 \<le> length (base64_encode bs)" by (simp add: length_base64_encode base64_encode_len_def)
  then show ?thesis by (rule dropWhile_base64 [OF base64_decode_encode])
qed simp

lemma strchr_Basic: "take 6 hdr = ''Basic '' \<Longrightarrow> strchr hdr CHR '' '' = Some 5"
  using append_take_drop_id [of 6 hdr] strchr_append [of "CHR '' ''" "''Basic''" "drop 6 hdr"] by simp

lemma drop_Basic: "drop 5 (''Basic '' @ cs) = CHR '' '' # cs"
  by (simp add: eval_nat_numeral)

lemma auth_check_basic_1_iff:
  "auth_check_basic cc hdr rp = 1 \<longleftrightarrow>
    rp_auth_type rp = REMAP_AUTH_BASIC \<and>
    (\<exists>users cs bs. rp_users rp = Some users \<and> hdr = ''Basic '' @ cs \<and>
       base64_decode_len (length (dropWhile isspace cs)) \<le> 255 \<and>
       base64_decode (dropWhile isspace cs) = Some bs \<and> 3 \<le> length bs \<and>
       (\<exists>u pw h. cstr (map char_of_byte bs) = u @ CHR '':'' # pw \<and> CHR '':'' \<notin> set u \<and>
          hash_get users u = Some h \<and> cc pw h))" (is "?L \<longleftrightarrow> ?R")
proof
  assume L: ?L
  then obtain users where ty: "rp_auth_type rp = REMAP_AUTH_BASIC" and us: "rp_users rp = Some users"
    by (auto simp: auth_check_basic_def split: if_splits option.splits)
  have six: "take 6 hdr = ''Basic ''"
    using L by (auto simp: auth_check_basic_def Let_def split: if_splits option.splits)
  define cs where "cs = drop 6 hdr"
  have hdr: "hdr = ''Basic '' @ cs" using six append_take_drop_id [of 6 hdr] by (simp add: cs_def)
  have dw: "dropWhile isspace (drop 5 hdr) = dropWhile isspace cs"
    by (simp only: hdr drop_Basic) (simp add: isspace_def)
  from L ty us six obtain bs m where
    len: "base64_decode_len (length (dropWhile isspace cs)) \<le> 255"
    and bs: "base64_decode (dropWhile isspace cs) = Some bs" "3 \<le> length bs"
    and m: "strchr (cstr (map char_of_byte bs)) CHR '':'' = Some m"
    and pw: "auth_check_password cc users (take m (cstr (map char_of_byte bs))) (drop (Suc m) (cstr (map char_of_byte bs)))"
    unfolding auth_check_basic_def by (auto simp: strchr_Basic dw Let_def split: if_splits option.splits)
  from pw obtain h where h: "hash_get users (take m (cstr (map char_of_byte bs))) = Some h"
    "cc (drop (Suc m) (cstr (map char_of_byte bs))) h"
    by (auto simp: auth_check_password_def split: option.splits)
  show ?R using ty us hdr len bs h strchr_split [OF m] strchr_SomeD [OF m] by blast
next
  assume ?R
  then obtain users cs bs u pw h where R: "rp_auth_type rp = REMAP_AUTH_BASIC" "rp_users rp = Some users"
    "hdr = ''Basic '' @ cs" "base64_decode_len (length (dropWhile isspace cs)) \<le> 255"
    "base64_decode (dropWhile isspace cs) = Some bs" "3 \<le> length bs"
    "cstr (map char_of_byte bs) = u @ CHR '':'' # pw" "CHR '':'' \<notin> set u"
    "hash_get users u = Some h" "cc pw h" by blast
  have ne: "dropWhile isspace cs \<noteq> []"
  proof
    assume "dropWhile isspace cs = []"
    with R(5,6) show False by simp
  qed
  then have cs: "cs \<noteq> []" by auto
  then have "7 \<le> length hdr" using R(3) by (cases cs) auto
  moreover have "dropWhile isspace (drop 5 hdr) = dropWhile isspace cs"
    unfolding R(3) drop_Basic by (simp add: isspace_def)
  moreover have "take 6 hdr = ''Basic ''" by (simp add: R(3))
  ultimately show ?L
    using R ne cs strchr_Basic [of hdr] by (simp add: auth_check_basic_def auth_check_password_def Let_def)
qed

text \<open>One entry of an address list: an address, and a prefix length if there is a slash.\<close>

definition cidr :: "string \<Rightarrow> string \<Rightarrow> int option \<Rightarrow> bool" where
  "cidr t host pfx \<longleftrightarrow> CHR ''/'' \<notin> set host \<and>
     (case pfx of None \<Rightarrow> t = host | Some n \<Rightarrow> \<exists>l. t = host @ CHR ''/'' # l \<and> n = atoi l)"

lemma parse_auth_addr_ex:
  "(\<exists>e. parse_auth_addr p4 p6 t = Some e \<and> P e) \<longleftrightarrow> (\<exists>host pfx. cidr t host pfx \<and>
     ((\<exists>bs. p6 host = Some bs \<and> P \<lparr>ra_addr = Ra_v6 bs, ra_prefix_length = case_option 128 id pfx\<rparr>) \<or>
      (p6 host = None \<and> (\<exists>bs. p4 host = Some bs \<and>
         P \<lparr>ra_addr = Ra_v4 (le32 bs), ra_prefix_length = case_option 32 id pfx\<rparr>))))"
proof (cases "strchr t CHR ''/''")
  case None
  then have c: "cidr t host pfx \<longleftrightarrow> host = t \<and> pfx = None" for host pfx
    by (auto simp: cidr_def split: option.splits)
  have p: "parse_auth_addr p4 p6 t = (case p6 t of
      Some bs \<Rightarrow> Some \<lparr>ra_addr = Ra_v6 bs, ra_prefix_length = 128\<rparr>
    | None \<Rightarrow> (case p4 t of Some bs \<Rightarrow> Some \<lparr>ra_addr = Ra_v4 (le32 bs), ra_prefix_length = 32\<rparr> | None \<Rightarrow> None))"
    unfolding parse_auth_addr_def None by (simp cong: option.case_cong)
  show ?thesis unfolding c p by (cases "p6 t"; cases "p4 t") simp_all
next
  case (Some n)
  have c: "cidr t host pfx \<longleftrightarrow> host = take n t \<and> pfx = Some (atoi (drop (Suc n) t))" for host pfx
  proof
    assume "cidr t host pfx"
    then show "host = take n t \<and> pfx = Some (atoi (drop (Suc n) t))"
      using Some by (cases pfx) (auto simp: cidr_def strchr_absent)
  next
    assume "host = take n t \<and> pfx = Some (atoi (drop (Suc n) t))"
    then show "cidr t host pfx" using strchr_split [OF Some] strchr_SomeD [OF Some] by (auto simp: cidr_def)
  qed
  have p: "parse_auth_addr p4 p6 t = (case p6 (take n t) of
      Some bs \<Rightarrow> Some \<lparr>ra_addr = Ra_v6 bs, ra_prefix_length = atoi (drop (Suc n) t)\<rparr>
    | None \<Rightarrow> (case p4 (take n t) of Some bs \<Rightarrow> Some \<lparr>ra_addr = Ra_v4 (le32 bs), ra_prefix_length = atoi (drop (Suc n) t)\<rparr> | None \<Rightarrow> None))"
    unfolding parse_auth_addr_def Some by (simp cong: option.case_cong)
  show ?thesis unfolding c p by (cases "p6 (take n t)"; cases "p4 (take n t)") simp_all
qed

lemma auth_check_address_iff:
  assumes "rp_auth_addr_list rp = remap_path_get_addresses p4 p6 str"
  shows "auth_check_address addr rp \<longleftrightarrow>
    (\<exists>t \<in> set (strtok_all '','' str). \<exists>e. parse_auth_addr p4 p6 t = Some e \<and> auth_addr_match addr e)"
proof -
  have "y \<in> set (List.map_filter f xs) \<longleftrightarrow> (\<exists>x \<in> set xs. f x = Some y)" for y and f :: "string \<Rightarrow> remap_auth_addr option" and xs
    by (induction xs) (auto simp: map_filter_simps split: option.splits)
  with assms show ?thesis
    unfolding auth_check_address_def remap_path_get_addresses_eq list_ex_iff by (simp only: set_rev Bex_def) blast
qed

lemma v4_entry_iff:
  assumes "length a = 4" and "\<And>s bs. p4 s = Some bs \<Longrightarrow> length bs = 4"
  shows "(\<exists>e. parse_auth_addr p4 p6 t = Some e \<and> auth_addr_match (Sockaddr_in (le32 a)) e) \<longleftrightarrow>
    (\<exists>host pfx bs. cidr t host pfx \<and> p6 host = None \<and> p4 host = Some bs \<and>
       0 \<le> case_option 32 id pfx \<and> case_option 32 id pfx \<le> 32 \<and>
       take (nat (case_option 32 id pfx)) (addr_bits a) = take (nat (case_option 32 id pfx)) (addr_bits bs))"
  using assms by (simp add: parse_auth_addr_ex ipv4_in_network_iff cong: conj_cong)

lemma v6_entry_iff:
  assumes "length a = 16" and "\<And>s bs. p6 s = Some bs \<Longrightarrow> length bs = 16"
  shows "(\<exists>e. parse_auth_addr p4 p6 t = Some e \<and> auth_addr_match (Sockaddr_in6 a) e) \<longleftrightarrow>
    (\<exists>host pfx bs. cidr t host pfx \<and> p6 host = Some bs \<and>
       0 \<le> case_option 128 id pfx \<and> case_option 128 id pfx \<le> 128 \<and>
       take (nat (case_option 128 id pfx)) (addr_bits a) = take (nat (case_option 128 id pfx)) (addr_bits bs))"
  using assms by (simp add: parse_auth_addr_ex ipv6_in_network_iff cong: conj_cong)

lemma basic_accepts:
  assumes "rp_auth_type rp = REMAP_AUTH_BASIC" and "rp_users rp = Some users"
    and "hash_get users u = Some h" and "cc pw h"
    and "CHR '':'' \<notin> set u" and "NUL \<notin> set (u @ pw)"
    and "3 \<le> length (u @ '':'' @ pw)" and "length (u @ '':'' @ pw) \<le> 255"
  shows "auth_check_basic cc (''Basic '' @ base64_encode (map byte_of_char (u @ '':'' @ pw))) rp = 1"
proof -
  let ?t = "u @ '':'' @ pw"
  let ?e = "base64_encode (map byte_of_char ?t)"
  have "(length ?t + 2) div 3 \<le> 85" using assms(8) by linarith
  moreover have "(4 * k + 3) div 4 = k" for k :: nat by presburger
  ultimately have len: "base64_decode_len (length ?e) \<le> 255"
    unfolding length_base64_encode base64_decode_len_def base64_encode_len_def length_map by presburger
  have c: "cstr (map char_of_byte (map byte_of_char ?t)) = u @ CHR '':'' # pw"
    unfolding base64_encoded_text using assms(6) by (subst cstr_id) (auto simp: NUL_def)
  show ?thesis
    unfolding auth_check_basic_1_iff
    by (intro conjI exI [of _ users] exI [of _ ?e] exI [of _ "map byte_of_char ?t"] exI [of _ u] exI [of _ pw] exI [of _ h])
      (use assms len c in \<open>simp_all add: dropWhile_base64_encode del: base64_encode.simps map_map\<close>)
qed

lemma basic_header_iff:
  assumes "rp_auth_type rp = REMAP_AUTH_BASIC" and "rp_users rp = Some users"
    and "CHR '':'' \<notin> set u" and "NUL \<notin> set (u @ pw)"
    and "3 \<le> length (u @ '':'' @ pw)" and "length (u @ '':'' @ pw) \<le> 255"
  shows "auth_check_basic cc (''Basic '' @ base64_encode (map byte_of_char (u @ '':'' @ pw))) rp = 1 \<longleftrightarrow>
    (\<exists>h. hash_get users u = Some h \<and> cc pw h)" (is "?L \<longleftrightarrow> ?R")
proof
  let ?t = "u @ '':'' @ pw"
  assume ?L
  then obtain cs bs u' pw' h where R: "''Basic '' @ base64_encode (map byte_of_char ?t) = ''Basic '' @ cs"
    "base64_decode (dropWhile isspace cs) = Some bs" "cstr (map char_of_byte bs) = u' @ CHR '':'' # pw'" "CHR '':'' \<notin> set u'"
    "hash_get users u' = Some h" "cc pw' h" unfolding auth_check_basic_1_iff using assms(2) by auto
  from R(1) have "cs = base64_encode (map byte_of_char ?t)" by (simp del: base64_encode.simps)
  with R(2) have "bs = map byte_of_char ?t" by (simp add: dropWhile_base64_encode del: base64_encode.simps)
  then have "cstr (map char_of_byte bs) = ?t"
    unfolding base64_encoded_text using assms(4) by (simp only: base64_encoded_text) (subst cstr_id, auto simp: NUL_def)
  with R(3) have eq: "u' @ CHR '':'' # pw' = u @ CHR '':'' # pw" by simp
  have "Some (length u') = Some (length u)"
    using strchr_append [OF R(4), of pw'] strchr_append [OF assms(3), of pw] unfolding eq by simp
  with eq have "u' = u" "pw' = pw" by simp_all
  with R(5,6) show ?R by blast
next
  assume ?R
  then show ?L using basic_accepts [OF assms(1,2) _ _ assms(3-6)] by blast
qed

subsection \<open>Properties\<close>

text \<open>C16: Only a valid password opens a path that requires Basic authentication.  If the header check
  succeeds, the path requires Basic authentication and has a user database, the decoded credentials
  fit the 256-byte buffer with their terminator, they are \<open>user:password\<close> (up to a NUL byte), the
  user is in the database, and \<open>crypt_check\<close> accepts the password against the stored hash.\<close>

theorem auth_basic_sound:
  assumes "auth_check_basic crypt_check hdr rp = 1"
  shows "rp_auth_type rp = REMAP_AUTH_BASIC \<and>
    (\<exists>users cs bs u pw h. rp_users rp = Some users \<and> hdr = ''Basic '' @ cs \<and>
       base64_decode (dropWhile isspace cs) = Some bs \<and> length bs \<le> 255 \<and>
       cstr (map char_of_byte bs) = u @ '':'' @ pw \<and>
       hash_get users u = Some h \<and> crypt_check pw h)"
proof -
  from assms obtain users cs bs u pw h where R: "rp_auth_type rp = REMAP_AUTH_BASIC" "rp_users rp = Some users"
    "hdr = ''Basic '' @ cs" "base64_decode_len (length (dropWhile isspace cs)) \<le> 255"
    "base64_decode (dropWhile isspace cs) = Some bs" "3 \<le> length bs"
    "cstr (map char_of_byte bs) = u @ CHR '':'' # pw" "CHR '':'' \<notin> set u"
    "hash_get users u = Some h" "crypt_check pw h" unfolding auth_check_basic_1_iff by blast
  have "length bs \<le> 255"
    using length_base64_decode [OF R(5)] R(4) unfolding base64_decode_len_def by linarith
  with R show ?thesis by fastforce
qed

theorem auth_basic_sound_witness:
  "let rp = remap_path_default\<lparr>rp_auth_type := REMAP_AUTH_BASIC,
               rp_users := Some (hash_set (hash_new 127 True) ''bob'' ''h'')\<rparr>;
       hdr = ''Basic '' @ base64_encode (map byte_of_char ''bob:pw'')
   in auth_check_basic (\<lambda>pw h. pw = ''pw'') hdr rp = 1
    \<and> (\<exists>users cs bs u pw h. rp_users rp = Some users \<and> hdr = ''Basic '' @ cs \<and>
       base64_decode (dropWhile isspace cs) = Some bs \<and> length bs \<le> 255 \<and>
       cstr (map char_of_byte bs) = u @ '':'' @ pw \<and> hash_get users u = Some h \<and> pw = ''pw'')"
proof -
  let ?rp = "remap_path_default\<lparr>rp_auth_type := REMAP_AUTH_BASIC,
               rp_users := Some (hash_set (hash_new 127 True) ''bob'' ''h'')\<rparr>"
  let ?hdr = "''Basic '' @ base64_encode (map byte_of_char (''bob'' @ '':'' @ ''pw''))"
  have ok: "auth_check_basic (\<lambda>pw h. pw = ''pw'') ?hdr ?rp = 1"
    by (rule basic_accepts [where users = "hash_set (hash_new 127 True) ''bob'' ''h''" and h = "''h''"])
      (simp_all add: NUL_def)
  show ?thesis using ok auth_basic_sound [OF ok] by (simp add: Let_def del: base64_encode.simps)
qed

text \<open>C17: Valid credentials are accepted.  A client that sends the base64 text of \<open>user:password\<close> is
  let in whenever the user has no colon in the name, the text has no NUL byte, is 3 to 255 bytes
  long, and the password checks against the stored hash.\<close>

theorem auth_basic_complete:
  assumes "rp_auth_type rp = REMAP_AUTH_BASIC" and "rp_users rp = Some users"
    and "hash_get users u = Some h" and "crypt_check pw h"
    and "CHR '':'' \<notin> set u" and "NUL \<notin> set (u @ pw)"
    and "3 \<le> length (u @ '':'' @ pw)" and "length (u @ '':'' @ pw) \<le> 255"
  shows "auth_check_basic crypt_check (''Basic '' @ base64_encode (map byte_of_char (u @ '':'' @ pw))) rp = 1"
  using assms by (rule basic_accepts)

theorem auth_basic_complete_witness:
  "auth_check_basic (\<lambda>pw h. pw = h) (''Basic '' @ base64_encode (map byte_of_char (''bob'' @ '':'' @ ''pw'')))
     (remap_path_default\<lparr>rp_auth_type := REMAP_AUTH_BASIC,
        rp_users := Some (hash_set (hash_new 127 True) ''bob'' ''pw'')\<rparr>) = 1"
  by (rule auth_basic_complete [where users = "hash_set (hash_new 127 True) ''bob'' ''pw''" and h = "''pw''"])
    (simp_all add: NUL_def)

text \<open>C21: An address list admits exactly its networks.  For a path whose address list was read from the
  annotation text \<open>str\<close>, an IPv4 client is admitted exactly if one comma-separated entry is an IPv4
  address, with prefix length 32 or the one after a slash, that agrees with the client on that many leading
  bits; an IPv6 client likewise with IPv6 entries and 128.\<close>

theorem auth_address_correct:
  assumes "rp_auth_addr_list rp = remap_path_get_addresses inet_pton4 inet_pton6 str"
    and "\<And>s bs. inet_pton4 s = Some bs \<Longrightarrow> length bs = 4"
    and "\<And>s bs. inet_pton6 s = Some bs \<Longrightarrow> length bs = 16"
    and "length ip4 = 4" and "length ip6 = 16"
  shows "(auth_check_address (Sockaddr_in (le32 ip4)) rp \<longleftrightarrow>
      (\<exists>t \<in> set (strtok_all '','' str). \<exists>host pfx bs. cidr t host pfx \<and> inet_pton6 host = None \<and> inet_pton4 host = Some bs \<and>
         0 \<le> case_option 32 id pfx \<and> case_option 32 id pfx \<le> 32 \<and>
         take (nat (case_option 32 id pfx)) (addr_bits ip4) = take (nat (case_option 32 id pfx)) (addr_bits bs)))
    \<and> (auth_check_address (Sockaddr_in6 ip6) rp \<longleftrightarrow>
      (\<exists>t \<in> set (strtok_all '','' str). \<exists>host pfx bs. cidr t host pfx \<and> inet_pton6 host = Some bs \<and>
         0 \<le> case_option 128 id pfx \<and> case_option 128 id pfx \<le> 128 \<and>
         take (nat (case_option 128 id pfx)) (addr_bits ip6) = take (nat (case_option 128 id pfx)) (addr_bits bs)))"
  unfolding auth_check_address_iff [OF assms(1)]
  by (intro conjI bex_cong refl v4_entry_iff v6_entry_iff) (use assms in blast)+

theorem auth_address_correct_witness:
  "let p4 = (\<lambda>s. if s = ''10.0.0.0'' then Some [10, 0, 0, 0] else None);
       rp = remap_path_default\<lparr>rp_auth_addr_list := remap_path_get_addresses p4 (\<lambda>_. None) ''10.0.0.0/8''\<rparr>
   in auth_check_address (Sockaddr_in (le32 [10, 1, 2, 3])) rp
    \<and> \<not> auth_check_address (Sockaddr_in6 (replicate 16 0)) rp"
proof -
  let ?p4 = "\<lambda>s. if s = ''10.0.0.0'' then Some [10, 0, 0, 0 :: byte] else None"
  let ?rp = "remap_path_default\<lparr>rp_auth_addr_list := remap_path_get_addresses ?p4 (\<lambda>_. None) ''10.0.0.0/8''\<rparr>"
  have tok: "strtok_all '','' ''10.0.0.0/8'' = [''10.0.0.0/8'']" by (rule strtok_all_token_Nil) auto
  have cidr: "cidr ''10.0.0.0/8'' ''10.0.0.0'' (Some 8)"
    by (simp add: cidr_def atoi_def strtol10_def isspace_def isdigit_def)
  have bits: "take 8 (addr_bits [10, 1, 2, 3]) = take 8 (addr_bits [10, 0, 0, 0])"
    by (simp add: addr_bits_def)
  have p1: "rp_auth_addr_list ?rp = remap_path_get_addresses ?p4 (\<lambda>_. None) ''10.0.0.0/8''" by simp
  have p2: "\<And>s bs. ?p4 s = Some bs \<Longrightarrow> length bs = 4" by (auto split: if_splits)
  note R = auth_address_correct [of ?rp ?p4 "\<lambda>_. None" "''10.0.0.0/8''" "[10, 1, 2, 3]" "replicate 16 0", OF p1 p2]
  have ex: "\<exists>host pfx bs. cidr ''10.0.0.0/8'' host pfx \<and> ?p4 host = Some bs \<and>
         0 \<le> case_option 32 id pfx \<and> case_option 32 id pfx \<le> 32 \<and>
         take (nat (case_option 32 id pfx)) (addr_bits [10, 1, 2, 3]) = take (nat (case_option 32 id pfx)) (addr_bits bs)"
    by (rule exI [of _ "''10.0.0.0''"], rule exI [of _ "Some 8"], rule exI [of _ "[10, 0, 0, 0]"])
      (use cidr bits in simp)
  from R ex show ?thesis by (simp add: Let_def tok)
qed

end
