(* ===== verification/Objects.thy ===== *)
theory Objects
  imports Api Base64
begin

text \<open>
  The constructors of the cluster objects, \<^verbatim>\<open>api/ingress.c\<close>, \<^verbatim>\<open>api/service.c\<close>, \<^verbatim>\<open>api/endpoints.c\<close>,
  \<^verbatim>\<open>api/secret.c\<close> and \<^verbatim>\<open>api/configmap.c\<close>, which read the JSON objects the API server sends; the port lookup of
  a service, the comparison of two endpoints objects, and the TLS context made from a secret.  The
  JSON library and OpenSSL are records of functions that every definition takes as an argument.
\<close>

subsection \<open>The libraries\<close>

datatype json_type = json_type_null | json_type_boolean | json_type_double | json_type_int
  | json_type_object | json_type_array | json_type_string

text \<open>
  \<open>j_get\<close>: \<^verbatim>\<open>json_object_object_get_ex\<close>; \<open>j_is\<close>: \<^verbatim>\<open>json_object_is_type\<close>; \<open>j_string\<close>:
  \<^verbatim>\<open>json_object_get_string\<close> (NULL for a JSON null); \<open>j_int\<close>: \<^verbatim>\<open>json_object_get_int\<close>; \<open>j_length\<close>, \<open>j_idx\<close>: the
  array functions; \<open>j_object\<close>: the entries \<^verbatim>\<open>json_object_object_foreachC\<close> walks, which reads through the NULL
  table of a value that is no object.
\<close>

record 'j json_ops =
  j_get :: "'j \<Rightarrow> string \<Rightarrow> 'j option"
  j_is :: "'j \<Rightarrow> json_type \<Rightarrow> bool"
  j_string :: "'j \<Rightarrow> string option"
  j_int :: "'j \<Rightarrow> int"
  j_length :: "'j \<Rightarrow> nat"
  j_idx :: "'j \<Rightarrow> nat \<Rightarrow> 'j"
  j_object :: "'j \<Rightarrow> (string \<times> 'j) list option"

text \<open>What the library documents: the text of a string and the table of an object are not NULL, and the
  keys of an object are distinct.\<close>

definition json_documented :: "'j json_ops \<Rightarrow> bool" where
  "json_documented J \<longleftrightarrow> (\<forall>t. j_is J t json_type_string \<longrightarrow> j_string J t \<noteq> None)
     \<and> (\<forall>t. j_is J t json_type_object \<longrightarrow> j_object J t \<noteq> None)
     \<and> (\<forall>t es. j_object J t = Some es \<longrightarrow> distinct (map fst es))"

text \<open>
  OpenSSL as \<^verbatim>\<open>secret_make_ssl_ctx\<close> uses it: a new context, reading the next certificate or the key
  from the rest of a PEM buffer, and adding them to the context (None: the call fails).
\<close>

record ('c, 'x, 'k) ssl_ops =
  ssl_ctx_new :: "'c option"
  pem_read_x509 :: "byte list \<Rightarrow> ('x \<times> byte list) option"
  ssl_use_certificate :: "'c \<Rightarrow> 'x \<Rightarrow> 'c option"
  ssl_add_chain_cert :: "'c \<Rightarrow> 'x \<Rightarrow> 'c option"
  pem_read_key :: "byte list \<Rightarrow> 'k option"
  ssl_use_key :: "'c \<Rightarrow> 'k \<Rightarrow> 'c option"

subsection \<open>Reading JSON\<close>

text \<open>The two ways the sources read a string: with a check of the type, and without.\<close>

definition json_str :: "'j json_ops \<Rightarrow> 'j \<Rightarrow> string \<Rightarrow> string option res" where
  "json_str J obj k =
     (case j_get J obj k of
        None \<Rightarrow> Inr None
      | Some t \<Rightarrow>
          if j_is J t json_type_string then res_bind (deref (j_string J t)) (\<lambda>s. Inr (Some s)) else Inr None)"

definition json_any :: "'j json_ops \<Rightarrow> 'j \<Rightarrow> string \<Rightarrow> string option res" where
  "json_any J obj k =
     (case j_get J obj k of
        None \<Rightarrow> Inr None
      | Some t \<Rightarrow> res_bind (deref (j_string J t)) (\<lambda>s. Inr (Some s)))"

definition json_num :: "'j json_ops \<Rightarrow> 'j \<Rightarrow> string \<Rightarrow> int option" where
  "json_num J obj k =
     (case j_get J obj k of
        None \<Rightarrow> None
      | Some t \<Rightarrow> if j_is J t json_type_int then Some (j_int J t) else None)"

definition json_elems :: "'j json_ops \<Rightarrow> 'j \<Rightarrow> 'j list" where
  "json_elems J a = map (j_idx J a) [0..<j_length J a]"

definition json_array :: "'j json_ops \<Rightarrow> 'j \<Rightarrow> string \<Rightarrow> 'j list" where
  "json_array J obj k =
     (case j_get J obj k of
        None \<Rightarrow> []
      | Some t \<Rightarrow> if j_is J t json_type_array then json_elems J t else [])"

fun res_map :: "('a \<Rightarrow> 'b res) \<Rightarrow> 'a list \<Rightarrow> 'b list res" where
  "res_map f [] = Inr []"
| "res_map f (x # xs) = res_bind (f x) (\<lambda>y. res_bind (res_map f xs) (\<lambda>ys. Inr (y # ys)))"

text \<open>Namespace and name, which every object must have; None is the error path.\<close>

definition object_meta :: "'j json_ops \<Rightarrow> 'j \<Rightarrow> (string \<times> string) option res" where
  "object_meta J obj =
     (case j_get J obj ''metadata'' of
        None \<Rightarrow> Inr None
      | Some m \<Rightarrow>
          if \<not> j_is J m json_type_object then Inr None
          else res_bind (json_str J m ''namespace'') (\<lambda>ns.
            case ns of
              None \<Rightarrow> Inr None
            | Some ns \<Rightarrow> res_bind (json_str J m ''name'') (\<lambda>n. Inr (map_option (Pair ns) n))))"

text \<open>A table of strings: without a type check of the values, and with one.\<close>

definition set_any :: "'j json_ops \<Rightarrow> string \<times> 'j \<Rightarrow> string hash \<Rightarrow> string hash res" where
  "set_any J kv h = res_bind (deref (j_string J (snd kv))) (\<lambda>s. Inr (hash_set h (fst kv) s))"

definition set_str :: "'j json_ops \<Rightarrow> string \<times> 'j \<Rightarrow> string hash \<Rightarrow> string hash res" where
  "set_str J kv h = (if j_is J (snd kv) json_type_string then set_any J kv h else Inr h)"

definition json_table :: "'j json_ops \<Rightarrow> 'j \<Rightarrow> string \<Rightarrow> string hash \<Rightarrow> string hash res" where
  "json_table J obj k h =
     (case j_get J obj k of
        None \<Rightarrow> Inr h
      | Some t \<Rightarrow> res_bind (deref (j_object J t)) (\<lambda>es. res_fold (set_any J) es h))"

definition json_data :: "'j json_ops \<Rightarrow> 'j \<Rightarrow> string hash \<Rightarrow> string hash res" where
  "json_data J obj h =
     (case j_get J obj ''data'' of
        None \<Rightarrow> Inr h
      | Some d \<Rightarrow>
          if \<not> j_is J d json_type_object then Inr h
          else res_bind (deref (j_object J d)) (\<lambda>es. res_fold (set_str J) es h))"

subsection \<open>Secrets and ConfigMaps\<close>

definition secret_make :: "'j json_ops \<Rightarrow> 'j \<Rightarrow> secret_t option res" where
  "secret_make J obj =
     res_bind (object_meta J obj) (\<lambda>meta.
     case meta of
       None \<Rightarrow> Inr None
     | Some (ns, name) \<Rightarrow>
         res_bind (json_str J obj ''type'') (\<lambda>ty.
         case ty of
           None \<Rightarrow> Inr None
         | Some ty \<Rightarrow>
             res_bind (json_data J obj (hash_new 127 True)) (\<lambda>data.
             Inr (Some \<lparr>se_name = name, se_namespace = ns, se_type = ty, se_data = data\<rparr>))))"

definition configmap_make :: "'j json_ops \<Rightarrow> 'j \<Rightarrow> configmap_t option res" where
  "configmap_make J obj =
     res_bind (object_meta J obj) (\<lambda>meta.
     case meta of
       None \<Rightarrow> Inr None
     | Some (ns, name) \<Rightarrow>
         res_bind (json_data J obj (hash_new 127 True)) (\<lambda>data.
         Inr (Some \<lparr>cm_name = name, cm_namespace = ns, cm_data = data\<rparr>)))"

text \<open>
  The TLS context.  A failed \<^verbatim>\<open>base64_decode\<close> returns -1, which becomes the length of the memory BIO;
  OpenSSL then takes the buffer as a NUL-terminated string and reads past what was stored in it.
\<close>

partial_function (option) add_chain :: "('c, 'x, 'k) ssl_ops \<Rightarrow> byte list \<Rightarrow> 'c \<Rightarrow> 'c option option" where
  "add_chain S bio ctx =
     (case pem_read_x509 S bio of
        None \<Rightarrow> Some (Some ctx)
      | Some (cert, rest) \<Rightarrow>
          (case ssl_add_chain_cert S ctx cert of
             None \<Rightarrow> Some None
           | Some ctx' \<Rightarrow> add_chain S rest ctx'))"

definition secret_make_ssl_ctx :: "('c, 'x, 'k) ssl_ops \<Rightarrow> secret_t \<Rightarrow> 'c option res" where
  "secret_make_ssl_ctx S secret =
     (case hash_get (se_data secret) ''tls.crt'' of
        None \<Rightarrow> Inr None
      | Some certb64 \<Rightarrow>
          (case hash_get (se_data secret) ''tls.key'' of
             None \<Rightarrow> Inr None
           | Some keyb64 \<Rightarrow>
               (case ssl_ctx_new S of
                  None \<Rightarrow> Inr None
                | Some ctx \<Rightarrow>
                    (case base64_decode certb64 of
                       None \<Rightarrow> Inl Out_Of_Bounds
                     | Some certstr \<Rightarrow>
                         (case pem_read_x509 S certstr of
                            None \<Rightarrow> Inr None
                          | Some (cert, rest) \<Rightarrow>
                              (case ssl_use_certificate S ctx cert of
                                 None \<Rightarrow> Inr None
                               | Some ctx \<Rightarrow>
                                   (case add_chain S rest ctx of
                                      None \<Rightarrow> Inl Diverges
                                    | Some None \<Rightarrow> Inr None
                                    | Some (Some ctx) \<Rightarrow>
                                        (case base64_decode keyb64 of
                                           None \<Rightarrow> Inl Out_Of_Bounds
                                         | Some keystr \<Rightarrow>
                                             (case pem_read_key S keystr of
                                                None \<Rightarrow> Inr None
                                              | Some key \<Rightarrow> Inr (ssl_use_key S ctx key))))))))))"

subsection \<open>Services\<close>

definition service_port_make :: "'j json_ops \<Rightarrow> 'j \<Rightarrow> service_port_t res" where
  "service_port_make J jport =
     res_bind (json_str J jport ''name'') (\<lambda>name.
     res_bind (json_str J jport ''protocol'') (\<lambda>proto.
     let port = (case json_num J jport ''port'' of None \<Rightarrow> 0 | Some n \<Rightarrow> n) in
     Inr \<lparr>sp_name = (case name of None \<Rightarrow> [] | Some s \<Rightarrow> s),
          sp_port = port,
          sp_target_port = (case json_num J jport ''targetPort'' of None \<Rightarrow> port | Some n \<Rightarrow> n),
          sp_protocol = (if proto = Some ''UDP'' then SV_P_UDP else SV_P_TCP)\<rparr>))"

definition service_add_port :: "'j json_ops \<Rightarrow> 'j \<Rightarrow> service_port_t hash \<Rightarrow> service_port_t hash res" where
  "service_add_port J jport h = res_bind (service_port_make J jport) (\<lambda>p. Inr (hash_set h (sp_name p) p))"

definition service_make :: "'j json_ops \<Rightarrow> 'j \<Rightarrow> service_t option res" where
  "service_make J obj =
     res_bind (object_meta J obj) (\<lambda>meta.
     case meta of
       None \<Rightarrow> Inr None
     | Some (ns, name) \<Rightarrow>
         (let svc = \<lparr>sv_name = name, sv_namespace = ns, sv_type = None, sv_cluster_ip = None,
                     sv_session_affinity = None, sv_external_name = None, sv_selector = None, sv_ports = None\<rparr> in
          case j_get J obj ''spec'' of
            None \<Rightarrow> Inr (Some svc)
          | Some spec \<Rightarrow>
              if \<not> j_is J spec json_type_object then Inr (Some svc)
              else res_bind (json_any J spec ''type'') (\<lambda>ty.
                res_bind (json_any J spec ''clusterIP'') (\<lambda>ip.
                res_bind (json_any J spec ''sessionAffinity'') (\<lambda>aff.
                res_bind (json_any J spec ''externalName'') (\<lambda>ext.
                res_bind (json_table J spec ''selector'' (hash_new 127 True)) (\<lambda>sel.
                res_bind (res_fold (service_add_port J) (json_array J spec ''ports'') (hash_new 127 True)) (\<lambda>ports.
                Inr (Some (svc\<lparr>sv_type := ty, sv_cluster_ip := ip, sv_session_affinity := aff,
                                sv_external_name := ext, sv_selector := Some sel, sv_ports := Some ports\<rparr>))))))))))"

definition port_matches :: "string \<Rightarrow> service_proto_t \<Rightarrow> service_port_t \<Rightarrow> bool" where
  "port_matches name proto port \<longleftrightarrow> sp_protocol port = proto \<and>
     (name = sp_name port \<or> atoi name \<noteq> 0 \<and> atoi name = sp_port port)"

definition service_find_port :: "service_t \<Rightarrow> string \<Rightarrow> service_proto_t \<Rightarrow> service_port_t option res" where
  "service_find_port service name proto =
     (case sv_ports service of
        None \<Rightarrow> Inl Assert_Failed
      | Some ports \<Rightarrow> Inr (List.find (port_matches name proto) (map snd (hash_foreach ports))))"

subsection \<open>Endpoints\<close>

definition endpoints_port_make :: "'j json_ops \<Rightarrow> 'j \<Rightarrow> endpoints_port_t res" where
  "endpoints_port_make J port =
     res_bind (json_str J port ''name'') (\<lambda>name.
     res_bind (json_str J port ''protocol'') (\<lambda>proto.
     Inr \<lparr>et_name = (case name of None \<Rightarrow> [] | Some s \<Rightarrow> s),
          et_port = (case json_num J port ''port'' of None \<Rightarrow> 0 | Some n \<Rightarrow> n),
          et_protocol = (case proto of None \<Rightarrow> ''TCP'' | Some s \<Rightarrow> s)\<rparr>))"

definition endpoints_add_port :: "'j json_ops \<Rightarrow> 'j \<Rightarrow> endpoints_port_t hash \<Rightarrow> endpoints_port_t hash res" where
  "endpoints_add_port J port h = res_bind (endpoints_port_make J port) (\<lambda>p. Inr (hash_set h (et_name p) p))"

definition endpoints_address_make :: "'j json_ops \<Rightarrow> 'j \<Rightarrow> endpoints_address_t res" where
  "endpoints_address_make J address =
     res_bind (json_str J address ''ip'') (\<lambda>ip.
     res_bind (json_str J address ''nodeName'') (\<lambda>node.
     Inr \<lparr>ea_ip = ip, ea_nodename = node\<rparr>))"

definition endpoints_subset_make :: "'j json_ops \<Rightarrow> 'j \<Rightarrow> endpoints_subset_t res" where
  "endpoints_subset_make J ss =
     res_bind (res_fold (endpoints_add_port J) (json_array J ss ''ports'') (hash_new 7 True)) (\<lambda>ports.
     res_bind (res_map (endpoints_address_make J) (json_array J ss ''addresses'')) (\<lambda>addrs.
     Inr \<lparr>es_addrs = addrs, es_ports = ports\<rparr>))"

definition endpoints_make :: "'j json_ops \<Rightarrow> 'j \<Rightarrow> endpoints_t option res" where
  "endpoints_make J obj =
     res_bind (object_meta J obj) (\<lambda>meta.
     case meta of
       None \<Rightarrow> Inr None
     | Some (ns, name) \<Rightarrow>
         res_bind (res_map (endpoints_subset_make J) (json_array J obj ''subsets'')) (\<lambda>subsets.
         Inr (Some \<lparr>ep_name = name, ep_namespace = ns, ep_subsets = subsets\<rparr>)))"

definition opt_str_equal :: "string option \<Rightarrow> string option \<Rightarrow> bool" where
  "opt_str_equal a b =
     (case a of
        None \<Rightarrow> (case b of None \<Rightarrow> True | Some _ \<Rightarrow> False)
      | Some x \<Rightarrow> (case b of None \<Rightarrow> False | Some y \<Rightarrow> x = y))"

fun addrs_equal :: "endpoints_address_t list \<Rightarrow> endpoints_address_t list \<Rightarrow> bool" where
  "addrs_equal (a # as) (b # bs) =
     (opt_str_equal (ea_ip a) (ea_ip b) \<and> opt_str_equal (ea_nodename a) (ea_nodename b) \<and> addrs_equal as bs)"
| "addrs_equal _ _ = True"

text \<open>The two iterations advance together; the loop stops at the first difference.\<close>

fun ports_equal :: "(string \<times> endpoints_port_t) list \<Rightarrow> (string \<times> endpoints_port_t) list \<Rightarrow> bool" where
  "ports_equal [] [] = True"
| "ports_equal ((ka, pa) # as) ((kb, pb) # bs) =
     (length ka = length kb \<and> ka = kb \<and> et_name pa = et_name pb \<and> et_protocol pa = et_protocol pb
      \<and> et_port pa = et_port pb \<and> ports_equal as bs)"
| "ports_equal _ _ = False"

fun subsets_equal :: "endpoints_subset_t list \<Rightarrow> endpoints_subset_t list \<Rightarrow> bool" where
  "subsets_equal (a # as) (b # bs) =
     (length (es_addrs a) = length (es_addrs b) \<and> addrs_equal (es_addrs a) (es_addrs b)
      \<and> ports_equal (hash_foreach (es_ports a)) (hash_foreach (es_ports b)) \<and> subsets_equal as bs)"
| "subsets_equal _ _ = True"

definition endpoints_equal :: "endpoints_t \<Rightarrow> endpoints_t \<Rightarrow> bool" where
  "endpoints_equal a b \<longleftrightarrow> ep_name a = ep_name b \<and> ep_namespace a = ep_namespace b
     \<and> length (ep_subsets a) = length (ep_subsets b) \<and> subsets_equal (ep_subsets a) (ep_subsets b)"

subsection \<open>Ingresses\<close>

definition ingress_path_make :: "'j json_ops \<Rightarrow> 'j \<Rightarrow> ingress_path_t res" where
  "ingress_path_make J obj =
     res_bind (json_str J obj ''path'') (\<lambda>path.
     case j_get J obj ''backend'' of
       None \<Rightarrow> Inr \<lparr>ip_path = path, ip_service_name = None, ip_service_port = None\<rparr>
     | Some backend \<Rightarrow>
         res_bind (json_str J backend ''serviceName'') (\<lambda>name.
         res_bind (json_any J backend ''servicePort'') (\<lambda>port.
         Inr \<lparr>ip_path = path, ip_service_name = name, ip_service_port = port\<rparr>)))"

definition ingress_rule_make :: "'j json_ops \<Rightarrow> 'j \<Rightarrow> ingress_rule_t res" where
  "ingress_rule_make J obj =
     res_bind (json_str J obj ''host'') (\<lambda>host.
     case j_get J obj ''http'' of
       None \<Rightarrow> Inr \<lparr>ir_host = host, ir_paths = []\<rparr>
     | Some http \<Rightarrow>
         res_bind (res_map (ingress_path_make J) (json_array J http ''paths'')) (\<lambda>paths.
         Inr \<lparr>ir_host = host, ir_paths = paths\<rparr>))"

definition ingress_tls_make :: "'j json_ops \<Rightarrow> 'j \<Rightarrow> ingress_tls_t res" where
  "ingress_tls_make J atls =
     res_bind (json_str J atls ''secretName'') (\<lambda>name.
     case j_get J atls ''hosts'' of
       None \<Rightarrow> Inr \<lparr>it_secret_name = name, it_hosts = []\<rparr>
     | Some hosts \<Rightarrow>
         res_bind (res_map (\<lambda>h. deref (j_string J h)) (json_elems J hosts)) (\<lambda>hs.
         Inr \<lparr>it_secret_name = name, it_hosts = hs\<rparr>))"

definition ingress_make :: "'j json_ops \<Rightarrow> 'j \<Rightarrow> ingress_t option res" where
  "ingress_make J obj =
     res_bind (object_meta J obj) (\<lambda>meta.
     case (meta, j_get J obj ''metadata'') of
       (Some (ns, name), Some metadata) \<Rightarrow>
         res_bind (json_table J metadata ''annotations'' (hash_new 127 True)) (\<lambda>ann.
         let ing = \<lparr>in_name = name, in_namespace = ns, in_tls = [], in_rules = [], in_annotations = ann\<rparr> in
         case j_get J obj ''spec'' of
           None \<Rightarrow> Inr (Some ing)
         | Some spec \<Rightarrow>
             if \<not> j_is J spec json_type_object then Inr (Some ing)
             else res_bind (res_map (ingress_tls_make J) (json_array J spec ''tls'')) (\<lambda>tls.
               res_bind (res_map (ingress_rule_make J) (json_array J spec ''rules'')) (\<lambda>rules.
               Inr (Some (ing\<lparr>in_tls := tls, in_rules := rules\<rparr>)))))
     | _ \<Rightarrow> Inr None)"

subsection \<open>Lemmas\<close>

lemma res_map_total: "(\<And>x. x \<in> set xs \<Longrightarrow> \<exists>y. f x = Inr y) \<Longrightarrow> \<exists>ys. res_map f xs = Inr ys"
proof (induction xs)
  case (Cons x xs)
  obtain y where "f x = Inr y" using Cons.prems [of x] by auto
  moreover obtain ys where "res_map f xs = Inr ys" using Cons by auto
  ultimately show ?case by simp
qed simp

lemma res_map_Inr: "res_map f xs = Inr ys \<Longrightarrow> list_all2 (\<lambda>x y. f x = Inr y) xs ys"
  by (induction xs arbitrary: ys) auto

lemma res_map_mem: "res_map f xs = Inr ys \<Longrightarrow> y \<in> set ys \<Longrightarrow> \<exists>x \<in> set xs. f x = Inr y"
  by (induction xs arbitrary: ys) auto

lemma find_SomeD: "List.find P xs = Some x \<Longrightarrow> x \<in> set xs \<and> P x"
  by (induction xs) (auto split: if_splits)

lemma opt_str_equal_iff [simp]: "opt_str_equal a b \<longleftrightarrow> a = b"
  by (simp add: opt_str_equal_def split: option.splits)

lemma addrs_equal_iff: "length as = length bs \<Longrightarrow> addrs_equal as bs \<longleftrightarrow> as = bs"
  by (induction as bs rule: addrs_equal.induct) auto

lemma ports_equal_iff: "ports_equal as bs \<longleftrightarrow> as = bs"
  by (induction as bs rule: ports_equal.induct) auto

lemma subsets_equal_iff:
  "length as = length bs \<Longrightarrow> subsets_equal as bs \<longleftrightarrow>
   list_all2 (\<lambda>a b. es_addrs a = es_addrs b \<and> hash_foreach (es_ports a) = hash_foreach (es_ports b)) as bs"
  by (induction as bs rule: subsets_equal.induct) (auto simp: addrs_equal_iff ports_equal_iff)

lemma endpoints_equal_iff:
  "endpoints_equal a b \<longleftrightarrow> ep_name a = ep_name b \<and> ep_namespace a = ep_namespace b \<and>
    list_all2 (\<lambda>a b. es_addrs a = es_addrs b \<and> hash_foreach (es_ports a) = hash_foreach (es_ports b))
      (ep_subsets a) (ep_subsets b)"
  by (auto simp: endpoints_equal_def subsets_equal_iff list_all2_lengthD)

lemma hash_get_foreach: "hash_ok h \<Longrightarrow> hash_get h k = map_of (hash_foreach h) k"
proof -
  assume "hash_ok h"
  then have "hash_vals h k = map snd (filter (\<lambda>e. fst e = k) (hash_foreach h))" by (simp add: ht.entries_vals)
  moreover have "map_of es k = (case map snd (filter (\<lambda>e. fst e = k) es) of [] \<Rightarrow> None | v # _ \<Rightarrow> Some v)"
    for es :: "(string \<times> 'a) list"
    by (induction es) (auto split: list.splits)
  ultimately show ?thesis by (simp add: ht.get_vals)
qed

text \<open>Reading never faults where the type of a value is checked.\<close>

lemma json_str_total: "json_documented J \<Longrightarrow> \<exists>r. json_str J obj k = Inr r"
  by (auto simp: json_str_def json_documented_def split: option.splits)

lemma object_meta_total:
  assumes "json_documented J"
  shows "\<exists>r. object_meta J obj = Inr r"
proof (cases "j_get J obj ''metadata''")
  case (Some m)
  obtain ns n where "json_str J m ''namespace'' = Inr ns" "json_str J m ''name'' = Inr n"
    using json_str_total [OF assms] by blast
  with Some show ?thesis by (cases ns) (simp_all add: object_meta_def)
qed (simp add: object_meta_def)

lemma set_any_ok: "set_any J kv h = Inr h' \<Longrightarrow> hash_ok h \<Longrightarrow> hash_ok h'"
  by (auto simp: set_any_def)

lemma set_str_total: "json_documented J \<Longrightarrow> \<exists>h'. set_str J kv h = Inr h'"
  by (auto simp: set_str_def set_any_def json_documented_def)

lemma set_fold_unique:
  assumes "\<And>kv h h'. f kv h = Inr h' \<Longrightarrow> h' = h \<or> (\<exists>v. h' = hash_set h (fst kv) v)"
    and "distinct (map fst es)" and "hash_unique h" and "\<And>k. k \<in> fst ` set es \<Longrightarrow> hash_vals h k = []"
    and "res_fold f es h = Inr h'"
  shows "hash_unique h'"
  using assms(2-5)
proof (induction es arbitrary: h)
  case (Cons e es)
  from Cons.prems(4) obtain h1 where h1: "f e h = Inr h1" "res_fold f es h1 = Inr h'" by auto
  define K where "K = fst ` set es"
  have "fst e \<notin> K" "\<And>k. k = fst e \<or> k \<in> K \<Longrightarrow> hash_vals h k = []"
    using Cons.prems(1,3) by (auto simp: K_def)
  with assms(1) [OF h1(1)] Cons.prems(2) have "hash_unique h1 \<and> (\<forall>k. k \<in> K \<longrightarrow> hash_vals h1 k = [])"
    by (auto simp: ht.vals_push)
  then have "hash_unique h1 \<and> (\<forall>k. k \<in> fst ` set es \<longrightarrow> hash_vals h1 k = [])" unfolding K_def .
  with Cons.IH [OF _ _ _ h1(2)] Cons.prems(1) show ?case by simp
qed simp

lemma json_table_unique:
  assumes "json_documented J" and "json_table J obj k (hash_new 127 True) = Inr h"
  shows "hash_unique h"
proof (cases "j_get J obj k")
  case None
  with assms(2) show ?thesis by (auto simp: json_table_def)
next
  case (Some t)
  with assms(2) obtain es where es: "j_object J t = Some es" "res_fold (set_any J) es (hash_new 127 True) = Inr h"
    by (auto simp: json_table_def)
  from es(1) assms(1) have "distinct (map fst es)" by (simp add: json_documented_def)
  then show ?thesis
    by (rule set_fold_unique [OF _ _ _ _ es(2), rotated]) (auto simp: set_any_def)
qed

lemma json_data_unique:
  assumes "json_documented J" and "json_data J obj (hash_new 127 True) = Inr h"
  shows "hash_unique h"
proof (cases "\<exists>d es. j_get J obj ''data'' = Some d \<and> j_object J d = Some es \<and> j_is J d json_type_object")
  case False
  with assms show ?thesis
    by (auto simp: json_data_def json_documented_def split: option.splits if_splits)
next
  case True
  with assms(2) obtain t es where es: "j_object J t = Some es" "res_fold (set_str J) es (hash_new 127 True) = Inr h"
    by (auto simp: json_data_def)
  from es(1) assms(1) have "distinct (map fst es)" by (simp add: json_documented_def)
  then show ?thesis
    by (rule set_fold_unique [OF _ _ _ _ es(2), rotated]) (auto simp: set_str_def set_any_def split: if_splits)
qed

lemma json_data_total: "json_documented J \<Longrightarrow> \<exists>h'. json_data J obj h = Inr h'"
  unfolding json_data_def
proof (split option.split, intro conjI impI allI)
  fix d assume J: "json_documented J" and "j_get J obj ''data'' = Some d"
  show "\<exists>h'. (if \<not> j_is J d json_type_object then Inr h
      else res_bind (deref (j_object J d)) (\<lambda>es. res_fold (set_str J) es h)) = Inr h'"
  proof (cases "j_is J d json_type_object")
    case True
    then obtain es where "j_object J d = Some es" using J by (auto simp: json_documented_def)
    moreover obtain h' where "res_fold (set_str J) es h = Inr h'"
      using res_fold_total [of es "\<lambda>_. True" "set_str J" h] set_str_total [OF J] by auto
    ultimately show ?thesis by simp
  qed simp
qed simp

lemma service_ports_ok:
  "hash_ok h \<Longrightarrow> res_fold (service_add_port J) ps h = Inr h' \<Longrightarrow> hash_ok h'"
  by (rule res_fold_invariant [where I = hash_ok and f = "service_add_port J"]) (auto simp: service_add_port_def)

lemma endpoints_ports_ok:
  "hash_ok h \<Longrightarrow> res_fold (endpoints_add_port J) ps h = Inr h' \<Longrightarrow> hash_ok h'"
  by (rule res_fold_invariant [where I = hash_ok and f = "endpoints_add_port J"]) (auto simp: endpoints_add_port_def)

lemma endpoints_add_port_total: "json_documented J \<Longrightarrow> \<exists>h'. endpoints_add_port J p h = Inr h'"
  using json_str_total [of J p "''name''"] json_str_total [of J p "''protocol''"]
  by (auto simp: endpoints_add_port_def endpoints_port_make_def)

lemma endpoints_subset_total: "json_documented J \<Longrightarrow> \<exists>s. endpoints_subset_make J ss = Inr s"
proof -
  assume J: "json_documented J"
  obtain h where "res_fold (endpoints_add_port J) (json_array J ss ''ports'') (hash_new 7 True) = Inr h"
    using res_fold_total [of "json_array J ss ''ports''" "\<lambda>_. True" "endpoints_add_port J"]
      endpoints_add_port_total [OF J] by blast
  moreover have "\<exists>y. endpoints_address_make J x = Inr y" for x
    using json_str_total [OF J, of x "''ip''"] json_str_total [OF J, of x "''nodeName''"]
    by (auto simp: endpoints_address_make_def)
  then obtain as where "res_map (endpoints_address_make J) (json_array J ss ''addresses'') = Inr as"
    using res_map_total [of "json_array J ss ''addresses''" "endpoints_address_make J"] by blast
  ultimately show ?thesis by (simp add: endpoints_subset_make_def)
qed

lemma ingress_make_wf:
  assumes "json_documented J" and "ingress_make J obj = Inr (Some ing)"
  shows "hash_unique (in_annotations ing)"
proof -
  from assms(2) obtain m where "json_table J m ''annotations'' (hash_new 127 True) = Inr (in_annotations ing)"
    unfolding ingress_make_def
    by (auto simp: Let_def simp del: res_bind_Inr_iff elim!: res_bind_Inr_E split: option.splits if_splits prod.splits)
  from json_table_unique [OF assms(1) this] show ?thesis .
qed

lemma secret_make_wf:
  assumes "json_documented J" and "secret_make J obj = Inr (Some se)"
  shows "hash_unique (se_data se)"
proof -
  from assms(2) have "json_data J obj (hash_new 127 True) = Inr (se_data se)"
    unfolding secret_make_def by (auto split: option.splits prod.splits)
  from json_data_unique [OF assms(1) this] show ?thesis .
qed

lemma configmap_make_wf:
  assumes "json_documented J" and "configmap_make J obj = Inr (Some cm)"
  shows "hash_unique (cm_data cm)"
proof -
  from assms(2) have "json_data J obj (hash_new 127 True) = Inr (cm_data cm)"
    unfolding configmap_make_def by (auto split: option.splits prod.splits)
  from json_data_unique [OF assms(1) this] show ?thesis .
qed

lemma service_make_wf:
  assumes "service_make J obj = Inr (Some svc)" and "sv_ports svc = Some ports"
  shows "hash_ok ports"
proof -
  from assms obtain ps where "res_fold (service_add_port J) ps (hash_new 127 True) = Inr ports"
    unfolding service_make_def
    by (auto simp: Let_def simp del: res_bind_Inr_iff elim!: res_bind_Inr_E split: option.splits if_splits prod.splits)
  then show ?thesis by (rule service_ports_ok [rotated]) simp
qed

lemma endpoints_make_wf:
  assumes "endpoints_make J obj = Inr (Some eps)" and "es \<in> set (ep_subsets eps)"
  shows "hash_ok (es_ports es)"
proof -
  from assms(1) obtain ss where "res_map (endpoints_subset_make J) ss = Inr (ep_subsets eps)"
    unfolding endpoints_make_def by (auto split: option.splits prod.splits)
  from res_map_mem [OF this assms(2)] obtain s where "endpoints_subset_make J s = Inr es" by blast
  then obtain ps where "res_fold (endpoints_add_port J) ps (hash_new 7 True) = Inr (es_ports es)"
    by (auto simp: endpoints_subset_make_def)
  then show ?thesis by (rule endpoints_ports_ok [rotated]) simp
qed

subsection \<open>A JSON value type\<close>

text \<open>A concrete instance of the JSON functions, for evaluating the constructors on an example.\<close>

datatype json = JNull | JInt int | JStr string | JArr "json list" | JObj "(string \<times> json) list"

fun json_is :: "json \<Rightarrow> json_type \<Rightarrow> bool" where
  "json_is JNull t = (t = json_type_null)"
| "json_is (JInt _) t = (t = json_type_int)"
| "json_is (JStr _) t = (t = json_type_string)"
| "json_is (JArr _) t = (t = json_type_array)"
| "json_is (JObj _) t = (t = json_type_object)"

fun json_text :: "json \<Rightarrow> string option" where
  "json_text JNull = None"
| "json_text (JInt i) = Some (print_int i)"
| "json_text (JStr s) = Some s"
| "json_text (JArr _) = Some ''[]''"
| "json_text (JObj _) = Some ''{}''"

definition json_c :: "json json_ops" where
  "json_c = \<lparr>
     j_get = (\<lambda>v k. case v of JObj es \<Rightarrow> map_of es k | _ \<Rightarrow> None),
     j_is = json_is,
     j_string = json_text,
     j_int = (\<lambda>v. case v of JInt i \<Rightarrow> i | _ \<Rightarrow> 0),
     j_length = (\<lambda>v. case v of JArr xs \<Rightarrow> length xs | _ \<Rightarrow> 0),
     j_idx = (\<lambda>v i. case v of JArr xs \<Rightarrow> if i < length xs then xs ! i else JNull | _ \<Rightarrow> JNull),
     j_object = (\<lambda>v. case v of
        JObj es \<Rightarrow> Some (map (\<lambda>k. (k, the (map_of es k))) (remdups (map fst es))) | _ \<Rightarrow> None)\<rparr>"

lemma json_c_documented [simp]: "json_documented json_c"
proof -
  have "json_is t json_type_string \<Longrightarrow> json_text t \<noteq> None" for t by (cases t) auto
  moreover have "json_is t json_type_object \<Longrightarrow> \<exists>es. t = JObj es" for t by (cases t) auto
  ultimately show ?thesis
    by (auto simp: json_documented_def json_c_def o_def split: json.splits)
qed

definition example_meta :: "(string \<times> json) list \<Rightarrow> json" where
  "example_meta es = JObj ([(''namespace'', JStr ''default''), (''name'', JStr ''web'')] @ es)"

subsection \<open>Properties\<close>

text \<open>Objects read from JSON are well formed.  Whatever the API server sends, an Ingress has one value
  per annotation, a Secret and a ConfigMap have one value per key, and the port tables of services
  and endpoints are well-formed hash tables.\<close>

theorem made_objects_wf:
  assumes "json_documented J"
  shows "(ingress_make J obj = Inr (Some ing) \<longrightarrow> hash_unique (in_annotations ing))
    \<and> (secret_make J obj = Inr (Some se) \<longrightarrow> hash_unique (se_data se))
    \<and> (configmap_make J obj = Inr (Some cm) \<longrightarrow> hash_unique (cm_data cm))
    \<and> (service_make J obj = Inr (Some svc) \<longrightarrow> sv_ports svc = Some ports \<longrightarrow> hash_ok ports)
    \<and> (endpoints_make J obj = Inr (Some eps) \<longrightarrow> (\<forall>es \<in> set (ep_subsets eps). hash_ok (es_ports es)))"
proof -
  have "ingress_make J obj = Inr (Some ing) \<longrightarrow> hash_unique (in_annotations ing)"
    by (rule impI, rule ingress_make_wf [OF assms])
  moreover have "secret_make J obj = Inr (Some se) \<longrightarrow> hash_unique (se_data se)"
    by (rule impI, rule secret_make_wf [OF assms])
  moreover have "configmap_make J obj = Inr (Some cm) \<longrightarrow> hash_unique (cm_data cm)"
    by (rule impI, rule configmap_make_wf [OF assms])
  moreover have "service_make J obj = Inr (Some svc) \<longrightarrow> sv_ports svc = Some ports \<longrightarrow> hash_ok ports"
    by (intro impI, rule service_make_wf)
  moreover have "endpoints_make J obj = Inr (Some eps) \<longrightarrow> (\<forall>es \<in> set (ep_subsets eps). hash_ok (es_ports es))"
    by (intro impI ballI, rule endpoints_make_wf)
  ultimately show ?thesis by (intro conjI) simp_all
qed

theorem made_objects_wf_witness:
  "\<exists>ing. ingress_make json_c (JObj [(''metadata'', example_meta [(''annotations'', JObj [(''a'', JStr ''b'')])])]) = Inr (Some ing)
     \<and> hash_unique (in_annotations ing)"
proof -
  let ?obj = "JObj [(''metadata'', example_meta [(''annotations'', JObj [(''a'', JStr ''b'')])])]"
  have "\<exists>ing. ingress_make json_c ?obj = Inr (Some ing)"
    by (simp add: ingress_make_def object_meta_def json_c_def example_meta_def json_str_def json_table_def set_any_def Let_def)
  then obtain ing where ing: "ingress_make json_c ?obj = Inr (Some ing)" ..
  show ?thesis using made_objects_wf [OF json_c_documented, of ?obj ing] ing by auto
qed

text \<open>Reading a Secret, a ConfigMap or an Endpoints object never crashes: every value is checked before
  it is used, so each constructor returns an object or reports that there is none.\<close>

theorem checked_makers_total:
  assumes "json_documented J"
  shows "(\<exists>r. secret_make J obj = Inr r) \<and> (\<exists>r. configmap_make J obj = Inr r) \<and> (\<exists>r. endpoints_make J obj = Inr r)"
proof -
  obtain m where m: "object_meta J obj = Inr m" using object_meta_total [OF assms] by blast
  obtain ty where ty: "json_str J obj ''type'' = Inr ty" using json_str_total [OF assms] by blast
  obtain d where d: "json_data J obj (hash_new 127 True) = Inr d" using json_data_total [OF assms] by blast
  obtain ss where ss: "res_map (endpoints_subset_make J) (json_array J obj ''subsets'') = Inr ss"
    using res_map_total [of "json_array J obj ''subsets''" "endpoints_subset_make J"] endpoints_subset_total [OF assms] by blast
  show ?thesis
    by (cases m; cases ty) (simp_all add: secret_make_def configmap_make_def endpoints_make_def m ty d ss split: prod.split)
qed

theorem checked_makers_total_witness:
  "\<exists>r. secret_make json_c JNull = Inr r"
  using checked_makers_total [OF json_c_documented, of JNull] by blast

text \<open>An Ingress whose annotations are null crashes the plugin.  The type of the annotations is not checked,
  and iterating over a value that is no object reads through a NULL pointer.\<close>

theorem ingress_null_annotations_crash:
  assumes "object_meta J obj = Inr (Some (ns, name))" and "j_get J obj ''metadata'' = Some m"
    and "j_get J m ''annotations'' = Some t" and "j_object J t = None"
  shows "ingress_make J obj = Inl Null_Pointer"
  using assms by (simp add: ingress_make_def json_table_def)

theorem ingress_null_annotations_crash_witness:
  "ingress_make json_c (JObj [(''metadata'', example_meta [(''annotations'', JNull)])]) = Inl Null_Pointer"
  by (rule ingress_null_annotations_crash [where ns = "''default''" and name = "''web''"
        and m = "example_meta [(''annotations'', JNull)]" and t = JNull])
    (simp_all add: object_meta_def json_c_def example_meta_def json_str_def)

text \<open>A service port is found by name or by number.  The lookup returns a port of the wanted protocol
  whose name is the wanted name or whose number is the wanted number, and it finds one whenever the service has one.\<close>

theorem service_find_port_correct:
  assumes "sv_ports svc = Some ports" and "hash_ok ports"
  shows "\<exists>r. service_find_port svc name proto = Inr r
    \<and> (\<forall>p. r = Some p \<longrightarrow> (\<exists>k. p \<in> set (hash_vals ports k)) \<and> sp_protocol p = proto
         \<and> (sp_name p = name \<or> atoi name \<noteq> 0 \<and> sp_port p = atoi name))
    \<and> (r = None \<longrightarrow> (\<forall>k p. p \<in> set (hash_vals ports k) \<longrightarrow> sp_protocol p = proto \<longrightarrow>
         sp_name p \<noteq> name \<and> (atoi name = 0 \<or> sp_port p \<noteq> atoi name)))"
proof -
  have mem: "p \<in> set (map snd (hash_foreach ports)) \<longleftrightarrow> (\<exists>k. p \<in> set (hash_vals ports k))" for p
    using hash_foreach_in_iff [OF assms(2)] by (simp add: image_iff Bex_def)
  define r where "r = List.find (port_matches name proto) (map snd (hash_foreach ports))"
  have some: "(\<exists>k. p \<in> set (hash_vals ports k)) \<and> port_matches name proto p" if "r = Some p" for p
    using find_SomeD [OF that [unfolded r_def]] unfolding mem by blast
  have none: "\<not> port_matches name proto p" if "r = None" "p \<in> set (hash_vals ports k)" for k p
    using that(2) find_None_iff [THEN iffD1, OF that(1) [unfolded r_def]] mem by blast
  have "service_find_port svc name proto = Inr r" using assms(1) by (simp add: service_find_port_def r_def)
  with some none show ?thesis unfolding port_matches_def by (intro exI [of _ r]) (cases r, force+)
qed

theorem service_find_port_correct_witness:
  "let p = \<lparr>sp_name = ''http'', sp_port = 80, sp_target_port = 8080, sp_protocol = SV_P_TCP\<rparr>;
       svc = \<lparr>sv_name = ''web'', sv_namespace = ''default'', sv_type = None, sv_cluster_ip = None,
              sv_session_affinity = None, sv_external_name = None, sv_selector = None,
              sv_ports = Some (hash_set (hash_new 127 True) ''http'' p)\<rparr>
   in service_find_port svc ''http'' SV_P_TCP = Inr (Some p)"
proof -
  let ?p = "\<lparr>sp_name = ''http'', sp_port = 80, sp_target_port = 8080, sp_protocol = SV_P_TCP\<rparr>"
  let ?h = "hash_set (hash_new 127 True) ''http'' ?p"
  let ?svc = "\<lparr>sv_name = ''web'', sv_namespace = ''default'', sv_type = None, sv_cluster_ip = None,
              sv_session_affinity = None, sv_external_name = None, sv_selector = None, sv_ports = Some ?h\<rparr>"
  have vals: "hash_vals ?h k = (if k = ''http'' then [?p] else [])" for k by simp
  obtain r where r: "service_find_port ?svc ''http'' SV_P_TCP = Inr r"
    "\<And>p. r = Some p \<Longrightarrow> \<exists>k. p \<in> set (hash_vals ?h k)"
    "r = None \<Longrightarrow> \<forall>k p. p \<in> set (hash_vals ?h k) \<longrightarrow> sp_protocol p = SV_P_TCP \<longrightarrow> sp_name p \<noteq> ''http''"
    using service_find_port_correct [of ?svc ?h "''http''" SV_P_TCP] by auto
  have "r \<noteq> None"
  proof
    assume "r = None"
    from r(3) [OF this, rule_format, of ?p "''http''"] show False by simp
  qed
  then obtain p where p: "r = Some p" by auto
  with r(2) [OF p] vals have "p = ?p" by (auto split: if_splits)
  with r(1) p show ?thesis by simp
qed

text \<open>Two Endpoints objects that compare equal are interchangeable: they have the same name and
  namespace and, subset by subset, the same addresses and the same port under every port name, so
  nothing that is built from one can differ from what is built from the other.  Every object compares
  equal to itself.\<close>

theorem endpoints_equal_sound:
  assumes "\<forall>es \<in> set (ep_subsets a) \<union> set (ep_subsets b). hash_ok (es_ports es)"
  shows "endpoints_equal a a \<and> (endpoints_equal a b \<longrightarrow>
    ep_name a = ep_name b \<and> ep_namespace a = ep_namespace b \<and> length (ep_subsets a) = length (ep_subsets b) \<and>
    (\<forall>i < length (ep_subsets a). es_addrs (ep_subsets a ! i) = es_addrs (ep_subsets b ! i)
       \<and> hash_get (es_ports (ep_subsets a ! i)) = hash_get (es_ports (ep_subsets b ! i))))"
proof (intro conjI impI)
  show "endpoints_equal a a" by (simp add: endpoints_equal_iff list_all2_same)
  assume eq: "endpoints_equal a b"
  then show "ep_name a = ep_name b" "ep_namespace a = ep_namespace b"
    and len: "length (ep_subsets a) = length (ep_subsets b)"
    by (auto simp: endpoints_equal_iff list_all2_lengthD)
  show "\<forall>i < length (ep_subsets a). es_addrs (ep_subsets a ! i) = es_addrs (ep_subsets b ! i)
       \<and> hash_get (es_ports (ep_subsets a ! i)) = hash_get (es_ports (ep_subsets b ! i))"
  proof (intro allI impI)
    fix i assume i: "i < length (ep_subsets a)"
    from eq i have "es_addrs (ep_subsets a ! i) = es_addrs (ep_subsets b ! i)"
      "hash_foreach (es_ports (ep_subsets a ! i)) = hash_foreach (es_ports (ep_subsets b ! i))"
      by (auto simp: endpoints_equal_iff dest: list_all2_nthD)
    moreover have "hash_ok (es_ports (ep_subsets a ! i))" "hash_ok (es_ports (ep_subsets b ! i))"
      using assms i len by simp_all
    ultimately show "es_addrs (ep_subsets a ! i) = es_addrs (ep_subsets b ! i)
       \<and> hash_get (es_ports (ep_subsets a ! i)) = hash_get (es_ports (ep_subsets b ! i))"
      by (simp add: hash_get_foreach fun_eq_iff)
  qed
qed

theorem endpoints_equal_sound_witness:
  "let eps = \<lparr>ep_name = ''web'', ep_namespace = ''default'',
       ep_subsets = [\<lparr>es_addrs = [], es_ports = hash_new 7 True\<rparr>]\<rparr>
   in endpoints_equal eps eps"
proof -
  let ?eps = "\<lparr>ep_name = ''web'', ep_namespace = ''default'',
       ep_subsets = [\<lparr>es_addrs = [], es_ports = hash_new 7 True\<rparr>]\<rparr>"
  have "\<forall>es \<in> set (ep_subsets ?eps) \<union> set (ep_subsets ?eps). hash_ok (es_ports es)" by simp
  from endpoints_equal_sound [OF this] show ?thesis by simp
qed

text \<open>A TLS secret whose certificate is not valid base64 is not rejected: the error value -1 of the
  decoder becomes the length of the buffer handed to OpenSSL, which then reads beyond the decoded data.\<close>

theorem ssl_ctx_bad_base64_overreads:
  assumes "hash_get (se_data se) ''tls.crt'' = Some crt" and "hash_get (se_data se) ''tls.key'' = Some key"
    and "base64_decode crt = None" and "ssl_ctx_new S \<noteq> None"
  shows "secret_make_ssl_ctx S se = Inl Out_Of_Bounds"
  using assms by (auto simp: secret_make_ssl_ctx_def)

theorem ssl_ctx_bad_base64_overreads_witness:
  "secret_make_ssl_ctx \<lparr>ssl_ctx_new = Some (), pem_read_x509 = (\<lambda>_. None :: (unit \<times> byte list) option), ssl_use_certificate = (\<lambda>c _. Some c),
       ssl_add_chain_cert = (\<lambda>c _. Some c), pem_read_key = (\<lambda>_. None :: unit option), ssl_use_key = (\<lambda>c _. Some c)\<rparr>
     \<lparr>se_name = ''s'', se_namespace = ''n'', se_type = ''kubernetes.io/tls'',
      se_data = hash_set (hash_set (hash_new 127 True) ''tls.key'' []) ''tls.crt'' ''!!!!''\<rparr> = Inl Out_Of_Bounds"
  by (rule ssl_ctx_bad_base64_overreads [where crt = "''!!!!''" and key = "[]"])
    (simp_all add: b64untable_def Let_def)

end
