(* ===== verification/Remap_Host.thy ===== *)
theory Remap_Host
  imports Remap_Path Objects
begin

text \<open>
  The configuration of one host name (\<^verbatim>\<open>remap/remap_host.c\<close>): its paths, of which the first one is the
  default path, its TLS context, and the settings that apply to the whole host.

  The C library's regular expressions are parameters: \<open>regcomp\<close> says whether a pattern compiles, and
  \<open>regexec\<close> gives the start and the end of the match of a compiled pattern in a string.
\<close>

record 'c remap_host_t =
  rh_paths :: "remap_path_t list"
  rh_ctx :: "'c option"
  rh_hsts_subdomains :: bool
  rh_http2 :: bool
  rh_tls_passthrough :: bool
  rh_hsts_max_age :: int
  rh_tls_version :: int

type_synonym regexec = "string \<Rightarrow> string \<Rightarrow> (nat \<times> nat) option"

text \<open>
  \<open>remap_host_new_path\<close> returns the host and the position of the path it added; the callers change
  the path through the pointer, which is an update of that position.
\<close>

definition remap_host_new_path ::
  "(string \<Rightarrow> bool) \<Rightarrow> 'c remap_host_t \<Rightarrow> string option \<Rightarrow> 'c remap_host_t \<times> nat option" where
  "remap_host_new_path regcomp rh path =
     (case remap_path_new regcomp path of
        None \<Rightarrow> (rh, None)
      | Some rp \<Rightarrow> (rh\<lparr>rh_paths := rh_paths rh @ [rp]\<rparr>, Some (length (rh_paths rh))))"

definition remap_host_new :: "(string \<Rightarrow> bool) \<Rightarrow> 'c remap_host_t" where
  "remap_host_new regcomp =
     fst (remap_host_new_path regcomp
       \<lparr>rh_paths = [], rh_ctx = None, rh_hsts_subdomains = False, rh_http2 = False,
        rh_tls_passthrough = False, rh_hsts_max_age = 0, rh_tls_version = 0\<rparr> None)"

definition remap_host_get_default_path :: "'c remap_host_t \<Rightarrow> remap_path_t res" where
  "remap_host_get_default_path rh = (case rh_paths rh of [] \<Rightarrow> Inl Null_Pointer | rp # _ \<Rightarrow> Inr rp)"

text \<open>The search skips the default path; a path without a compiled pattern must not occur there.\<close>

fun find_path_loop :: "regexec \<Rightarrow> string \<Rightarrow> remap_path_t list \<Rightarrow> (remap_path_t \<times> nat) option res" where
  "find_path_loop regexec path [] = Inr None"
| "find_path_loop regexec path (rp # rps) =
     (case rp_regex rp of
        None \<Rightarrow> Inl Null_Pointer
      | Some re \<Rightarrow>
          (case regexec re path of
             Some (so, eo) \<Rightarrow> Inr (Some (rp, eo - so))
           | None \<Rightarrow> find_path_loop regexec path rps))"

definition remap_host_find_path ::
  "regexec \<Rightarrow> 'c remap_host_t \<Rightarrow> string option \<Rightarrow> (remap_path_t \<times> nat) res" where
  "remap_host_find_path regexec rh path =
     (case path of
        None \<Rightarrow> res_bind (remap_host_get_default_path rh) (\<lambda>rp. Inr (rp, 0))
      | Some p \<Rightarrow>
          res_bind (find_path_loop regexec p (drop 1 (rh_paths rh))) (\<lambda>r.
            case r of
              Some hit \<Rightarrow> Inr hit
            | None \<Rightarrow> res_bind (remap_host_get_default_path rh) (\<lambda>rp. Inr (rp, 0))))"

definition tls_version_of :: "int \<Rightarrow> string \<Rightarrow> int" where
  "tls_version_of old s =
     (if s = ''1.0'' then IN_TLS_VERSION_1_0_VALUE
      else if s = ''1.1'' then IN_TLS_VERSION_1_1_VALUE
      else if s = ''1.2'' then IN_TLS_VERSION_1_2_VALUE
      else old)"

definition remap_host_annotate :: "'c remap_host_t \<Rightarrow> cluster_config_t \<Rightarrow> string hash \<Rightarrow> 'c remap_host_t" where
  "remap_host_annotate rh cc annotations =
     rh\<lparr>rh_hsts_max_age := (case hash_get annotations IN_HSTS_MAX_AGE of
                               Some s \<Rightarrow> atoi s | None \<Rightarrow> cc_hsts_max_age cc),
        rh_hsts_subdomains := (case hash_get annotations IN_HSTS_INCLUDE_SUBDOMAINS of
                               Some s \<Rightarrow> truefalse s | None \<Rightarrow> cc_hsts_subdomains cc),
        rh_http2 := (case hash_get annotations IN_HTTP2_ENABLE of
                               Some s \<Rightarrow> truefalse s | None \<Rightarrow> cc_http2 cc),
        rh_tls_version := (case hash_get annotations IN_TLS_MINIMUM_VERSION of
                               Some s \<Rightarrow> tls_version_of (rh_tls_version rh) s
                             | None \<Rightarrow> cc_tls_minimum_version cc),
        rh_tls_passthrough := (case hash_get annotations IN_SSL_PASSTHROUGH of
                               Some s \<Rightarrow> truefalse s | None \<Rightarrow> rh_tls_passthrough rh)\<rparr>"

text \<open>
  The default certificate comes from the namespace the configuration names.  Looking that namespace up
  creates it in the cluster when it is not there.
\<close>

definition remap_host_attach_default_tls ::
  "('c, 'x, 'k) ssl_ops \<Rightarrow> string \<Rightarrow> cluster_t \<Rightarrow> 'c remap_host_t \<Rightarrow> (cluster_t \<times> 'c remap_host_t) res" where
  "remap_host_attach_default_tls S host cs rh =
     (case cluster_get_cert_for_hostname cs host of
        None \<Rightarrow> Inr (cs, rh)
      | Some crt \<Rightarrow>
          (let cs' = cluster_get_namespace cs (cr_namespace crt) in
           case cluster_lookup namespace_get_secret cs' (cr_namespace crt) (cr_name crt) of
             None \<Rightarrow> Inr (cs', rh)
           | Some srt \<Rightarrow>
               res_bind (secret_make_ssl_ctx S srt) (\<lambda>ctx. Inr (cs', rh\<lparr>rh_ctx := ctx\<rparr>))))"

subsection \<open>Well-formed hosts\<close>

text \<open>A host has a default path, and every other path has a compiled pattern.\<close>

definition host_ok :: "'c remap_host_t \<Rightarrow> bool" where
  "host_ok rh \<longleftrightarrow> rh_paths rh \<noteq> [] \<and> list_all (\<lambda>rp. rp_regex rp \<noteq> None) (drop 1 (rh_paths rh))"

lemma remap_path_new_regex: "remap_path_new regcomp (Some p) = Some rp \<Longrightarrow> rp_regex rp \<noteq> None"
  by (auto simp: remap_path_new_def Let_def split: if_splits)

lemma remap_host_new_eq:
  "remap_host_new regcomp = \<lparr>rh_paths = [remap_path_default], rh_ctx = None, rh_hsts_subdomains = False,
     rh_http2 = False, rh_tls_passthrough = False, rh_hsts_max_age = 0, rh_tls_version = 0\<rparr>"
  by (simp add: remap_host_new_def remap_host_new_path_def remap_path_new_def)

lemma host_ok_new [simp]: "host_ok (remap_host_new regcomp)"
  by (simp add: remap_host_new_eq host_ok_def)

lemma host_ok_new_path:
  assumes "host_ok rh" and "remap_host_new_path regcomp rh (Some p) = (rh', r)"
  shows "host_ok rh'"
  using assms remap_path_new_regex [of regcomp p]
  by (cases "rh_paths rh") (auto simp: host_ok_def remap_host_new_path_def split: option.splits)

lemma host_ok_annotate [simp]: "host_ok (remap_host_annotate rh cc ann) = host_ok rh"
  by (simp add: host_ok_def remap_host_annotate_def)

lemma host_ok_ctx [simp]: "host_ok (rh\<lparr>rh_ctx := ctx\<rparr>) = host_ok rh"
  by (simp add: host_ok_def)

lemma host_ok_attach:
  "host_ok rh \<Longrightarrow> remap_host_attach_default_tls S host cs rh = Inr (cs', rh') \<Longrightarrow> host_ok rh'"
  by (auto simp: remap_host_attach_default_tls_def Let_def split: option.splits)

lemma host_ok_update_path:
  assumes "host_ok rh" and "i < length (rh_paths rh)" and "rp_regex rp = rp_regex (rh_paths rh ! i)"
  shows "host_ok (rh\<lparr>rh_paths := (rh_paths rh)[i := rp]\<rparr>)"
  using assms by (cases "rh_paths rh"; cases i) (auto simp: host_ok_def list_all_length nth_list_update)

subsection \<open>Finding a path\<close>

definition path_matches :: "regexec \<Rightarrow> string \<Rightarrow> remap_path_t \<Rightarrow> bool" where
  "path_matches regexec p rp \<longleftrightarrow> (\<exists>re m. rp_regex rp = Some re \<and> regexec re p = Some m)"

lemma find_path_loop_eq:
  assumes "list_all (\<lambda>rp. rp_regex rp \<noteq> None) rps"
  shows "find_path_loop regexec p rps = Inr (map_option
    (\<lambda>rp. (rp, case the (regexec (the (rp_regex rp)) p) of (so, eo) \<Rightarrow> eo - so))
    (List.find (path_matches regexec p) rps))"
  using assms
proof (induction rps)
  case (Cons rp rps)
  then obtain re where re: "rp_regex rp = Some re" by auto
  with Cons show ?case
    by (cases "regexec re p") (auto simp: path_matches_def)
qed simp

lemma remap_host_find_path_total:
  assumes "host_ok rh"
  shows "\<exists>rp n. remap_host_find_path regexec rh path = Inr (rp, n) \<and> rp \<in> set (rh_paths rh)"
proof -
  from assms obtain d ps where ps: "rh_paths rh = d # ps" and ok: "list_all (\<lambda>rp. rp_regex rp \<noteq> None) ps"
    by (cases "rh_paths rh") (auto simp: host_ok_def)
  show ?thesis
  proof (cases path)
    case None
    then show ?thesis by (simp add: remap_host_find_path_def remap_host_get_default_path_def ps)
  next
    case (Some p)
    show ?thesis
    proof (cases "List.find (path_matches regexec p) ps")
      case None
      with Some show ?thesis
        by (simp add: remap_host_find_path_def remap_host_get_default_path_def ps find_path_loop_eq [OF ok])
    next
      case hit: (Some rp)
      from find_SomeD [OF hit] have "rp \<in> set ps" by simp
      with Some hit show ?thesis by (simp add: remap_host_find_path_def ps find_path_loop_eq [OF ok])
    qed
  qed
qed

subsection \<open>Properties\<close>

text \<open>C26: A request goes to the first path that matches.  On a well-formed host the search always returns; it
  gives the earliest added path whose pattern matches the request path, with the length of the match,
  and the default path (the first one) when no pattern matches or the request has no path.\<close>

theorem find_path_first_match:
  assumes "host_ok rh"
  shows "remap_host_find_path regexec rh None = Inr (rh_paths rh ! 0, 0)
    \<and> (\<exists>rp n. remap_host_find_path regexec rh (Some p) = Inr (rp, n) \<and>
        ((\<exists>i re so eo. Suc i < length (rh_paths rh) \<and> rp = rh_paths rh ! Suc i
           \<and> rp_regex rp = Some re \<and> regexec re p = Some (so, eo) \<and> n = eo - so
           \<and> (\<forall>j < i. \<not> path_matches regexec p (rh_paths rh ! Suc j)))
         \<or> (rp = rh_paths rh ! 0 \<and> n = 0
           \<and> (\<forall>j. Suc j < length (rh_paths rh) \<longrightarrow> \<not> path_matches regexec p (rh_paths rh ! Suc j)))))"
proof -
  from assms obtain d ps where ps: "rh_paths rh = d # ps" and ok: "list_all (\<lambda>rp. rp_regex rp \<noteq> None) ps"
    by (cases "rh_paths rh") (auto simp: host_ok_def)
  have none: "remap_host_find_path regexec rh None = Inr (rh_paths rh ! 0, 0)"
    by (simp add: remap_host_find_path_def remap_host_get_default_path_def ps)
  show ?thesis
  proof (cases "List.find (path_matches regexec p) ps")
    case None
    then have "\<forall>j < length ps. \<not> path_matches regexec p (ps ! j)" by (auto simp: find_None_iff)
    with None none show ?thesis
      by (simp add: remap_host_find_path_def remap_host_get_default_path_def ps find_path_loop_eq [OF ok])
  next
    case (Some rp)
    then obtain i where i: "i < length ps" "path_matches regexec p (ps ! i)" "rp = ps ! i"
      "\<forall>j < i. \<not> path_matches regexec p (ps ! j)" by (auto simp: find_Some_iff)
    from i(2,3) obtain re so eo where re: "rp_regex rp = Some re" "regexec re p = Some (so, eo)"
      by (auto simp: path_matches_def)
    have "remap_host_find_path regexec rh (Some p) = Inr (rp, eo - so)"
      using Some re by (simp add: remap_host_find_path_def ps find_path_loop_eq [OF ok])
    with i re none show ?thesis
      by (intro conjI exI [of _ rp] exI [of _ "eo - so"] disjI1 exI [of _ i] exI [of _ re] exI [of _ so] exI [of _ eo])
        (simp_all add: ps)
  qed
qed

theorem find_path_first_match_witness:
  "remap_host_find_path (\<lambda>re p. if re = ''^static'' then Some (0, 6) else None)
     (fst (remap_host_new_path (\<lambda>_. True) (remap_host_new (\<lambda>_. True) :: unit remap_host_t) (Some ''/static''))) (Some ''static/x.png'')
   = Inr (remap_path_default\<lparr>rp_regex := Some ''^static''\<rparr>, 6)"
proof -
  let ?rh = "fst (remap_host_new_path (\<lambda>_. True) (remap_host_new (\<lambda>_. True) :: unit remap_host_t) (Some ''/static''))"
  have paths: "rh_paths ?rh = [remap_path_default, remap_path_default\<lparr>rp_regex := Some ''^static''\<rparr>]"
    by (simp add: remap_host_new_path_def remap_host_new_eq remap_path_new_def)
  then have "host_ok ?rh" by (simp add: host_ok_def)
  from find_path_first_match [OF this, of "\<lambda>re p. if re = ''^static'' then Some (0, 6) else None" "''static/x.png''"] paths
  show ?thesis by (auto simp: path_matches_def less_Suc_eq)
qed

end
