(* ===== verification/Remap_Db.thy ===== *)
theory Remap_Db
  imports Remap_Host Auth Strmatch Config
begin

text \<open>
  The remap database and the decision about a request (\<^verbatim>\<open>remap/remap_db.c\<close>).  A check gets the
  request and the result built so far and returns a code with the new result; the functions do not look
  at the database argument they are given, which the model leaves out.

  \<open>regexec\<close>, \<open>crypt_check\<close> and \<open>rnd\<close> (the value \<^verbatim>\<open>rand()\<close> returns) are parameters.
\<close>

unbundle bit_operations_syntax

record 'c remap_db_t =
  rd_config :: k8s_config_t
  rd_healthcheck :: "string option"
  rd_hosts :: "'c remap_host_t hash"

record remap_hdrfield_t =
  rh_values :: "string list"

record remap_request_t =
  rr_proto :: "string option"
  rr_method :: "string option"
  rr_host :: "string option"
  rr_path :: "string option"
  rr_query :: "string option"
  rr_hdrfields :: "remap_hdrfield_t hash"
  rr_addr :: "sockaddr option"

record 'c remap_result_t =
  rz_target :: "remap_target_t option"
  rz_proto :: "string option"
  rz_urlpath :: "string option"
  rz_query :: "string option"
  rz_headers :: "string hash"
  rz_status :: int
  rz_status_text :: "string option"
  rz_body :: "string option"
  rz_host :: "'c remap_host_t option"
  rz_path :: "remap_path_t option"

datatype rr_code = RR_OK | RR_SYNTHETIC | RR_ERR_INVALID_HOST | RR_ERR_INVALID_PROTOCOL
  | RR_ERR_NO_HOST | RR_ERR_NO_PATH | RR_ERR_NO_BACKEND | RR_ERR_FORBIDDEN | RR_ERR_UNAUTHORIZED

type_synonym 'c rr = "(rr_code \<times> 'c remap_result_t) res"

subsection \<open>The database\<close>

definition remap_db_new :: "k8s_config_t \<Rightarrow> 'c remap_db_t" where
  "remap_db_new cfg = \<lparr>rd_config = cfg, rd_healthcheck = None, rd_hosts = hash_new 4093 True\<rparr>"

definition remap_db_get_host :: "'c remap_db_t \<Rightarrow> string \<Rightarrow> 'c remap_host_t option" where
  "remap_db_get_host db hostname = hash_get (rd_hosts db) hostname"

definition remap_db_get_or_create_host ::
  "(string \<Rightarrow> bool) \<Rightarrow> 'c remap_db_t \<Rightarrow> string \<Rightarrow> 'c remap_db_t \<times> 'c remap_host_t" where
  "remap_db_get_or_create_host regcomp db hostname =
     (case remap_db_get_host db hostname of
        Some rh \<Rightarrow> (db, rh)
      | None \<Rightarrow>
          (let rh = remap_host_new regcomp
           in (db\<lparr>rd_hosts := hash_set (rd_hosts db) hostname rh\<rparr>, rh)))"

subsection \<open>The checks\<close>

definition set_header :: "'c remap_result_t \<Rightarrow> string \<Rightarrow> string \<Rightarrow> 'c remap_result_t" where
  "set_header res h v = res\<lparr>rz_headers := hash_set (rz_headers res) h v\<rparr>"

definition rr_check_proto :: "remap_request_t \<Rightarrow> 'c remap_result_t \<Rightarrow> 'c rr" where
  "rr_check_proto req res =
     res_bind (deref (rr_proto req)) (\<lambda>proto.
     if proto = ''http'' \<or> proto = ''https'' then
       res_bind (deref (rz_path res)) (\<lambda>rp.
         Inr (RR_OK, res\<lparr>rz_proto := Some (if rp_secure_backends rp then ''https'' else ''http'')\<rparr>))
     else if proto = ''ws'' \<or> proto = ''wss'' then
       res_bind (deref (rz_path res)) (\<lambda>rp.
         Inr (RR_OK, res\<lparr>rz_proto := Some (if rp_secure_backends rp then ''wss'' else ''ws'')\<rparr>))
     else Inr (RR_ERR_INVALID_PROTOCOL, res))"

definition moved :: "'c remap_result_t \<Rightarrow> string \<Rightarrow> rr_code \<times> 'c remap_result_t" where
  "moved res location =
     (RR_SYNTHETIC, (set_header res ''Location'' location)
        \<lparr>rz_status := 301, rz_status_text := Some ''Moved'',
         rz_body := Some (''This document has moved.'' @ [CHR 0x0A])\<rparr>)"

definition rr_check_app_root :: "remap_request_t \<Rightarrow> 'c remap_result_t \<Rightarrow> 'c rr" where
  "rr_check_app_root req res =
     res_bind (deref (rz_path res)) (\<lambda>rp.
     case rp_app_root rp of
       None \<Rightarrow> Inr (RR_OK, res)
     | Some root \<Rightarrow> if rr_path req \<noteq> None then Inr (RR_OK, res) else Inr (moved res root))"

definition tls_location :: "string \<Rightarrow> string \<Rightarrow> string option \<Rightarrow> string option \<Rightarrow> string" where
  "tls_location newp host path query =
     (let blen = length newp + 3 + length host + 1 + 1;
          blen = (case path of None \<Rightarrow> blen | Some p \<Rightarrow> blen + length p);
          blen = (case query of None \<Rightarrow> blen | Some q \<Rightarrow> blen + (length q + 1))
      in snprintf blen (newp @ ''://'' @ host @ ''/'' @ (case path of None \<Rightarrow> [] | Some p \<Rightarrow> p)
           @ (case query of None \<Rightarrow> [] | Some q \<Rightarrow> ''?'') @ (case query of None \<Rightarrow> [] | Some q \<Rightarrow> q)))"

definition rr_check_tls :: "remap_request_t \<Rightarrow> 'c remap_result_t \<Rightarrow> 'c rr" where
  "rr_check_tls req res =
     res_bind (deref (rr_proto req)) (\<lambda>proto.
     if proto = ''https'' \<or> proto = ''wss'' then Inr (RR_OK, res)
     else
       res_bind (deref (rz_path res)) (\<lambda>rp.
       if rp_no_ssl_redirect rp then Inr (RR_OK, res)
       else
         res_bind (deref (rz_host res)) (\<lambda>rh.
         if rh_ctx rh = None \<and> \<not> rp_force_ssl_redirect rp then Inr (RR_OK, res)
         else
           res_bind (deref (rr_host req)) (\<lambda>host.
           Inr (moved res (tls_location (if proto = ''ws'' then ''wss'' else ''https'')
                             host (rr_path req) (rr_query req)))))))"

definition opt_header :: "bool \<Rightarrow> string \<Rightarrow> string \<Rightarrow> 'c remap_result_t \<Rightarrow> 'c remap_result_t" where
  "opt_header b h v res = (if b then set_header res h v else res)"

definition cors_preflight :: "remap_path_t \<Rightarrow> 'c remap_result_t \<Rightarrow> 'c remap_result_t" where
  "cors_preflight rp res =
     (let res = (case rp_cors_methods rp of None \<Rightarrow> res
                 | Some m \<Rightarrow> set_header res ''Access-Control-Allow-Methods'' m);
          res = (case rp_cors_headers rp of None \<Rightarrow> res
                 | Some h \<Rightarrow> set_header res ''Access-Control-Allow-Headers'' h);
          res = opt_header (rp_cors_max_age rp \<noteq> 0) ''Access-Control-Max-Age''
                  (snprintf 32 (print_int (rp_cors_max_age rp))) res;
          res = opt_header (rp_cors_creds rp) ''Access-Control-Allow-Credentials'' ''true'' res
      in res\<lparr>rz_status := 204, rz_status_text := Some ''No content''\<rparr>)"

definition cors_allow :: "remap_path_t \<Rightarrow> string \<Rightarrow> 'c remap_result_t \<Rightarrow> 'c remap_result_t option" where
  "cors_allow rp origin res =
     (if hash_get (rp_cors_origins rp) ''*'' = Some () then
        Some (set_header res ''Access-Control-Allow-Origin'' ''*'')
      else if hash_get (rp_cors_origins rp) origin = Some () then
        Some (set_header (set_header res ''Access-Control-Allow-Origin'' origin) ''Vary'' ''Origin'')
      else None)"

definition rr_check_cors :: "remap_request_t \<Rightarrow> 'c remap_result_t \<Rightarrow> 'c rr" where
  "rr_check_cors req res =
     res_bind (deref (rz_path res)) (\<lambda>rp.
     if \<not> rp_enable_cors rp then Inr (RR_OK, res)
     else case hash_get (rr_hdrfields req) ''origin'' of
       None \<Rightarrow> Inr (RR_OK, res)
     | Some hdr \<Rightarrow>
         (case rh_values hdr of
            [origin] \<Rightarrow>
              (case cors_allow rp origin res of
                 None \<Rightarrow> Inr (RR_OK, res)
               | Some res' \<Rightarrow>
                   res_bind (deref (rr_method req)) (\<lambda>method.
                   if method \<noteq> ''OPTIONS'' then Inr (RR_OK, res')
                   else Inr (RR_SYNTHETIC, cors_preflight rp res')))
          | _ \<Rightarrow> Inr (RR_OK, res)))"

definition set_wwwauth_header :: "remap_path_t \<Rightarrow> 'c remap_result_t \<Rightarrow> 'c remap_result_t res" where
  "set_wwwauth_header rp res =
     res_bind (deref (rp_auth_realm rp)) (\<lambda>realm.
     Inr (set_header res ''WWW-Authenticate''
       (snprintf (15 + length realm) (''Basic realm='' @ [CHR 0x22] @ realm @ [CHR 0x22]))))"

definition rr_auth :: "remap_request_t \<Rightarrow> string option" where
  "rr_auth req =
     (case hash_get (rr_hdrfields req) ''authorization'' of
        None \<Rightarrow> None
      | Some field \<Rightarrow> (case rh_values field of [v] \<Rightarrow> Some v | _ \<Rightarrow> None))"

definition unauthorized :: "remap_path_t \<Rightarrow> 'c remap_result_t \<Rightarrow> 'c rr" where
  "unauthorized rp res = res_bind (set_wwwauth_header rp res) (\<lambda>res'. Inr (RR_ERR_UNAUTHORIZED, res'))"

definition basic_ok :: "(string \<Rightarrow> string \<Rightarrow> bool) \<Rightarrow> remap_request_t \<Rightarrow> remap_path_t \<Rightarrow> bool" where
  "basic_ok crypt_check req rp =
     (case rr_auth req of None \<Rightarrow> False | Some hdr \<Rightarrow> auth_check_basic crypt_check hdr rp = 1)"

definition rr_check_auth ::
  "(string \<Rightarrow> string \<Rightarrow> bool) \<Rightarrow> remap_request_t \<Rightarrow> 'c remap_result_t \<Rightarrow> 'c rr" where
  "rr_check_auth crypt_check req res =
     res_bind (deref (rz_path res)) (\<lambda>rp.
     if rp_auth_type rp = REMAP_AUTH_NONE \<and> rp_auth_addr_list rp = [] then Inr (RR_OK, res)
     else if rp_auth_type rp = REMAP_AUTH_NONE then
       res_bind (deref (rr_addr req)) (\<lambda>addr.
       if auth_check_address addr rp then Inr (RR_OK, res) else Inr (RR_ERR_FORBIDDEN, res))
     else if rp_auth_addr_list rp = [] then
       (if basic_ok crypt_check req rp then Inr (RR_OK, res) else unauthorized rp res)
     else if rp_auth_satisfy rp = REMAP_SATISFY_ANY then
       res_bind (deref (rr_addr req)) (\<lambda>addr.
       if auth_check_address addr rp then Inr (RR_OK, res)
       else if \<not> basic_ok crypt_check req rp then unauthorized rp res
       else Inr (RR_OK, res))
     else
       res_bind (deref (rr_addr req)) (\<lambda>addr.
       if \<not> auth_check_address addr rp then Inr (RR_ERR_FORBIDDEN, res)
       else if \<not> basic_ok crypt_check req rp then unauthorized rp res
       else Inr (RR_OK, res)))"

subsection \<open>The query string\<close>

text \<open>Whether one of the patterns of a table matches the first \<open>n\<close> characters of a text.\<close>

fun any_match :: "string \<Rightarrow> nat \<Rightarrow> (string \<times> unit) list \<Rightarrow> bool res" where
  "any_match str n [] = Inr False"
| "any_match str n ((k, u) # ks) =
     res_bind (strmatch str n k) (\<lambda>b. if b then Inr True else any_match str n ks)"

definition param_end :: "string \<Rightarrow> nat" where
  "param_end param = (case strchr param CHR ''='' of None \<Rightarrow> length param | Some n \<Rightarrow> n)"

definition keep_parameter :: "remap_path_t \<Rightarrow> string \<Rightarrow> bool res" where
  "keep_parameter rp param =
     res_bind (case rp_ignore_params rp of
                 None \<Rightarrow> Inr False
               | Some ps \<Rightarrow> any_match param (param_end param) (hash_foreach ps)) (\<lambda>ignored.
     if ignored then Inr False
     else case rp_whitelist_params rp of
       None \<Rightarrow> Inr True
     | Some ps \<Rightarrow> any_match param (param_end param) (hash_foreach ps))"

fun kept_params :: "remap_path_t \<Rightarrow> string list \<Rightarrow> string list res" where
  "kept_params rp [] = Inr []"
| "kept_params rp (p # ps) =
     res_bind (keep_parameter rp p) (\<lambda>keep.
     res_bind (kept_params rp ps) (\<lambda>params. Inr (if keep then p # params else params)))"

text \<open>\<^verbatim>\<open>qsort\<close> with \<^verbatim>\<open>strcmp\<close> sorts strings by the values of their characters.\<close>

definition join_params :: "string list \<Rightarrow> string" where
  "join_params params =
     (let len = sum_list (map (\<lambda>p. length p + 1) params)
      in take (len - 1) (concat (map (\<lambda>p. p @ ''&'') params)))"

definition make_query :: "remap_path_t \<Rightarrow> string \<Rightarrow> string option res" where
  "make_query rp query =
     res_bind (kept_params rp (strtok_all ''&'' query)) (\<lambda>params.
     Inr (if sum_list (map (\<lambda>p. length p + 1) params) = 0 then None
          else Some (join_params (sort params))))"

subsection \<open>Remapping a request\<close>

text \<open>\<^verbatim>\<open>if ((r = check(...)) != RR_OK) return r;\<close>\<close>

definition rr_then :: "'c rr \<Rightarrow> ('c remap_result_t \<Rightarrow> 'c rr) \<Rightarrow> 'c rr" where
  "rr_then r f = res_bind r (\<lambda>(code, res). if code \<noteq> RR_OK then Inr (code, res) else f res)"

definition healthcheck_hit :: "'c remap_db_t \<Rightarrow> remap_request_t \<Rightarrow> bool res" where
  "healthcheck_hit db req =
     (case (rr_path req, rd_healthcheck db) of
        (Some p, Some hc) \<Rightarrow> (case hc of [] \<Rightarrow> Inl Out_Of_Bounds | _ # hc' \<Rightarrow> Inr (p = hc'))
      | _ \<Rightarrow> Inr False)"

definition rewrite_path :: "remap_path_t \<Rightarrow> nat \<Rightarrow> string option \<Rightarrow> string option res" where
  "rewrite_path rp pfxsz path =
     (case rp_rewrite_target rp of
        None \<Rightarrow> Inr path
      | Some target \<Rightarrow>
          (case path of
             None \<Rightarrow> Inr (Some target)
           | Some p \<Rightarrow>
               if length p < pfxsz then Inl Out_Of_Bounds
               else Inr (Some (snprintf (length p - pfxsz + length target + 1) (target @ drop pfxsz p)))))"

definition rr_init :: "'c remap_result_t" where
  "rr_init = \<lparr>rz_target = None, rz_proto = None, rz_urlpath = None, rz_query = None,
     rz_headers = hash_new 127 True, rz_status = 0, rz_status_text = None, rz_body = None,
     rz_host = None, rz_path = None\<rparr>"

text \<open>What happens once the checks before it have passed: the new URL, the protocol and the backend.\<close>

definition rr_forward :: "nat \<Rightarrow> nat \<Rightarrow> remap_request_t \<Rightarrow> remap_path_t \<Rightarrow> 'c remap_result_t \<Rightarrow> 'c rr" where
  "rr_forward rnd pfxsz req rp res =
     res_bind (rewrite_path rp pfxsz (rr_path req)) (\<lambda>urlpath.
     res_bind (case rr_query req of None \<Rightarrow> Inr None | Some q \<Rightarrow> make_query rp q) (\<lambda>query.
     rr_then (rr_check_proto req (res\<lparr>rz_urlpath := urlpath, rz_query := query\<rparr>)) (\<lambda>res.
     if rp_addrs rp = [] then Inr (RR_ERR_NO_BACKEND, res)
     else res_bind (remap_path_pick_target rnd rp) (\<lambda>t. Inr (RR_OK, res\<lparr>rz_target := Some t\<rparr>)))))"

definition remap_run ::
  "regexec \<Rightarrow> (string \<Rightarrow> string \<Rightarrow> bool) \<Rightarrow> nat \<Rightarrow> 'c remap_db_t \<Rightarrow> remap_request_t \<Rightarrow> 'c rr" where
  "remap_run regexec crypt_check rnd db req =
     res_bind (healthcheck_hit db req) (\<lambda>health.
     if health then Inr (RR_SYNTHETIC, rr_init\<lparr>rz_status := 200, rz_status_text := Some ''OK''\<rparr>)
     else case rr_host req of
       None \<Rightarrow> Inr (RR_ERR_INVALID_HOST, rr_init)
     | Some host \<Rightarrow>
         if host = [] then Inr (RR_ERR_INVALID_HOST, rr_init)
         else (case remap_db_get_host db host of
           None \<Rightarrow> Inr (RR_ERR_NO_HOST, rr_init)
         | Some rh \<Rightarrow>
             res_bind (remap_host_find_path regexec rh (rr_path req)) (\<lambda>(rp, pfxsz).
             rr_then (rr_check_tls req (rr_init\<lparr>rz_host := Some rh, rz_path := Some rp\<rparr>)) (\<lambda>res.
             rr_then (rr_check_auth crypt_check req res) (\<lambda>res.
             rr_then (rr_check_cors req res) (\<lambda>res.
             rr_then (rr_check_app_root req res) (\<lambda>res.
             rr_forward rnd pfxsz req rp res)))))))"

subsection \<open>The cache key\<close>

definition remap_make_cache_key :: "remap_request_t \<Rightarrow> 'c remap_result_t \<Rightarrow> string res" where
  "remap_make_cache_key req res =
     res_bind (deref (rr_proto req)) (\<lambda>proto.
     res_bind (deref (rr_host req)) (\<lambda>host.
     let protolen = (of_nat (length proto) :: 8 word);
         hostlen = (of_nat (length host) :: 8 word);
         path = (case rr_path req of None \<Rightarrow> [] | Some p \<Rightarrow> p);
         query = (case rz_query res of None \<Rightarrow> [] | Some q \<Rightarrow> q);
         pathlen = (of_nat (length path) :: 16 word);
         querylen = (of_nat (length query) :: 16 word);
         bytes = (\<lambda>n s. map byte_of_char (take n s));
         buf = [protolen] @ bytes (unat protolen) proto @ [hostlen] @ bytes (unat hostlen) host
           @ [ucast (pathlen AND 0xFF), ucast (drop_bit 8 pathlen AND 0xFF)] @ bytes (unat pathlen) path
           @ [ucast (querylen AND 0xFF), ucast (drop_bit 8 querylen AND 0xFF)] @ bytes (unat querylen) query
     in Inr (CHR ''/'' # base64_encode buf)))"

subsection \<open>What the checks let through\<close>

text \<open>
  The access rule of a path: an address list admits the listed networks, an authentication type admits
  valid passwords; with both, \<^verbatim>\<open>auth-satisfy\<close> says whether one of them is enough.
\<close>

definition address_ok :: "remap_request_t \<Rightarrow> remap_path_t \<Rightarrow> bool" where
  "address_ok req rp \<longleftrightarrow> (\<exists>addr. rr_addr req = Some addr \<and> auth_check_address addr rp)"

definition access_granted :: "(string \<Rightarrow> string \<Rightarrow> bool) \<Rightarrow> remap_request_t \<Rightarrow> remap_path_t \<Rightarrow> bool" where
  "access_granted crypt_check req rp \<longleftrightarrow>
     (let want_pw = (rp_auth_type rp \<noteq> REMAP_AUTH_NONE); want_addr = (rp_auth_addr_list rp \<noteq> []) in
      if want_pw \<and> want_addr \<and> rp_auth_satisfy rp = REMAP_SATISFY_ANY
      then basic_ok crypt_check req rp \<or> address_ok req rp
      else (want_pw \<longrightarrow> basic_ok crypt_check req rp) \<and> (want_addr \<longrightarrow> address_ok req rp))"

text \<open>No redirect to TLS is due: the request came over TLS, or the redirect is off, or there is no certificate
  and nobody forces it.\<close>

definition tls_satisfied :: "remap_request_t \<Rightarrow> 'c remap_host_t \<Rightarrow> remap_path_t \<Rightarrow> bool" where
  "tls_satisfied req rh rp \<longleftrightarrow> rr_proto req \<in> {Some ''https'', Some ''wss''}
     \<or> rp_no_ssl_redirect rp \<or> rh_ctx rh = None \<and> \<not> rp_force_ssl_redirect rp"

lemma rr_then_Inr:
  "rr_then r f = Inr (code, res) \<longleftrightarrow>
    (\<exists>res'. r = Inr (RR_OK, res') \<and> f res' = Inr (code, res)) \<or> (code \<noteq> RR_OK \<and> r = Inr (code, res))"
  by (cases r) (auto simp: rr_then_def split: prod.splits)

lemma rr_then_OK [simp]: "rr_then (Inr (RR_OK, res)) f = f res"
  by (simp add: rr_then_def)

lemma rr_then_stop [simp]: "code \<noteq> RR_OK \<Longrightarrow> rr_then (Inr (code, res)) f = Inr (code, res)"
  by (simp add: rr_then_def)

lemma rr_then_fault [simp]: "rr_then (Inl e) f = Inl e"
  by (simp add: rr_then_def)

text \<open>The buffer of the redirect is large enough.\<close>

lemma tls_location_eq:
  "tls_location newp host path query =
     newp @ ''://'' @ host @ ''/'' @ (case path of None \<Rightarrow> [] | Some p \<Rightarrow> p)
       @ (case query of None \<Rightarrow> [] | Some q \<Rightarrow> CHR ''?'' # q)"
  by (cases path; cases query) (simp_all add: tls_location_def Let_def)

lemma rewrite_path_eq:
  "(case path of None \<Rightarrow> 0 | Some p \<Rightarrow> length p) \<ge> n \<Longrightarrow>
   rewrite_path rp n path = Inr (case rp_rewrite_target rp of None \<Rightarrow> path
     | Some target \<Rightarrow> Some (target @ (case path of None \<Rightarrow> [] | Some p \<Rightarrow> drop n p)))"
  by (simp add: rewrite_path_def split: option.splits)

lemma rr_check_tls_OK:
  assumes "rz_host res = Some rh" and "rz_path res = Some rp" and "rr_host req = Some host"
  shows "rr_check_tls req res = (case rr_proto req of None \<Rightarrow> Inl Null_Pointer
     | Some proto \<Rightarrow> if tls_satisfied req rh rp then Inr (RR_OK, res)
         else Inr (moved res (tls_location (if proto = ''ws'' then ''wss'' else ''https'') host (rr_path req) (rr_query req))))"
  using assms by (auto simp: rr_check_tls_def tls_satisfied_def split: option.split)

lemma moved_code [simp]: "moved res l = (RR_OK, r) \<longleftrightarrow> False" "fst (moved res l) = RR_SYNTHETIC"
  by (simp_all add: moved_def)

lemma unauthorized_eq: "unauthorized rp res = (case rp_auth_realm rp of None \<Rightarrow> Inl Null_Pointer
   | Some realm \<Rightarrow> Inr (RR_ERR_UNAUTHORIZED,
       set_header res ''WWW-Authenticate'' (''Basic realm='' @ [CHR 0x22] @ realm @ [CHR 0x22])))"
  by (simp add: unauthorized_def set_wwwauth_header_def split: option.split)

text \<open>The decision of \<^verbatim>\<open>rr_check_auth\<close> for a request with a client address.\<close>

lemma rr_check_auth_eq:
  assumes "rz_path res = Some rp" and "rr_addr req \<noteq> None"
  shows "rr_check_auth cc req res =
    (if access_granted cc req rp then Inr (RR_OK, res)
     else if rp_auth_addr_list rp \<noteq> [] \<and> \<not> address_ok req rp
          \<and> (rp_auth_type rp = REMAP_AUTH_NONE \<or> rp_auth_satisfy rp = REMAP_SATISFY_ALL)
     then Inr (RR_ERR_FORBIDDEN, res)
     else unauthorized rp res)"
proof -
  obtain addr where addr: "rr_addr req = Some addr" using assms(2) by blast
  have ad: "address_ok req rp \<longleftrightarrow> auth_check_address addr rp" by (simp add: address_ok_def addr)
  have sat: "rp_auth_satisfy rp = REMAP_SATISFY_ALL \<longleftrightarrow> rp_auth_satisfy rp \<noteq> REMAP_SATISFY_ANY"
    by (cases "rp_auth_satisfy rp") simp_all
  show ?thesis
    unfolding rr_check_auth_def access_granted_def ad sat addr assms(1)
    by (cases "rp_auth_type rp = REMAP_AUTH_NONE"; cases "rp_auth_addr_list rp = []";
        cases "rp_auth_satisfy rp = REMAP_SATISFY_ANY"; cases "auth_check_address addr rp";
        cases "basic_ok cc req rp") (simp_all add: Let_def)
qed

lemma rr_check_auth_OK_D:
  assumes "rz_path res = Some rp" and "rr_check_auth cc req res = Inr (RR_OK, res')"
  shows "res' = res \<and> access_granted cc req rp"
proof (cases "rr_addr req")
  case None
  from assms show ?thesis
    unfolding rr_check_auth_def access_granted_def assms(1) None
    by (simp add: Let_def unauthorized_eq split: if_splits option.splits)
next
  case (Some addr)
  then have ne: "rr_addr req \<noteq> None" by simp
  from assms(2) show ?thesis unfolding rr_check_auth_eq [OF assms(1) ne]
    by (simp add: unauthorized_eq split: if_splits option.splits)
qed

lemma set_header_simps [simp]:
  "rz_path (set_header res h v) = rz_path res" "rz_host (set_header res h v) = rz_host res"
  "rz_target (set_header res h v) = rz_target res" "rz_urlpath (set_header res h v) = rz_urlpath res"
  "rz_query (set_header res h v) = rz_query res"
  by (simp_all add: set_header_def)

lemma cors_allow_keeps:
  "cors_allow rp origin res = Some res' \<Longrightarrow> rz_path res' = rz_path res \<and> rz_host res' = rz_host res"
  by (auto simp: cors_allow_def split: if_splits)

lemma cors_preflight_keeps [simp]:
  "rz_path (cors_preflight rp res) = rz_path res" "rz_host (cors_preflight rp res) = rz_host res"
  by (simp_all add: cors_preflight_def opt_header_def Let_def split: option.split)

lemma rr_check_cors_keeps:
  assumes "rr_check_cors req res = Inr (code, res')"
  shows "code \<in> {RR_OK, RR_SYNTHETIC} \<and> rz_path res' = rz_path res \<and> rz_host res' = rz_host res"
  using assms cors_allow_keeps [of _ _ res]
  by (fastforce simp: rr_check_cors_def split: if_splits option.splits list.splits)

lemma rr_check_app_root_keeps:
  assumes "rr_check_app_root req res = Inr (code, res')"
  shows "code = RR_OK \<and> res' = res \<or> code = RR_SYNTHETIC"
  using assms by (auto simp: rr_check_app_root_def moved_def split: if_splits option.splits)

lemma rr_check_proto_keeps:
  assumes "rr_check_proto req res = Inr (RR_OK, res')"
  obtains p where "res' = res\<lparr>rz_proto := p\<rparr>"
proof -
  from assms obtain proto where proto: "rr_proto req = Some proto" by (auto simp: rr_check_proto_def)
  obtain rp where "rz_path res = Some rp"
    using assms by (cases "rz_path res") (simp_all add: rr_check_proto_def proto split: if_splits)
  with assms [symmetric] that show thesis
    by (cases "proto = ''http'' \<or> proto = ''https''"; cases "proto = ''ws'' \<or> proto = ''wss''")
      (simp_all add: rr_check_proto_def proto)
qed

subsection \<open>A request that passes\<close>

definition rr_found :: "'c remap_host_t \<Rightarrow> remap_path_t \<Rightarrow> 'c remap_result_t" where
  "rr_found rh rp = rr_init\<lparr>rz_host := Some rh, rz_path := Some rp\<rparr>"

lemma rr_found_simps [simp]: "rz_host (rr_found rh rp) = Some rh" "rz_path (rr_found rh rp) = Some rp"
  by (simp_all add: rr_found_def)

text \<open>What follows the redirect to TLS.\<close>

definition rr_after_tls ::
  "(string \<Rightarrow> string \<Rightarrow> bool) \<Rightarrow> nat \<Rightarrow> nat \<Rightarrow> remap_request_t \<Rightarrow> remap_path_t \<Rightarrow> 'c remap_result_t \<Rightarrow> 'c rr" where
  "rr_after_tls crypt_check rnd pfxsz req rp res =
     rr_then (rr_check_auth crypt_check req res) (\<lambda>res.
     rr_then (rr_check_cors req res) (\<lambda>res.
     rr_then (rr_check_app_root req res) (\<lambda>res.
     rr_forward rnd pfxsz req rp res)))"

lemma remap_run_eq:
  assumes "healthcheck_hit db req = Inr False" and "rr_host req = Some host" and "host \<noteq> []"
    and "remap_db_get_host db host = Some rh" and "remap_host_find_path regexec rh (rr_path req) = Inr (rp, n)"
  shows "remap_run regexec cc rnd db req =
    rr_then (rr_check_tls req (rr_found rh rp)) (rr_after_tls cc rnd n req rp)"
  by (simp add: remap_run_def assms rr_found_def rr_after_tls_def [abs_def])

lemma remap_run_found:
  assumes "remap_run regexec cc rnd db req = Inr (code, res)"
    and "code \<noteq> RR_SYNTHETIC" and "code \<noteq> RR_ERR_INVALID_HOST" and "code \<noteq> RR_ERR_NO_HOST"
  obtains host rh rp n proto where "rr_host req = Some host" "host \<noteq> []" "remap_db_get_host db host = Some rh"
    "remap_host_find_path regexec rh (rr_path req) = Inr (rp, n)"
    "rr_proto req = Some proto" "tls_satisfied req rh rp"
    "rr_after_tls cc rnd n req rp (rr_found rh rp) = Inr (code, res)"
proof -
  obtain health where h: "healthcheck_hit db req = Inr health"
    using assms(1) by (cases "healthcheck_hit db req") (simp_all add: remap_run_def)
  have health: "\<not> health" using assms(1,2) by (auto simp: remap_run_def h)
  obtain host where host: "rr_host req = Some host" "host \<noteq> []"
    using assms(1,3) health by (cases "rr_host req") (auto simp: remap_run_def h split: if_splits)
  obtain rh where rh: "remap_db_get_host db host = Some rh"
    using assms(1,4) health host by (cases "remap_db_get_host db host") (auto simp: remap_run_def h)
  obtain rp n where rp: "remap_host_find_path regexec rh (rr_path req) = Inr (rp, n)"
    using assms(1) health host rh by (cases "remap_host_find_path regexec rh (rr_path req)") (auto simp: remap_run_def h)
  have run: "rr_then (rr_check_tls req (rr_found rh rp)) (rr_after_tls cc rnd n req rp) = Inr (code, res)"
    using assms(1) remap_run_eq [OF _ host rh rp, of cc rnd] h health by simp
  obtain proto where proto: "rr_proto req = Some proto"
    using run by (cases "rr_proto req") (simp_all add: rr_check_tls_def)
  have tls: "tls_satisfied req rh rp"
    using run assms(2) by (auto simp: rr_check_tls_OK [of _ rh rp _ host] host proto moved_def split: if_splits)
  with run have "rr_after_tls cc rnd n req rp (rr_found rh rp) = Inr (code, res)"
    by (simp add: rr_check_tls_OK [of _ rh rp _ host] host proto)
  with host rh rp proto tls that show thesis by blast
qed

lemma rr_forward_OK_D:
  assumes "rr_forward rnd n req rp res = Inr (RR_OK, res')"
  shows "(\<exists>t \<in> set (rp_addrs rp). rz_target res' = Some t) \<and> rz_host res' = rz_host res \<and> rz_path res' = rz_path res
    \<and> rewrite_path rp n (rr_path req) = Inr (rz_urlpath res')
    \<and> (case rr_query req of None \<Rightarrow> Inr None | Some q \<Rightarrow> make_query rp q) = Inr (rz_query res')"
proof -
  from assms obtain urlpath query where u: "rewrite_path rp n (rr_path req) = Inr urlpath"
    and q: "(case rr_query req of None \<Rightarrow> Inr None | Some q \<Rightarrow> make_query rp q) = Inr query"
    and r: "rr_then (rr_check_proto req (res\<lparr>rz_urlpath := urlpath, rz_query := query\<rparr>)) (\<lambda>res.
       if rp_addrs rp = [] then Inr (RR_ERR_NO_BACKEND, res)
       else res_bind (remap_path_pick_target rnd rp) (\<lambda>t. Inr (RR_OK, res\<lparr>rz_target := Some t\<rparr>))) = Inr (RR_OK, res')"
    unfolding rr_forward_def by (elim res_bind_Inr_E)
  from r obtain r1 where r1: "rr_check_proto req (res\<lparr>rz_urlpath := urlpath, rz_query := query\<rparr>) = Inr (RR_OK, r1)"
    and r2: "(if rp_addrs rp = [] then Inr (RR_ERR_NO_BACKEND, r1)
       else res_bind (remap_path_pick_target rnd rp) (\<lambda>t. Inr (RR_OK, r1\<lparr>rz_target := Some t\<rparr>))) = Inr (RR_OK, res')"
    unfolding rr_then_Inr by blast
  from r1 obtain p where p: "r1 = res\<lparr>rz_urlpath := urlpath, rz_query := query, rz_proto := p\<rparr>"
    by (rule rr_check_proto_keeps) simp
  from r2 obtain t where t: "remap_path_pick_target rnd rp = Inr t" "res' = r1\<lparr>rz_target := Some t\<rparr>"
    by (auto split: if_splits)
  from t(1) have "t \<in> set (rp_addrs rp)" by (auto simp: remap_path_pick_target_def Let_def split: if_splits)
  with t(2) u q p show ?thesis by simp
qed

lemma rr_after_tls_OK_D:
  assumes "rr_after_tls cc rnd n req rp (rr_found rh rp) = Inr (RR_OK, res)"
  shows "access_granted cc req rp"
    and "\<exists>r. rz_host r = Some rh \<and> rz_path r = Some rp \<and> rr_forward rnd n req rp r = Inr (RR_OK, res)"
proof -
  from assms obtain r1 r2 r3 where r: "rr_check_auth cc req (rr_found rh rp) = Inr (RR_OK, r1)"
    "rr_check_cors req r1 = Inr (RR_OK, r2)" "rr_check_app_root req r2 = Inr (RR_OK, r3)"
    "rr_forward rnd n req rp r3 = Inr (RR_OK, res)"
    unfolding rr_after_tls_def rr_then_Inr by blast
  from rr_check_auth_OK_D [OF _ r(1)] have r1: "r1 = rr_found rh rp" "access_granted cc req rp" by simp_all
  from rr_check_cors_keeps [OF r(2)] rr_check_app_root_keeps [OF r(3)] r1(1)
  have "rz_host r3 = Some rh" "rz_path r3 = Some rp" by auto
  with r(4) r1(2) show "access_granted cc req rp"
    "\<exists>r. rz_host r = Some rh \<and> rz_path r = Some rp \<and> rr_forward rnd n req rp r = Inr (RR_OK, res)" by blast+
qed

lemma rr_after_tls_unauthorized_D:
  assumes "rr_after_tls cc rnd n req rp res0 = Inr (RR_ERR_UNAUTHORIZED, res)"
  shows "rr_check_auth cc req res0 = Inr (RR_ERR_UNAUTHORIZED, res)"
proof -
  have f: "rr_forward rnd n req rp r \<noteq> Inr (RR_ERR_UNAUTHORIZED, res)" for r
    by (auto simp: rr_forward_def rr_then_Inr rr_check_proto_def split: if_splits)
  have c: "rr_check_cors req r \<noteq> Inr (RR_ERR_UNAUTHORIZED, res)" for r
    using rr_check_cors_keeps [of req r RR_ERR_UNAUTHORIZED res] by auto
  have a: "rr_check_app_root req r \<noteq> Inr (RR_ERR_UNAUTHORIZED, res)" for r
    using rr_check_app_root_keeps [of req r RR_ERR_UNAUTHORIZED res] by auto
  from assms f c a show ?thesis unfolding rr_after_tls_def rr_then_Inr by blast
qed

subsection \<open>Query parameters\<close>

definition param_name :: "string \<Rightarrow> string" where
  "param_name p = takeWhile (\<lambda>c. c \<noteq> CHR ''='') p"

text \<open>Tables of patterns made of literals and wildcards only.\<close>

definition patterns_ok :: "unit hash option \<Rightarrow> bool" where
  "patterns_ok ops \<longleftrightarrow> (\<forall>ps. ops = Some ps \<longrightarrow> hash_ok ps
     \<and> (\<forall>k. hash_get ps k = Some () \<longrightarrow> plain_pattern CHR ''='' k \<and> plain_pattern NUL k))"

definition some_pattern :: "unit hash \<Rightarrow> string \<Rightarrow> bool" where
  "some_pattern ps s \<longleftrightarrow> (\<exists>k. hash_get ps k = Some () \<and> glob k s)"

text \<open>The documented rule: a parameter is kept if no ignore pattern matches its name and, when there is
  a whitelist, one of its patterns does.\<close>

definition wanted :: "remap_path_t \<Rightarrow> string \<Rightarrow> bool" where
  "wanted rp p \<longleftrightarrow> (\<forall>ps. rp_ignore_params rp = Some ps \<longrightarrow> \<not> some_pattern ps (param_name p))
     \<and> (\<forall>ps. rp_whitelist_params rp = Some ps \<longrightarrow> some_pattern ps (param_name p))"

lemma hash_get_unit_foreach:
  "hash_ok ps \<Longrightarrow> hash_get ps k = Some () \<longleftrightarrow> (k, ()) \<in> set (hash_foreach ps)"
  by (simp add: hash_foreach_in_iff hash_get_vals split: list.split)

lemma any_match_eq:
  assumes "\<forall>(k, u) \<in> set ks. plain_pattern t k" and "rd str n = Inr t"
  shows "any_match str n ks = Inr (\<exists>(k, u) \<in> set ks. glob k (take n str))"
  using assms(1)
proof (induction ks)
  case (Cons e ks)
  obtain k where e: "e = (k, ())" by (cases e) simp
  with Cons.prems have "strmatch str n k = Inr (glob k (take n str))"
    using strmatch_at_glob [OF _ assms(2), of k 0 0] by (simp add: strmatch_def)
  with Cons e show ?case by auto
qed simp

lemma take_param_end: "take (param_end p) p = param_name p"
proof (cases "strchr p CHR ''=''")
  case None
  then have "CHR ''='' \<notin> set p" by simp
  then have "param_name p = p" by (auto simp: param_name_def takeWhile_eq_all_conv)
  with None show ?thesis by (simp only: param_end_def option.case) simp
next
  case (Some n)
  have "param_name (take n p @ CHR ''='' # drop (Suc n) p) = take n p"
    using strchr_SomeD [OF Some] unfolding param_name_def by (subst takeWhile_append2) auto
  with Some strchr_split [OF Some] show ?thesis by (simp add: param_end_def)
qed

lemma rd_param_end: "\<exists>t. t \<in> {CHR ''='', NUL} \<and> rd p (param_end p) = Inr t"
proof (cases "strchr p CHR ''=''")
  case None
  then show ?thesis by (simp only: param_end_def option.case) (simp add: rd_def)
next
  case (Some n)
  with strchr_SomeD [OF Some] show ?thesis by (simp add: param_end_def rd_def)
qed

lemma any_match_table:
  assumes "patterns_ok (Some ps)"
  shows "any_match p (param_end p) (hash_foreach ps) = Inr (some_pattern ps (param_name p))"
proof -
  have ok: "hash_ok ps" and plain: "\<forall>k. hash_get ps k = Some () \<longrightarrow> plain_pattern CHR ''='' k \<and> plain_pattern NUL k"
    using assms by (simp_all add: patterns_ok_def)
  obtain t where t: "t \<in> {CHR ''='', NUL}" "rd p (param_end p) = Inr t" using rd_param_end by blast
  have "\<forall>(k, u) \<in> set (hash_foreach ps). plain_pattern t k"
    using plain t(1) by (auto simp: hash_get_unit_foreach [OF ok])
  from any_match_eq [OF this t(2)] show ?thesis
    by (simp add: take_param_end some_pattern_def hash_get_unit_foreach [OF ok] Bex_def)
qed

definition params_ok :: "remap_path_t \<Rightarrow> bool" where
  "params_ok rp \<longleftrightarrow> patterns_ok (rp_ignore_params rp) \<and> patterns_ok (rp_whitelist_params rp)"

lemma keep_parameter_eq: "params_ok rp \<Longrightarrow> keep_parameter rp p = Inr (wanted rp p)"
  by (cases "rp_ignore_params rp"; cases "rp_whitelist_params rp")
    (simp_all add: params_ok_def keep_parameter_def wanted_def any_match_table)

lemma kept_params_eq: "params_ok rp \<Longrightarrow> kept_params rp ps = Inr (filter (wanted rp) ps)"
  by (induction ps) (simp_all add: keep_parameter_eq)

lemma make_query_eq:
  assumes "params_ok rp"
  shows "make_query rp q = Inr (if filter (wanted rp) (strtok_all ''&'' q) = [] then None
    else Some (join_params (sort (filter (wanted rp) (strtok_all ''&'' q)))))"
  unfolding make_query_def kept_params_eq [OF assms]
  by (cases "filter (wanted rp) (strtok_all ''&'' q)") simp_all

lemma join_params_Cons: "join_params (p # ps) = (if ps = [] then p else p @ CHR ''&'' # join_params ps)"
proof (cases ps)
  case (Cons p' ps')
  then have "\<exists>m. sum_list (map (\<lambda>p. length p + 1) ps) = Suc m" by simp
  then obtain m where "sum_list (map (\<lambda>p. length p + 1) ps) = Suc m" ..
  with Cons show ?thesis by (simp add: join_params_def Let_def)
qed (simp add: join_params_def)

lemma strtok_join_params:
  "ps \<noteq> [] \<Longrightarrow> \<forall>p \<in> set ps. p \<noteq> [] \<and> set p \<inter> set ''&'' = {} \<Longrightarrow> strtok_all ''&'' (join_params ps) = ps"
proof (induction ps)
  case (Cons p ps)
  then show ?case
    by (cases "ps = []")
      (simp_all add: join_params_Cons strtok_all_token_Nil strtok_all_token_Cons [of p "''&''"])
qed simp

subsection \<open>Cache keys\<close>

definition enc8 :: "string \<Rightarrow> byte list" where
  "enc8 s = word_of_nat (length s) # map byte_of_char s"

definition enc16 :: "string \<Rightarrow> byte list" where
  "enc16 s = word_of_nat (length s mod 256) # word_of_nat (length s div 256) # map byte_of_char s"

lemma map_byte_of_char_inj [simp]: "map byte_of_char s = map byte_of_char s' \<longleftrightarrow> s = s'"
  using inj_byte_of_char by (simp add: inj_map_eq_map)

lemma word_of_nat_byte_inj: "a < 256 \<Longrightarrow> b < 256 \<Longrightarrow> (word_of_nat a :: byte) = word_of_nat b \<longleftrightarrow> a = b"
  by (simp add: word_of_nat_eq_iff take_bit_nat_eq_self)

lemma enc8_append_inj:
  assumes "length s < 256" and "length s' < 256" and "enc8 s @ x = enc8 s' @ x'"
  shows "s = s' \<and> x = x'"
proof -
  from assms(3) have "length s = length s'" using word_of_nat_byte_inj [OF assms(1,2)] by (simp add: enc8_def)
  with assms(3) show ?thesis by (simp add: enc8_def)
qed

lemma enc16_append_inj:
  assumes "length s < 65536" and "length s' < 65536" and "enc16 s @ x = enc16 s' @ x'"
  shows "s = s' \<and> x = x'"
proof -
  have d: "length s div 256 < 256" "length s' div 256 < 256" using assms(1,2) by (simp_all add: less_mult_imp_div_less)
  from assms(3) have "length s mod 256 = length s' mod 256" "length s div 256 = length s' div 256"
    using word_of_nat_byte_inj [OF d] word_of_nat_byte_inj [of "length s mod 256" "length s' mod 256"]
    by (simp_all add: enc16_def)
  then have "length s = length s'" by (metis div_mult_mod_eq)
  with assms(3) show ?thesis by (simp add: enc16_def)
qed

definition opt_text :: "string option \<Rightarrow> string" where
  "opt_text os = (case os of None \<Rightarrow> [] | Some s \<Rightarrow> s)"

lemma and_FF: "(w :: 16 word) AND 0xFF = take_bit 8 w"
  by (simp add: take_bit_eq_mask mask_eq_exp_minus_1)

lemma low_byte: "(ucast ((word_of_nat n :: 16 word) AND 0xFF) :: byte) = word_of_nat (n mod 256)"
proof -
  have "n mod 256 = take_bit 8 n" by (simp add: take_bit_eq_mod)
  then show ?thesis unfolding and_FF
    by (intro bit_word_eqI) (simp add: bit_simps)
qed

lemma high_byte: "(ucast (drop_bit 8 (word_of_nat n :: 16 word) AND 0xFF) :: byte) = word_of_nat (n div 256)"
proof -
  have "n div 256 = drop_bit 8 n" by (simp add: drop_bit_eq_div)
  then show ?thesis unfolding and_FF
    by (intro bit_word_eqI) (auto simp add: bit_simps ac_simps)
qed

lemma remap_make_cache_key_eq:
  assumes "rr_proto req = Some proto" and "rr_host req = Some host"
    and "length proto < 256" and "length host < 256"
    and "length (opt_text (rr_path req)) < 65536" and "length (opt_text (rz_query res)) < 65536"
  shows "remap_make_cache_key req res = Inr (CHR ''/'' #
    base64_encode (enc8 proto @ enc8 host @ enc16 (opt_text (rr_path req)) @ enc16 (opt_text (rz_query res))))"
proof -
  have u8: "unat (word_of_nat (length s) :: 8 word) = length s" if "length s < 256" for s :: string
    using that by (simp add: unat_of_nat take_bit_nat_eq_self)
  have u16: "unat (word_of_nat (length s) :: 16 word) = length s" if "length s < 65536" for s :: string
    using that by (simp add: unat_of_nat take_bit_nat_eq_self)
  show ?thesis
    using assms u8 [OF assms(3)] u8 [OF assms(4)] u16 [OF assms(5)] u16 [OF assms(6)]
    by (simp add: remap_make_cache_key_def Let_def opt_text_def [symmetric] enc8_def enc16_def low_byte high_byte
        del: base64_encode.simps)
qed

subsection \<open>Requests never crash a well-formed database\<close>

definition path_ok :: "remap_path_t \<Rightarrow> bool" where
  "path_ok rp \<longleftrightarrow> (rp_auth_type rp = REMAP_AUTH_NONE \<or> rp_auth_realm rp \<noteq> None) \<and> params_ok rp"

definition db_ok :: "'c remap_db_t \<Rightarrow> bool" where
  "db_ok db \<longleftrightarrow> rd_healthcheck db \<noteq> Some [] \<and>
     (\<forall>k rh. remap_db_get_host db k = Some rh \<longrightarrow> host_ok rh \<and> (\<forall>rp \<in> set (rh_paths rh). path_ok rp))"

definition request_ok :: "remap_request_t \<Rightarrow> bool" where
  "request_ok req \<longleftrightarrow> rr_proto req \<noteq> None \<and> rr_method req \<noteq> None \<and> rr_addr req \<noteq> None"

text \<open>What the C library documents of \<^verbatim>\<open>regexec\<close>: a match lies inside the string.\<close>

definition regexec_ok :: "regexec \<Rightarrow> bool" where
  "regexec_ok regexec \<longleftrightarrow> (\<forall>re p so eo. regexec re p = Some (so, eo) \<longrightarrow> so \<le> eo \<and> eo \<le> length p)"

lemma find_path_loop_prefix:
  assumes "regexec_ok regexec"
  shows "find_path_loop regexec p rps = Inr (Some (rp, n)) \<Longrightarrow> n \<le> length p"
proof (induction rps)
  case (Cons r rps)
  then obtain re where re: "rp_regex r = Some re" by (auto split: option.splits)
  show ?case
  proof (cases "regexec re p")
    case None
    with Cons re show ?thesis by simp
  next
    case (Some m)
    obtain so eo where m: "m = (so, eo)" by (cases m)
    from assms Some m have "eo \<le> length p" unfolding regexec_ok_def by blast
    with Cons.prems re Some m show ?thesis by auto
  qed
qed simp

lemma find_path_prefix:
  assumes "regexec_ok regexec" and "remap_host_find_path regexec rh path = Inr (rp, n)"
  shows "n \<le> (case path of None \<Rightarrow> 0 | Some p \<Rightarrow> length p)"
proof (cases path)
  case None
  with assms(2) show ?thesis by (auto simp: remap_host_find_path_def)
next
  case (Some p)
  from assms(2) obtain r where r: "find_path_loop regexec p (drop 1 (rh_paths rh)) = Inr r"
    and eq: "(case r of Some hit \<Rightarrow> Inr hit | None \<Rightarrow> res_bind (remap_host_get_default_path rh) (\<lambda>rp. Inr (rp, 0))) = Inr (rp, n)"
    unfolding remap_host_find_path_def Some option.case by (elim res_bind_Inr_E)
  show ?thesis
  proof (cases r)
    case None
    with eq Some show ?thesis by auto
  next
    case hit: (Some h)
    with eq r find_path_loop_prefix [OF assms(1), of p "drop 1 (rh_paths rh)" rp n] Some show ?thesis by simp
  qed
qed

lemma rr_then_total:
  assumes "\<exists>code res. r = Inr (code, res) \<and> P res" and "\<And>res. r = Inr (RR_OK, res) \<Longrightarrow> P res \<Longrightarrow> \<exists>x. f res = Inr x"
  shows "\<exists>x. rr_then r f = Inr x"
proof -
  from assms(1) obtain code res where r: "r = Inr (code, res)" "P res" by blast
  show ?thesis
  proof (cases "code = RR_OK")
    case True
    with r assms(2) show ?thesis by simp
  qed (use r in simp)
qed

lemma rr_check_cors_total:
  assumes "rz_path res = Some rp" and "rr_method req \<noteq> None"
  shows "\<exists>code res'. rr_check_cors req res = Inr (code, res') \<and> rz_path res' = Some rp"
proof -
  obtain m where m: "rr_method req = Some m" using assms(2) by blast
  have "\<exists>x. rr_check_cors req res = Inr x"
    unfolding rr_check_cors_def assms(1) m by (simp split: option.split list.split)
  then obtain code res' where r: "rr_check_cors req res = Inr (code, res')" by auto
  with rr_check_cors_keeps [OF r] assms(1) show ?thesis by auto
qed

lemma rr_check_app_root_total:
  assumes "rz_path res = Some rp"
  shows "\<exists>code res'. rr_check_app_root req res = Inr (code, res') \<and> rz_path res' = Some rp"
  using assms by (simp add: rr_check_app_root_def moved_def split: option.split)

lemma rr_check_proto_total:
  assumes "rz_path res = Some rp" and "rr_proto req \<noteq> None"
  shows "\<exists>code res'. rr_check_proto req res = Inr (code, res') \<and> True"
proof -
  obtain proto where "rr_proto req = Some proto" using assms(2) by blast
  with assms(1) show ?thesis
    by (cases "proto = ''http'' \<or> proto = ''https''"; cases "proto = ''ws'' \<or> proto = ''wss''")
      (simp_all add: rr_check_proto_def)
qed

lemma rr_forward_total:
  assumes "params_ok rp" and "n \<le> (case rr_path req of None \<Rightarrow> 0 | Some p \<Rightarrow> length p)" and "rnd \<le> RAND_MAX"
    and "rz_path res = Some rp" and "rr_proto req \<noteq> None"
  shows "\<exists>x. rr_forward rnd n req rp res = Inr x"
proof -
  obtain u where u: "rewrite_path rp n (rr_path req) = Inr u" using rewrite_path_eq [OF assms(2)] by blast
  obtain q where q: "(case rr_query req of None \<Rightarrow> Inr None | Some q \<Rightarrow> make_query rp q) = Inr q"
    using make_query_eq [OF assms(1)] by (cases "rr_query req") auto
  have t: "\<exists>t. remap_path_pick_target rnd rp = Inr t" if "rp_addrs rp \<noteq> []"
    using pick_index_less [of "length (rp_addrs rp)" rnd] assms(3) that by (simp add: remap_path_pick_target_def Let_def)
  show ?thesis
    unfolding rr_forward_def u q res_bind_simps
  proof (rule rr_then_total)
    show "\<exists>code res'. rr_check_proto req (res\<lparr>rz_urlpath := u, rz_query := q\<rparr>) = Inr (code, res') \<and> True"
      using assms(4,5) by (intro rr_check_proto_total) simp_all
    show "\<exists>x. (if rp_addrs rp = [] then Inr (RR_ERR_NO_BACKEND, r)
        else res_bind (remap_path_pick_target rnd rp) (\<lambda>t. Inr (RR_OK, r\<lparr>rz_target := Some t\<rparr>))) = Inr x" for r
      using t by auto
  qed
qed

lemma rr_after_tls_total:
  fixes res :: "'c remap_result_t"
  assumes "path_ok rp" and "n \<le> (case rr_path req of None \<Rightarrow> 0 | Some p \<Rightarrow> length p)" and "rnd \<le> RAND_MAX"
    and "rz_path res = Some rp" and "request_ok req"
  shows "\<exists>x. rr_after_tls cc rnd n req rp res = Inr x"
proof -
  have req: "rr_proto req \<noteq> None" "rr_method req \<noteq> None" "rr_addr req \<noteq> None"
    using assms(5) by (simp_all add: request_ok_def)
  have "\<exists>code r. unauthorized rp res = Inr (code, r)" if "\<not> access_granted cc req rp"
    "\<not> (rp_auth_addr_list rp \<noteq> [] \<and> \<not> address_ok req rp
          \<and> (rp_auth_type rp = REMAP_AUTH_NONE \<or> rp_auth_satisfy rp = REMAP_SATISFY_ALL))"
  proof -
    from that have "rp_auth_type rp \<noteq> REMAP_AUTH_NONE" by (auto simp: access_granted_def Let_def)
    with assms(1) have "rp_auth_realm rp \<noteq> None" by (simp add: path_ok_def)
    then show ?thesis by (auto simp: unauthorized_eq)
  qed
  then have "\<exists>code r. rr_check_auth cc req res = Inr (code, r)"
    unfolding rr_check_auth_eq [OF assms(4) req(3)] by (simp split: if_split)
  then have auth: "\<exists>code r. rr_check_auth cc req res = Inr (code, r) \<and> True" by simp
  have params: "params_ok rp" using assms(1) by (simp add: path_ok_def)
  show ?thesis
    unfolding rr_after_tls_def
  proof (rule rr_then_total [OF auth])
    fix r1 assume "rr_check_auth cc req res = Inr (RR_OK, r1)"
    with rr_check_auth_OK_D [OF assms(4)] assms(4) have r1: "rz_path r1 = Some rp" by blast
    show "\<exists>x. rr_then (rr_check_cors req r1) (\<lambda>res. rr_then (rr_check_app_root req res) (\<lambda>res. rr_forward rnd n req rp res)) = Inr x"
    proof (rule rr_then_total [OF rr_check_cors_total [OF r1 req(2)]])
      fix r2 :: "'c remap_result_t" assume r2: "rz_path r2 = Some rp"
      show "\<exists>x. rr_then (rr_check_app_root req r2) (\<lambda>res. rr_forward rnd n req rp res) = Inr x"
        by (rule rr_then_total [OF rr_check_app_root_total [OF r2]])
          (rule rr_forward_total [OF params assms(2,3) _ req(1)])
    qed
  qed
qed

subsection \<open>An example database\<close>

text \<open>One host with its default path, and a request for it.\<close>

definition example_host :: "remap_path_t \<Rightarrow> unit remap_host_t" where
  "example_host rp = (remap_host_new (\<lambda>_. True))\<lparr>rh_paths := [rp]\<rparr>"

definition example_db :: "remap_path_t \<Rightarrow> unit remap_db_t" where
  "example_db rp = (remap_db_new k8s_config_new)
     \<lparr>rd_hosts := hash_set (hash_new 4093 True) ''www.example.com'' (example_host rp)\<rparr>"

definition example_req :: "string \<Rightarrow> remap_request_t" where
  "example_req proto =
     \<lparr>rr_proto = Some proto, rr_method = Some ''GET'', rr_host = Some ''www.example.com'',
      rr_path = Some ''index.html'', rr_query = None, rr_hdrfields = hash_new 127 True,
      rr_addr = Some (Sockaddr_in 0)\<rparr>"

lemma example_req_simps [simp]:
  "rr_proto (example_req proto) = Some proto" "rr_method (example_req proto) = Some ''GET''"
  "rr_host (example_req proto) = Some ''www.example.com''" "rr_path (example_req proto) = Some ''index.html''"
  "rr_query (example_req proto) = None" "rr_hdrfields (example_req proto) = hash_new 127 True"
  "rr_addr (example_req proto) = Some (Sockaddr_in 0)"
  by (simp_all add: example_req_def)

lemma example_get_host:
  "remap_db_get_host (example_db rp) k = (if k = ''www.example.com'' then Some (example_host rp) else None)"
  by (simp add: remap_db_get_host_def example_db_def)

lemma example_run:
  "remap_run (\<lambda>_ _. None) cc rnd (example_db rp) (example_req proto) =
     rr_then (rr_check_tls (example_req proto) (rr_found (example_host rp) rp)) (rr_after_tls cc rnd 0 (example_req proto) rp)"
  by (rule remap_run_eq)
    (simp_all add: healthcheck_hit_def example_get_host remap_host_find_path_def remap_host_get_default_path_def
      example_host_def, simp add: example_db_def remap_db_new_def)

lemma example_tls:
  "rh_ctx (example_host rp) = None"
  by (simp add: example_host_def remap_host_new_eq)

definition example_path :: remap_path_t where
  "example_path = remap_path_add_address remap_path_default ''10.0.0.1'' 80"

lemma example_path_simps [simp]:
  "rp_addrs example_path = [\<lparr>rt_host = ''10.0.0.1'', rt_port = 80\<rparr>]"
  "rp_auth_type example_path = REMAP_AUTH_NONE" "rp_auth_addr_list example_path = []"
  "rp_enable_cors example_path = False" "rp_app_root example_path = None" "rp_rewrite_target example_path = None"
  "rp_no_ssl_redirect example_path = False" "rp_force_ssl_redirect example_path = False"
  "rp_secure_backends example_path = False" "rp_ignore_params example_path = None" "rp_whitelist_params example_path = None"
  by (simp_all add: example_path_def remap_path_add_address_def remap_path_default_def)

lemma example_run_OK:
  "\<exists>res. remap_run (\<lambda>_ _. None) cc 0 (example_db example_path) (example_req ''http'') = Inr (RR_OK, res)"
  unfolding example_run
  by (simp add: rr_check_tls_def example_tls rr_after_tls_def rr_check_auth_def rr_check_cors_def rr_check_app_root_def
      rr_forward_def rewrite_path_def rr_check_proto_def remap_path_pick_target_def pick_index_def RAND_MAX_def)

subsection \<open>Properties\<close>

text \<open>C2: Only an admitted request reaches a backend.  If a request is remapped, its host is in the
  database, the path is the one the search finds there, no redirect to TLS was due, the access rule of
  the path (address list, password, or both as \<^verbatim>\<open>auth-satisfy\<close> says) admits the request, the target is one of
  the backends of this path, and the backend gets the rewritten path.\<close>

theorem remap_run_sound:
  assumes "regexec_ok regexec" and "remap_run regexec crypt_check rnd db req = Inr (RR_OK, res)"
  shows "\<exists>host rh rp n t. rr_host req = Some host \<and> remap_db_get_host db host = Some rh
    \<and> remap_host_find_path regexec rh (rr_path req) = Inr (rp, n)
    \<and> rz_host res = Some rh \<and> rz_path res = Some rp
    \<and> tls_satisfied req rh rp \<and> access_granted crypt_check req rp
    \<and> rz_target res = Some t \<and> t \<in> set (rp_addrs rp)
    \<and> rz_urlpath res = (case rp_rewrite_target rp of None \<Rightarrow> rr_path req
        | Some target \<Rightarrow> Some (target @ (case rr_path req of None \<Rightarrow> [] | Some p \<Rightarrow> drop n p)))"
proof -
  from assms(2) obtain host rh rp n where f: "rr_host req = Some host" "remap_db_get_host db host = Some rh"
    "remap_host_find_path regexec rh (rr_path req) = Inr (rp, n)" "tls_satisfied req rh rp"
    "rr_after_tls crypt_check rnd n req rp (rr_found rh rp) = Inr (RR_OK, res)"
    by (rule remap_run_found) simp_all
  from rr_after_tls_OK_D [OF f(5)] obtain r where r: "access_granted crypt_check req rp" "rz_host r = Some rh"
    "rz_path r = Some rp" "rr_forward rnd n req rp r = Inr (RR_OK, res)" by blast
  from rr_forward_OK_D [OF r(4)] rewrite_path_eq [OF find_path_prefix [OF assms(1) f(3)], of rp] r(1-3) f show ?thesis
    by auto
qed

theorem remap_run_sound_witness:
  "\<exists>res t. remap_run (\<lambda>_ _. None) (\<lambda>_ _. False) 0 (example_db example_path) (example_req ''http'') = Inr (RR_OK, res)
    \<and> rz_target res = Some t \<and> rt_host t = ''10.0.0.1''"
proof -
  obtain res where run: "remap_run (\<lambda>_ _. None) (\<lambda>_ _. False) 0 (example_db example_path) (example_req ''http'') = Inr (RR_OK, res)"
    using example_run_OK by blast
  have "regexec_ok (\<lambda>_ _. None)" by (simp add: regexec_ok_def)
  from remap_run_sound [OF this run] obtain t where "rz_target res = Some t" "t \<in> set (rp_addrs example_path)"
    by (auto simp: example_get_host remap_host_find_path_def remap_host_get_default_path_def example_host_def)
  with run show ?thesis by auto
qed

text \<open>C3: The decision about access.  For a client with an address, and a path with a realm, the check lets a request pass exactly if
  the access rule of the path admits it; otherwise it answers Forbidden if the address is to blame (there is no
  authentication, or both are required and the address is not listed) and else asks for a password with the realm of the path.\<close>

theorem auth_decision:
  assumes "rz_path res = Some rp" and "rr_addr req \<noteq> None" and "rp_auth_realm rp = Some realm"
  shows "rr_check_auth crypt_check req res =
    Inr (if access_granted crypt_check req rp then (RR_OK, res)
         else if rp_auth_addr_list rp \<noteq> [] \<and> \<not> address_ok req rp
              \<and> (rp_auth_type rp = REMAP_AUTH_NONE \<or> rp_auth_satisfy rp = REMAP_SATISFY_ALL)
         then (RR_ERR_FORBIDDEN, res)
         else (RR_ERR_UNAUTHORIZED, res\<lparr>rz_headers := hash_set (rz_headers res) ''WWW-Authenticate''
                 (''Basic realm='' @ [CHR 0x22] @ realm @ [CHR 0x22])\<rparr>))"
  unfolding rr_check_auth_eq [OF assms(1,2)] unauthorized_eq assms(3) by (simp add: set_header_def)

theorem auth_decision_witness:
  "rr_check_auth (\<lambda>_ _. False) (example_req ''https'')
     (rr_found (example_host example_path) (example_path\<lparr>rp_auth_type := REMAP_AUTH_BASIC, rp_auth_realm := Some ''x''\<rparr>))
   = Inr (RR_ERR_UNAUTHORIZED,
       (rr_found (example_host example_path) (example_path\<lparr>rp_auth_type := REMAP_AUTH_BASIC, rp_auth_realm := Some ''x''\<rparr>))
         \<lparr>rz_headers := hash_set (hash_new 127 True) ''WWW-Authenticate'' (''Basic realm='' @ [CHR 0x22] @ ''x'' @ [CHR 0x22])\<rparr>)"
proof -
  let ?rp = "example_path\<lparr>rp_auth_type := REMAP_AUTH_BASIC, rp_auth_realm := Some ''x''\<rparr>"
  have "\<not> access_granted (\<lambda>_ _. False) (example_req ''https'') ?rp"
    by (simp add: access_granted_def basic_ok_def rr_auth_def Let_def)
  moreover have "rp_auth_addr_list ?rp = []" by simp
  ultimately show ?thesis
    using auth_decision [of "rr_found (example_host example_path) ?rp" ?rp "example_req ''https''" "''x''" "\<lambda>_ _. False"]
    by (simp add: rr_found_def rr_init_def)
qed

text \<open>C13: A password is never asked for over plain HTTP when the request could have been redirected to TLS:
  an answer Unauthorized means that the request came over TLS, or that the redirect is switched off for the path, or that the
  host has no certificate and no redirect is forced.\<close>

theorem password_only_after_tls:
  assumes "remap_run regexec crypt_check rnd db req = Inr (RR_ERR_UNAUTHORIZED, res)"
  shows "\<exists>host rh rp n. rr_host req = Some host \<and> remap_db_get_host db host = Some rh
    \<and> remap_host_find_path regexec rh (rr_path req) = Inr (rp, n)
    \<and> (rr_proto req \<in> {Some ''https'', Some ''wss''} \<or> rp_no_ssl_redirect rp
       \<or> rh_ctx rh = None \<and> \<not> rp_force_ssl_redirect rp)
    \<and> \<not> access_granted crypt_check req rp"
proof -
  from assms obtain host rh rp n where f: "rr_host req = Some host" "remap_db_get_host db host = Some rh"
    "remap_host_find_path regexec rh (rr_path req) = Inr (rp, n)" "tls_satisfied req rh rp"
    "rr_after_tls crypt_check rnd n req rp (rr_found rh rp) = Inr (RR_ERR_UNAUTHORIZED, res)"
    by (rule remap_run_found) simp_all
  from rr_after_tls_unauthorized_D [OF f(5)] have a: "rr_check_auth crypt_check req (rr_found rh rp) = Inr (RR_ERR_UNAUTHORIZED, res)" .
  have "\<not> access_granted crypt_check req rp"
  proof (cases "rr_addr req = None")
    case True
    with a show ?thesis
      by (simp add: rr_check_auth_def access_granted_def address_ok_def Let_def split: if_splits)
  next
    case False
    with a show ?thesis by (simp add: rr_check_auth_eq [of _ rp] split: if_splits)
  qed
  with f show ?thesis by (auto simp: tls_satisfied_def)
qed

theorem password_only_after_tls_witness:
  "\<exists>res. remap_run (\<lambda>_ _. None) (\<lambda>_ _. False) 0
       (example_db (example_path\<lparr>rp_auth_type := REMAP_AUTH_BASIC, rp_auth_realm := Some ''x''\<rparr>)) (example_req ''https'')
     = Inr (RR_ERR_UNAUTHORIZED, res)
    \<and> \<not> access_granted (\<lambda>_ _. False) (example_req ''https'') (example_path\<lparr>rp_auth_type := REMAP_AUTH_BASIC, rp_auth_realm := Some ''x''\<rparr>)"
proof -
  let ?rp = "example_path\<lparr>rp_auth_type := REMAP_AUTH_BASIC, rp_auth_realm := Some ''x''\<rparr>"
  have "\<exists>res. remap_run (\<lambda>_ _. None) (\<lambda>_ _. False) 0 (example_db ?rp) (example_req ''https'') = Inr (RR_ERR_UNAUTHORIZED, res)"
    unfolding example_run
    by (simp add: rr_check_tls_def rr_after_tls_def rr_check_auth_def basic_ok_def rr_auth_def unauthorized_eq)
  then obtain res where run: "remap_run (\<lambda>_ _. None) (\<lambda>_ _. False) 0 (example_db ?rp) (example_req ''https'')
      = Inr (RR_ERR_UNAUTHORIZED, res)" ..
  from password_only_after_tls [OF run] have "\<not> access_granted (\<lambda>_ _. False) (example_req ''https'') ?rp"
    by (auto simp: example_get_host remap_host_find_path_def remap_host_get_default_path_def example_host_def)
  with run show ?thesis by blast
qed

text \<open>C11: No request crashes or hangs the plugin.  On a database whose hosts have a default path and compiled
  patterns, whose password-protected paths have a realm and whose parameter lists are plain wildcards, and
  with a health check path that is not empty, every request with a protocol, a method and a client address
  gets an answer, whatever its host, path, query string and header fields are.\<close>

theorem remap_run_total:
  assumes "regexec_ok regexec" and "db_ok db" and "request_ok req" and "rnd \<le> RAND_MAX"
  shows "\<exists>code res. remap_run regexec crypt_check rnd db req = Inr (code, res)"
proof -
  have h: "\<exists>health. healthcheck_hit db req = Inr health"
    using assms(2) by (auto simp: healthcheck_hit_def db_ok_def split: option.split list.split)
  then obtain health where health: "healthcheck_hit db req = Inr health" ..
  have "\<exists>x. remap_run regexec crypt_check rnd db req = Inr x"
  proof (cases "health \<or> rr_host req = None \<or> rr_host req = Some [] \<or> remap_db_get_host db (the (rr_host req)) = None")
    case True
    then show ?thesis by (cases "rr_host req") (auto simp: remap_run_def health)
  next
    case False
    then obtain host rh where f: "rr_host req = Some host" "host \<noteq> []" "remap_db_get_host db host = Some rh" by auto
    with assms(2) have ok: "host_ok rh" "\<forall>rp \<in> set (rh_paths rh). path_ok rp" by (auto simp: db_ok_def)
    from remap_host_find_path_total [OF ok(1)] obtain rp n where
      rp: "remap_host_find_path regexec rh (rr_path req) = Inr (rp, n)" "rp \<in> set (rh_paths rh)" by blast
    obtain proto where proto: "rr_proto req = Some proto" using assms(3) by (auto simp: request_ok_def)
    have "\<exists>code res. rr_check_tls req (rr_found rh rp) = Inr (code, res) \<and> True"
      by (auto simp: rr_check_tls_OK [OF _ _ f(1)] proto moved_def)
    moreover have "\<exists>x. rr_after_tls crypt_check rnd n req rp res = Inr x"
      if "rr_check_tls req (rr_found rh rp) = Inr (RR_OK, res)" for res
    proof (rule rr_after_tls_total)
      show "rz_path res = Some rp" using that by (auto simp: rr_check_tls_OK [OF _ _ f(1)] proto moved_def split: if_splits)
      show "path_ok rp" using ok rp by blast
      show "n \<le> (case rr_path req of None \<Rightarrow> 0 | Some p \<Rightarrow> length p)" by (rule find_path_prefix [OF assms(1) rp(1)])
    qed (rule assms)+
    ultimately have "\<exists>x. rr_then (rr_check_tls req (rr_found rh rp)) (rr_after_tls crypt_check rnd n req rp) = Inr x"
      by (rule rr_then_total)
    with False show ?thesis using remap_run_eq [OF _ f rp(1)] health by simp
  qed
  then show ?thesis by auto
qed

theorem remap_run_total_witness:
  "\<exists>code res. remap_run (\<lambda>_ _. None) (\<lambda>_ _. False) 7 (example_db example_path) (example_req ''ftp'') = Inr (code, res)"
proof (rule remap_run_total)
  show "db_ok (example_db example_path)"
    by (simp add: db_ok_def example_get_host path_ok_def params_ok_def patterns_ok_def)
      (simp add: example_db_def remap_db_new_def example_host_def host_ok_def path_ok_def params_ok_def patterns_ok_def)
qed (simp_all add: regexec_ok_def request_ok_def RAND_MAX_def)

text \<open>C39: A path with a password but no realm crashes the plugin.  The annotation \<^verbatim>\<open>auth-realm\<close> is documented as
  optional; when it is missing, the first request that has to be asked for a password reads through a NULL pointer.\<close>

theorem missing_realm_crashes:
  assumes "healthcheck_hit db req = Inr False" and "rr_host req = Some host" and "host \<noteq> []"
    and "remap_db_get_host db host = Some rh" and "remap_host_find_path regexec rh (rr_path req) = Inr (rp, n)"
    and "rr_proto req \<noteq> None" and "tls_satisfied req rh rp"
    and "rp_auth_type rp \<noteq> REMAP_AUTH_NONE" and "rp_auth_addr_list rp = []" and "rp_auth_realm rp = None"
    and "hash_get (rr_hdrfields req) ''authorization'' = None"
  shows "remap_run regexec crypt_check rnd db req = Inl Null_Pointer"
proof -
  obtain proto where proto: "rr_proto req = Some proto" using assms(6) by blast
  have "rr_check_auth crypt_check req (rr_found rh rp) = Inl Null_Pointer"
    by (simp add: rr_check_auth_def assms basic_ok_def rr_auth_def unauthorized_eq)
  then show ?thesis
    unfolding remap_run_eq [OF assms(1-5)]
    by (simp add: rr_check_tls_OK [OF _ _ assms(2)] proto assms(7) rr_after_tls_def)
qed

theorem missing_realm_crashes_witness:
  "remap_run (\<lambda>_ _. None) (\<lambda>_ _. False) 0 (example_db (example_path\<lparr>rp_auth_type := REMAP_AUTH_BASIC, rp_auth_realm := None\<rparr>))
     (example_req ''https'') = Inl Null_Pointer"
  by (rule missing_realm_crashes [where host = "''www.example.com''"
        and rh = "example_host (example_path\<lparr>rp_auth_type := REMAP_AUTH_BASIC, rp_auth_realm := None\<rparr>)" and n = 0
        and rp = "example_path\<lparr>rp_auth_type := REMAP_AUTH_BASIC, rp_auth_realm := None\<rparr>"])
    (simp_all add: healthcheck_hit_def example_db_def remap_db_new_def remap_db_get_host_def example_host_def
      remap_host_find_path_def remap_host_get_default_path_def tls_satisfied_def)

text \<open>C23: The query string sent to the backend is always put into a canonical form.  With plain wildcard lists, splitting it gives the
  wanted parameters of the request in sorted order, each as often as it occurs; there is none if no
  parameter is wanted.  Two requests with the same wanted parameters in any order get the same query string.  The code does so on
  every path, also on one without any of the cache annotations.  \<^verbatim>\<open>docs/caching.md\<close> makes sorting an option of its own
  (\<^verbatim>\<open>cache-sort-query-params\<close>, which the code does not know) and says that only the annotations change the query string.\<close>

theorem make_query_canonical:
  assumes "params_ok rp"
  shows "\<exists>r. make_query rp q = Inr r
    \<and> (r = None \<longleftrightarrow> filter (wanted rp) (strtok_all ''&'' q) = [])
    \<and> strtok_all ''&'' (opt_text r) = sort (filter (wanted rp) (strtok_all ''&'' q))
    \<and> (\<forall>q'. mset (filter (wanted rp) (strtok_all ''&'' q')) = mset (filter (wanted rp) (strtok_all ''&'' q))
         \<longrightarrow> make_query rp q' = Inr r)"
proof -
  let ?ps = "filter (wanted rp) (strtok_all ''&'' q)"
  have tok: "\<forall>p \<in> set (sort ?ps). p \<noteq> [] \<and> set p \<inter> set ''&'' = {}"
    using strtok_all_tokens [of _ "''&''" q] by auto
  have ne: "sort ?ps = [] \<longleftrightarrow> ?ps = []" by (metis mset_sort mset_zero_iff)
  have eq: "make_query rp q' = make_query rp q" if "mset (filter (wanted rp) (strtok_all ''&'' q')) = mset ?ps" for q'
  proof -
    from that have "sort (filter (wanted rp) (strtok_all ''&'' q')) = sort ?ps" by (metis mset_sort properties_for_sort sorted_sort)
    moreover have "filter (wanted rp) (strtok_all ''&'' q') = [] \<longleftrightarrow> ?ps = []" using that by (metis mset_zero_iff)
    ultimately show ?thesis by (simp add: make_query_eq [OF assms])
  qed
  show ?thesis
  proof (cases "?ps = []")
    case True
    have q: "make_query rp q = Inr None" by (simp add: make_query_eq [OF assms] True)
    show ?thesis
    proof (intro exI conjI allI impI)
      show "strtok_all ''&'' (opt_text None) = sort ?ps"
        by (simp add: opt_text_def True strtok_all.simps [of _ "[]"] strtok_r_def)
    qed (use True eq q in simp_all)
  next
    case False
    have q: "make_query rp q = Inr (Some (join_params (sort ?ps)))" by (simp add: make_query_eq [OF assms] False)
    show ?thesis
    proof (intro exI conjI allI impI)
      show "strtok_all ''&'' (opt_text (Some (join_params (sort ?ps)))) = sort ?ps"
        using False ne strtok_join_params [OF _ tok] by (simp add: opt_text_def)
    qed (use False eq q in simp_all)
  qed
qed

theorem make_query_canonical_witness:
  "make_query example_path ''b=2&a=1&&c'' = make_query example_path ''c&a=1&b=2''
   \<and> (\<exists>r. make_query example_path ''b=2&a=1&&c'' = Inr (Some r) \<and> strtok_all ''&'' r = [''a=1'', ''b=2'', ''c''])"
proof -
  have ok: "params_ok example_path" by (simp add: params_ok_def patterns_ok_def)
  have w: "wanted example_path p" for p by (simp add: wanted_def)
  have tok: "strtok_all ''&'' ''b=2&a=1&&c'' = [''b=2'', ''a=1'', ''c'']" "mset (strtok_all ''&'' ''c&a=1&b=2'') = mset [''b=2'', ''a=1'', ''c'']"
    by (simp_all add: strtok_all.simps strtok_r_def)
  have "sort [''b=2'', ''a=1'', ''c''] = [''a=1'', ''b=2'', ''c'']" by (simp add: less_eq_list_code less_char_def)
  with make_query_canonical [OF ok, of "''b=2&a=1&&c''"] w tok show ?thesis by (auto simp: opt_text_def)
qed

text \<open>C22: Different requests have different cache keys, as long as the protocol and the host are shorter than 256
  characters and the path and the query string sent to the backend are shorter than 65536: equal keys mean equal protocols,
  hosts, paths and query strings (a missing one counts as an empty one).\<close>

theorem cache_key_injective:
  assumes "remap_make_cache_key req res = Inr key" and "remap_make_cache_key req' res' = Inr key"
    and "\<forall>r \<in> {req, req'}. length (opt_text (rr_proto r)) < 256 \<and> length (opt_text (rr_host r)) < 256
      \<and> length (opt_text (rr_path r)) < 65536"
    and "\<forall>z \<in> {res, res'}. length (opt_text (rz_query z)) < 65536"
  shows "rr_proto req = rr_proto req' \<and> rr_host req = rr_host req'
    \<and> opt_text (rr_path req) = opt_text (rr_path req') \<and> opt_text (rz_query res) = opt_text (rz_query res')"
proof -
  obtain p h where p: "rr_proto req = Some p" "rr_host req = Some h"
    using assms(1) by (auto simp: remap_make_cache_key_def)
  obtain p' h' where p': "rr_proto req' = Some p'" "rr_host req' = Some h'"
    using assms(2) by (auto simp: remap_make_cache_key_def)
  have b: "length p < 256" "length h < 256" "length p' < 256" "length h' < 256"
    using assms(3) p p' by (simp_all add: opt_text_def)
  let ?e = "\<lambda>p h r z. enc8 p @ enc8 h @ enc16 (opt_text (rr_path r)) @ enc16 (opt_text (rz_query z))"
  have "base64_encode (?e p h req res) = base64_encode (?e p' h' req' res')"
    using remap_make_cache_key_eq [OF p b(1,2), of res] remap_make_cache_key_eq [OF p' b(3,4), of res'] assms
    by (simp del: base64_encode.simps)
  then have e: "?e p h req res = ?e p' h' req' res'" by (simp only: base64_encode_inj)
  from enc8_append_inj [OF b(1,3) e] have 1: "p = p'"
    "enc8 h @ enc16 (opt_text (rr_path req)) @ enc16 (opt_text (rz_query res))
      = enc8 h' @ enc16 (opt_text (rr_path req')) @ enc16 (opt_text (rz_query res'))" by simp_all
  from enc8_append_inj [OF b(2,4) 1(2)] have 2: "h = h'"
    "enc16 (opt_text (rr_path req)) @ enc16 (opt_text (rz_query res))
      = enc16 (opt_text (rr_path req')) @ enc16 (opt_text (rz_query res'))" by simp_all
  from enc16_append_inj [OF _ _ 2(2)] assms(3) have 3: "opt_text (rr_path req) = opt_text (rr_path req')"
    "enc16 (opt_text (rz_query res)) @ [] = enc16 (opt_text (rz_query res')) @ []" by simp_all
  from enc16_append_inj [OF _ _ 3(2)] assms(4) 1 2 3 p p' show ?thesis by simp
qed

theorem cache_key_injective_witness:
  "remap_make_cache_key (example_req ''http'') (rr_found (example_host example_path) example_path)
   \<noteq> remap_make_cache_key (example_req ''https'') (rr_found (example_host example_path) example_path)"
proof
  let ?z = "rr_found (example_host example_path) example_path"
  assume eq: "remap_make_cache_key (example_req ''http'') ?z = remap_make_cache_key (example_req ''https'') ?z"
  obtain key where key: "remap_make_cache_key (example_req ''http'') ?z = Inr key"
    by (simp add: remap_make_cache_key_def Let_def)
  have "rz_query ?z = None" by (simp add: rr_found_def rr_init_def)
  with cache_key_injective [OF key key [unfolded eq]] show False by (simp add: opt_text_def)
qed

text \<open>Longer paths collide.  The length of the path is cut to 16 bits, and only that many characters go into
  the key: two paths whose lengths agree modulo 65536 and which agree on that many first characters have the same key,
  so that the cached response of one is served for the other.\<close>

theorem cache_key_collision:
  assumes "length p mod 65536 = length p' mod 65536"
    and "take (length p mod 65536) p = take (length p' mod 65536) p'"
  shows "remap_make_cache_key (req\<lparr>rr_path := Some p\<rparr>) res = remap_make_cache_key (req\<lparr>rr_path := Some p'\<rparr>) res"
proof -
  have w: "(word_of_nat n :: 16 word) = word_of_nat (n mod 65536)" for n
    by (simp add: word_of_nat_eq_iff take_bit_eq_mod)
  have u: "unat (word_of_nat n :: 16 word) = n mod 65536" for n by (simp add: unat_of_nat)
  have "(word_of_nat (length p) :: 16 word) = word_of_nat (length p')"
    unfolding w [of "length p"] w [of "length p'"] assms(1) ..
  with assms(2) show ?thesis by (simp add: remap_make_cache_key_def Let_def u del: base64_encode.simps)
qed

theorem cache_key_collision_witness:
  "remap_make_cache_key ((example_req ''http'')\<lparr>rr_path := Some (replicate 65536 CHR ''a'')\<rparr>) (rr_found (example_host example_path) example_path)
   = remap_make_cache_key ((example_req ''http'')\<lparr>rr_path := Some (replicate 65536 CHR ''b'')\<rparr>) (rr_found (example_host example_path) example_path)"
  by (rule cache_key_collision) simp_all

end
