(* ===== verification/Remap_Build.thy ===== *)
theory Remap_Build
  imports Remap_Db
begin

text \<open>
  Building the remap database from the cluster state (\<^verbatim>\<open>remap/remap_build.c\<close>).  The state of the build
  is the database and the cluster: attaching a default certificate looks up the namespace of its secret
  and thereby creates it in the cluster.  The pointers to a host that the code changes are entries of the
  host table, written back with \<open>hash_store\<close>.

  The C library and OpenSSL are parameters, collected in one record.
\<close>

record ('c, 'x, 'k) ext_ops =
  ext_regcomp :: "string \<Rightarrow> bool"
  ext_pton4 :: "string \<Rightarrow> byte list option"
  ext_pton6 :: "string \<Rightarrow> byte list option"
  ext_ssl :: "('c, 'x, 'k) ssl_ops"

type_synonym 'c build = "'c remap_db_t \<times> cluster_t"

subsection \<open>Backends\<close>

definition add_subset_address :: "int \<Rightarrow> endpoints_address_t \<Rightarrow> remap_path_t \<Rightarrow> remap_path_t res" where
  "add_subset_address port addr rp =
     res_bind (deref (ea_ip addr)) (\<lambda>ip. Inr (remap_path_add_address rp ip port))"

definition add_subset :: "service_port_t \<Rightarrow> endpoints_subset_t \<Rightarrow> remap_path_t \<Rightarrow> remap_path_t res" where
  "add_subset port es rp =
     (case hash_get (es_ports es) (sp_name port) of
        None \<Rightarrow> Inr rp
      | Some epp \<Rightarrow> res_fold (add_subset_address (et_port epp)) (es_addrs es) rp)"

definition build_add_endpoints ::
  "namespace_t \<Rightarrow> service_t \<Rightarrow> string option \<Rightarrow> remap_path_t \<Rightarrow> remap_path_t res" where
  "build_add_endpoints ns svc port_name rp =
     res_bind (deref (sv_type svc)) (\<lambda>ty.
     if ty = ''ExternalName'' then
       res_bind (deref port_name) (\<lambda>pn.
       res_bind (deref (sv_external_name svc)) (\<lambda>ext.
       Inr (remap_path_add_address rp ext (atoi pn))))
     else
       res_bind (deref port_name) (\<lambda>pn.
       res_bind (service_find_port svc pn SV_P_TCP) (\<lambda>oport.
       case oport of
         None \<Rightarrow> Inr rp
       | Some port \<Rightarrow>
           (case namespace_get_endpoints ns (sv_name svc) of
              None \<Rightarrow> Inr rp
            | Some eps \<Rightarrow> res_fold (add_subset port) (ep_subsets eps) rp))))"

subsection \<open>Rules\<close>

text \<open>One path of a rule: the body of the loop of \<^verbatim>\<open>build_ingress_rule\<close>.\<close>

definition build_path ::
  "('c, 'x, 'k) ext_ops \<Rightarrow> cluster_config_t \<Rightarrow> namespace_t \<Rightarrow> ingress_t \<Rightarrow> ingress_path_t
    \<Rightarrow> 'c remap_host_t \<Rightarrow> 'c remap_host_t res" where
  "build_path E cc ns ing path rh =
     res_bind (deref (ip_service_name path)) (\<lambda>service.
     case namespace_get_service ns service of
       None \<Rightarrow> Inr rh
     | Some svc \<Rightarrow>
         (let (rh, idx) = (case ip_path path of
                Some p \<Rightarrow> remap_host_new_path (ext_regcomp E) rh (Some p)
              | None \<Rightarrow> (remap_host_annotate rh cc (in_annotations ing), Some 0))
          in case idx of
               None \<Rightarrow> Inr rh
             | Some i \<Rightarrow>
                 if length (rh_paths rh) \<le> i then Inl Null_Pointer
                 else
                   res_bind (remap_path_annotate (ext_pton4 E) (ext_pton6 E) ns (rh_paths rh ! i) (in_annotations ing)) (\<lambda>rp.
                   res_bind (build_add_endpoints ns svc (ip_service_port path) rp) (\<lambda>rp.
                   Inr (rh\<lparr>rh_paths := (rh_paths rh)[i := rp]\<rparr>)))))"

definition build_ingress_rule ::
  "('c, 'x, 'k) ext_ops \<Rightarrow> namespace_t \<Rightarrow> ingress_t \<Rightarrow> ingress_rule_t \<Rightarrow> 'c build \<Rightarrow> 'c build res" where
  "build_ingress_rule E ns ing rule st =
     (case st of (db, cs) \<Rightarrow>
      (case ir_host rule of
         None \<Rightarrow> Inr (db, cs)
       | Some host \<Rightarrow>
           if \<not> cluster_domain_for_ns cs host (ns_name ns) then Inr (db, cs)
           else
             (case remap_db_get_or_create_host (ext_regcomp E) db host of (db, rh) \<Rightarrow>
              res_bind (remap_host_attach_default_tls (ext_ssl E) host cs rh) (\<lambda>(cs, rh).
              res_bind (res_fold (build_path E (cs_config cs) ns ing) (ir_paths rule) rh) (\<lambda>rh.
              Inr (db\<lparr>rd_hosts := hash_store (rd_hosts db) host (\<lambda>_. rh)\<rparr>, cs))))))"

subsection \<open>TLS\<close>

text \<open>The loop over the hosts of a TLS entry; it ends at the first host that the namespace may not use.\<close>

fun build_tls_hosts ::
  "('c, 'x, 'k) ext_ops \<Rightarrow> cluster_t \<Rightarrow> string \<Rightarrow> secret_t \<Rightarrow> string list \<Rightarrow> 'c remap_db_t \<Rightarrow> 'c remap_db_t res" where
  "build_tls_hosts E cs nsname secret [] db = Inr db"
| "build_tls_hosts E cs nsname secret (hostname # hosts) db =
     (if \<not> cluster_domain_for_ns cs hostname nsname then Inr db
      else
        (case remap_db_get_or_create_host (ext_regcomp E) db hostname of (db, rh) \<Rightarrow>
         res_bind (secret_make_ssl_ctx (ext_ssl E) secret) (\<lambda>ctx.
         build_tls_hosts E cs nsname secret hosts
           (db\<lparr>rd_hosts := hash_store (rd_hosts db) hostname (\<lambda>_. rh\<lparr>rh_ctx := ctx\<rparr>)\<rparr>))))"

definition build_ingress_tls ::
  "('c, 'x, 'k) ext_ops \<Rightarrow> namespace_t \<Rightarrow> ingress_tls_t \<Rightarrow> 'c build \<Rightarrow> 'c build res" where
  "build_ingress_tls E ns itls st =
     (case st of (db, cs) \<Rightarrow>
      res_bind (deref (it_secret_name itls)) (\<lambda>name.
      case namespace_get_secret ns name of
        None \<Rightarrow> Inr (db, cs)
      | Some secret \<Rightarrow>
          res_bind (build_tls_hosts E cs (ns_name ns) secret (it_hosts itls) db) (\<lambda>db. Inr (db, cs))))"

subsection \<open>Ingresses, namespaces, the cluster\<close>

definition class_handled :: "k8s_config_t \<Rightarrow> ingress_t \<Rightarrow> bool" where
  "class_handled cfg ing =
     (case hash_get (in_annotations ing) IN_CLASS of
        None \<Rightarrow> True
      | Some cls \<Rightarrow> hash_get (co_classes cfg) cls = Some ())"

definition build_ingress ::
  "('c, 'x, 'k) ext_ops \<Rightarrow> namespace_t \<Rightarrow> ingress_t \<Rightarrow> 'c build \<Rightarrow> 'c build res" where
  "build_ingress E ns ing st =
     (if \<not> class_handled (rd_config (fst st)) ing then Inr st
      else
        res_bind (res_fold (build_ingress_rule E ns ing) (in_rules ing) st) (\<lambda>st.
        res_fold (build_ingress_tls E ns) (in_tls ing) st))"

definition build_namespace :: "('c, 'x, 'k) ext_ops \<Rightarrow> namespace_t \<Rightarrow> 'c build \<Rightarrow> 'c build res" where
  "build_namespace E ns st =
     res_fold (\<lambda>e. build_ingress E ns (snd e)) (hash_foreach (ns_ingresses ns)) st"

text \<open>
  The build walks over the namespaces of the cluster while it may add namespaces to it.  A namespace that is added on the
  way is empty, so it does not matter whether the walk meets it (\<open>build_namespace_empty\<close> below); the model walks over
  the namespaces that were there at the start.
\<close>

definition remap_db_from_cluster ::
  "('c, 'x, 'k) ext_ops \<Rightarrow> k8s_config_t \<Rightarrow> cluster_t \<Rightarrow> 'c build res" where
  "remap_db_from_cluster E cfg cluster =
     res_bind (res_fold (\<lambda>e. build_namespace E (snd e)) (hash_foreach (cs_namespaces cluster)) (remap_db_new cfg, cluster)) (\<lambda>(db, cs).
     Inr (db\<lparr>rd_healthcheck := Some (cc_healthcheck (cs_config cs))\<rparr>, cs))"

lemma build_namespace_empty: "build_namespace E (namespace_make name) st = Inr st"
  by (simp add: build_namespace_def namespace_make_def hash_foreach_eq) (simp add: hash_new_def)

subsection \<open>Invariants of the hosts of a built database\<close>

text \<open>An Ingress of the cluster that names a host, has a class the plugin handles, and whose namespace may use
  the host.\<close>

definition names_host :: "ingress_t \<Rightarrow> string \<Rightarrow> bool" where
  "names_host ing h \<longleftrightarrow> (\<exists>rule \<in> set (in_rules ing). ir_host rule = Some h) \<or> (\<exists>itls \<in> set (in_tls ing). h \<in> set (it_hosts itls))"

definition may_serve :: "k8s_config_t \<Rightarrow> cluster_t \<Rightarrow> namespace_t \<Rightarrow> ingress_t \<Rightarrow> string \<Rightarrow> bool" where
  "may_serve cfg cs ns ing h \<longleftrightarrow> ns \<in> snd ` set (hash_foreach (cs_namespaces cs))
     \<and> ing \<in> snd ` set (hash_foreach (ns_ingresses ns))
     \<and> class_handled cfg ing \<and> names_host ing h \<and> cluster_domain_for_ns cs h (ns_name ns)"

lemma domain_for_ns_config:
  assumes "cs_config cs = cs_config cs'"
  shows "cluster_domain_for_ns cs = cluster_domain_for_ns cs'"
  unfolding cluster_domain_for_ns_def assms ..

text \<open>
  A property of hosts that the build establishes: it holds for a new host that some Ingress may serve, it
  does not depend on the TLS context, and adding a path of a rule of such an Ingress keeps it.
\<close>

locale host_invariant =
  fixes E :: "('c, 'x, 'k) ext_ops"
    and cfg :: k8s_config_t
    and cs0 :: cluster_t
    and P :: "string \<Rightarrow> 'c remap_host_t \<Rightarrow> bool"
  assumes P_new: "may_serve cfg cs0 ns ing h \<Longrightarrow> P h (remap_host_new (ext_regcomp E))"
    and P_ctx: "P h rh \<Longrightarrow> P h (rh\<lparr>rh_ctx := ctx\<rparr>)"
    and P_path: "may_serve cfg cs0 ns ing h \<Longrightarrow> rule \<in> set (in_rules ing) \<Longrightarrow> ir_host rule = Some h
      \<Longrightarrow> path \<in> set (ir_paths rule) \<Longrightarrow> P h rh \<Longrightarrow> build_path E (cs_config cs0) ns ing path rh = Inr rh' \<Longrightarrow> P h rh'"
begin

definition db_inv :: "'c remap_db_t \<Rightarrow> bool" where
  "db_inv db \<longleftrightarrow> rd_config db = cfg \<and> hash_ok (rd_hosts db) \<and> (\<forall>k. length (hash_vals (rd_hosts db) k) \<le> 1)
     \<and> (\<forall>h rh. remap_db_get_host db h = Some rh \<longrightarrow> P h rh)"

definition build_inv :: "'c build \<Rightarrow> bool" where
  "build_inv st \<longleftrightarrow> db_inv (fst st) \<and> cs_config (snd st) = cs_config cs0"

lemma db_inv_store:
  assumes "db_inv db" and "P h rh"
  shows "db_inv (db\<lparr>rd_hosts := hash_store (rd_hosts db) h (\<lambda>_. rh)\<rparr>)"
  using assms unfolding db_inv_def remap_db_get_host_def
  by (auto simp: ht.length_vals_store simp del: hash_vals_store split: if_splits)

lemma get_or_create:
  assumes "db_inv db" and "may_serve cfg cs0 ns ing h" and "remap_db_get_or_create_host (ext_regcomp E) db h = (db', rh)"
  shows "db_inv db' \<and> P h rh"
proof (cases "remap_db_get_host db h")
  case None
  then have "hash_vals (rd_hosts db) h = []" by (simp add: remap_db_get_host_def hash_get_vals split: list.splits)
  with None assms P_new [OF assms(2)] show ?thesis
    by (auto simp: remap_db_get_or_create_host_def Let_def db_inv_def remap_db_get_host_def split: if_splits)
next
  case (Some rh0)
  with assms show ?thesis by (auto simp: remap_db_get_or_create_host_def db_inv_def)
qed

lemma attach:
  assumes "P h rh" and "remap_host_attach_default_tls S h cs rh = Inr (cs', rh')"
  shows "P h rh' \<and> cs_config cs' = cs_config cs"
proof (cases "cluster_get_cert_for_hostname cs h")
  case None
  with assms show ?thesis by (simp add: remap_host_attach_default_tls_def)
next
  case (Some crt)
  have "cs_config (cluster_get_namespace cs n) = cs_config cs" for n
    by (simp add: cluster_get_namespace_def split: option.split)
  with Some assms P_ctx show ?thesis
    by (auto simp: remap_host_attach_default_tls_def Let_def split: option.splits)
qed

lemma rule_inv:
  assumes "ns \<in> snd ` set (hash_foreach (cs_namespaces cs0))" and "ing \<in> snd ` set (hash_foreach (ns_ingresses ns))"
    and "class_handled cfg ing" and "rule \<in> set (in_rules ing)"
    and "build_inv st" and "build_ingress_rule E ns ing rule st = Inr st'"
  shows "build_inv st'"
proof -
  obtain db cs where st: "st = (db, cs)" by (cases st)
  with assms(5) have inv: "db_inv db" "cs_config cs = cs_config cs0" by (simp_all add: build_inv_def)
  show ?thesis
  proof (cases "ir_host rule = None \<or> \<not> cluster_domain_for_ns cs (the (ir_host rule)) (ns_name ns)")
    case True
    with assms(5,6) st show ?thesis by (cases "ir_host rule") (auto simp: build_ingress_rule_def)
  next
    case False
    then obtain h where h: "ir_host rule = Some h" "cluster_domain_for_ns cs h (ns_name ns)" by auto
    from h(2) inv(2) have "cluster_domain_for_ns cs0 h (ns_name ns)" using domain_for_ns_config by metis
    with assms(1-4) h(1) have may: "may_serve cfg cs0 ns ing h" by (auto simp: may_serve_def names_host_def)
    obtain db1 rh1 where c: "remap_db_get_or_create_host (ext_regcomp E) db h = (db1, rh1)"
      by (cases "remap_db_get_or_create_host (ext_regcomp E) db h")
    from get_or_create [OF inv(1) may c] have 1: "db_inv db1" "P h rh1" by simp_all
    from assms(6) st h c obtain cs2 rh2 rh3 where
      a: "remap_host_attach_default_tls (ext_ssl E) h cs rh1 = Inr (cs2, rh2)"
      and f: "res_fold (build_path E (cs_config cs2) ns ing) (ir_paths rule) rh2 = Inr rh3"
      and st': "st' = (db1\<lparr>rd_hosts := hash_store (rd_hosts db1) h (\<lambda>_. rh3)\<rparr>, cs2)"
      by (auto simp: build_ingress_rule_def split: prod.splits)
    from attach [OF 1(2) a] inv(2) have 2: "P h rh2" "cs_config cs2 = cs_config cs0" by simp_all
    have "P h rh3"
      by (rule res_fold_invariant [where I = "P h", OF _ 2(1) f]) (use P_path [OF may assms(4) h(1)] 2(2) in auto)
    with db_inv_store [OF 1(1)] st' 2(2) show ?thesis by (simp add: build_inv_def)
  qed
qed

lemma tls_hosts_inv:
  assumes "\<And>h. h \<in> set hosts \<Longrightarrow> cluster_domain_for_ns cs0 h nsname \<Longrightarrow> \<exists>ns ing. may_serve cfg cs0 ns ing h"
    and "cs_config cs = cs_config cs0" and "db_inv db" and "build_tls_hosts E cs nsname secret hosts db = Inr db'"
  shows "db_inv db'"
  using assms(1,3,4)
proof (induction hosts arbitrary: db)
  case (Cons h hosts)
  show ?case
  proof (cases "cluster_domain_for_ns cs h nsname")
    case False
    with Cons.prems show ?thesis by simp
  next
    case True
    then have "cluster_domain_for_ns cs0 h nsname" using domain_for_ns_config [OF assms(2)] by simp
    with Cons.prems(1) [of h] obtain ns ing where may: "may_serve cfg cs0 ns ing h" by auto
    obtain db1 rh1 where c: "remap_db_get_or_create_host (ext_regcomp E) db h = (db1, rh1)"
      by (cases "remap_db_get_or_create_host (ext_regcomp E) db h")
    from get_or_create [OF Cons.prems(2) may c] have 1: "db_inv db1" "P h rh1" by simp_all
    from Cons.prems(3) True c obtain ctx where
      "build_tls_hosts E cs nsname secret hosts (db1\<lparr>rd_hosts := hash_store (rd_hosts db1) h (\<lambda>_. rh1\<lparr>rh_ctx := ctx\<rparr>)\<rparr>) = Inr db'"
      by auto
    then show ?thesis
      by (rule Cons.IH [OF _ db_inv_store [OF 1(1) P_ctx [OF 1(2)]], rotated]) (use Cons.prems(1) in auto)
  qed
qed simp

lemma tls_inv:
  assumes "ns \<in> snd ` set (hash_foreach (cs_namespaces cs0))" and "ing \<in> snd ` set (hash_foreach (ns_ingresses ns))"
    and "class_handled cfg ing" and "itls \<in> set (in_tls ing)"
    and "build_inv st" and "build_ingress_tls E ns itls st = Inr st'"
  shows "build_inv st'"
proof -
  obtain db cs where st: "st = (db, cs)" by (cases st)
  with assms(5) have inv: "db_inv db" "cs_config cs = cs_config cs0" by (simp_all add: build_inv_def)
  have may: "\<exists>ns ing. may_serve cfg cs0 ns ing h" if "h \<in> set (it_hosts itls)" "cluster_domain_for_ns cs0 h (ns_name ns)" for h
    using that assms(1-4) by (auto simp: may_serve_def names_host_def)
  from assms(6) st obtain name where name: "it_secret_name itls = Some name" by (auto simp: build_ingress_tls_def)
  show ?thesis
  proof (cases "namespace_get_secret ns name")
    case None
    with assms(5,6) st name show ?thesis by (simp add: build_ingress_tls_def)
  next
    case (Some secret)
    with assms(6) st name obtain db' where "build_tls_hosts E cs (ns_name ns) secret (it_hosts itls) db = Inr db'"
      and "st' = (db', cs)" by (auto simp: build_ingress_tls_def)
    with tls_hosts_inv [OF may inv(2,1)] inv(2) show ?thesis by (simp add: build_inv_def)
  qed
qed

lemma ingress_inv:
  assumes "ns \<in> snd ` set (hash_foreach (cs_namespaces cs0))" and "ing \<in> snd ` set (hash_foreach (ns_ingresses ns))"
    and "build_inv st" and "build_ingress E ns ing st = Inr st'"
  shows "build_inv st'"
proof (cases "class_handled cfg ing")
  case False
  with assms(3,4) show ?thesis by (simp add: build_ingress_def build_inv_def db_inv_def)
next
  case True
  with assms(3,4) obtain st1 where r: "res_fold (build_ingress_rule E ns ing) (in_rules ing) st = Inr st1"
    and t: "res_fold (build_ingress_tls E ns) (in_tls ing) st1 = Inr st'"
    by (auto simp: build_ingress_def build_inv_def db_inv_def)
  have "build_inv st1"
    by (rule res_fold_invariant [where I = build_inv, OF _ assms(3) r]) (rule rule_inv [OF assms(1,2) True])
  then show ?thesis
    by (rule res_fold_invariant [where I = build_inv, OF _ _ t, rotated]) (rule tls_inv [OF assms(1,2) True])
qed

lemma namespace_inv:
  assumes "ns \<in> snd ` set (hash_foreach (cs_namespaces cs0))" and "build_inv st" and "build_namespace E ns st = Inr st'"
  shows "build_inv st'"
proof (rule res_fold_invariant [where I = build_inv, OF _ assms(2) assms(3) [unfolded build_namespace_def]])
  fix e s s' assume "e \<in> set (hash_foreach (ns_ingresses ns))" and "build_inv s" and "build_ingress E ns (snd e) s = Inr s'"
  then show "build_inv s'" using ingress_inv [OF assms(1), of "snd e" s s'] by simp
qed

lemma from_cluster_inv:
  assumes "remap_db_from_cluster E cfg cs0 = Inr (db, cs)"
  shows "db_inv db \<and> cs_config cs = cs_config cs0 \<and> rd_healthcheck db = Some (cc_healthcheck (cs_config cs0))"
proof -
  from assms obtain db1 where
    f: "res_fold (\<lambda>e. build_namespace E (snd e)) (hash_foreach (cs_namespaces cs0)) (remap_db_new cfg, cs0) = Inr (db1, cs)"
    and db: "db = db1\<lparr>rd_healthcheck := Some (cc_healthcheck (cs_config cs))\<rparr>"
    by (auto simp: remap_db_from_cluster_def)
  have init: "build_inv (remap_db_new cfg, cs0)"
    by (simp add: build_inv_def db_inv_def remap_db_new_def remap_db_get_host_def)
  have "build_inv (db1, cs)"
  proof (rule res_fold_invariant [where I = build_inv, OF _ init f])
    fix e s s' assume "e \<in> set (hash_foreach (cs_namespaces cs0))" and "build_inv s" and "build_namespace E (snd e) s = Inr s'"
    then show "build_inv s'" using namespace_inv [of "snd e" s s'] by simp
  qed
  with db show ?thesis by (simp add: build_inv_def db_inv_def remap_db_get_host_def)
qed

end

subsection \<open>What adding a path does\<close>

text \<open>A target that belongs to a service of a namespace: the external name of the service, or an address and
  port of its endpoints.\<close>

definition backend_of :: "namespace_t \<Rightarrow> remap_target_t \<Rightarrow> bool" where
  "backend_of ns t \<longleftrightarrow> (\<exists>sname svc. namespace_get_service ns sname = Some svc \<and>
     (sv_type svc = Some ''ExternalName'' \<and> sv_external_name svc = Some (rt_host t) \<or>
      (\<exists>eps es addr pn epp. namespace_get_endpoints ns (sv_name svc) = Some eps \<and> es \<in> set (ep_subsets eps)
         \<and> addr \<in> set (es_addrs es) \<and> ea_ip addr = Some (rt_host t)
         \<and> hash_get (es_ports es) pn = Some epp \<and> et_port epp = rt_port t)))"

lemma remap_path_annotate_keeps:
  assumes "remap_path_annotate p4 p6 ns rp ann = Inr rp'"
  shows "rp_regex rp' = rp_regex rp \<and> rp_addrs rp' = rp_addrs rp"
proof (rule res_fold_invariant [where I = "\<lambda>s. rp_regex s = rp_regex rp \<and> rp_addrs s = rp_addrs rp"])
  show "res_fold (annotate_one p4 p6 ns) (hash_foreach ann) rp = Inr rp'"
    using assms by (simp add: remap_path_annotate_def)
  fix e :: "string \<times> string" and s s'
  assume "rp_regex s = rp_regex rp \<and> rp_addrs s = rp_addrs rp" and a: "annotate_one p4 p6 ns e s = Inr s'"
  then show "rp_regex s' = rp_regex rp \<and> rp_addrs s' = rp_addrs rp"
    using annotate_one_keeps(6,7) [of p4 p6 ns "fst e" "snd e" s s'] by simp
qed simp

lemma add_subset_keeps:
  assumes "add_subset port es rp = Inr rp'"
  shows "rp_regex rp' = rp_regex rp \<and> (\<forall>t \<in> set (rp_addrs rp'). t \<in> set (rp_addrs rp) \<or>
    (\<exists>addr epp. addr \<in> set (es_addrs es) \<and> ea_ip addr = Some (rt_host t) \<and> hash_get (es_ports es) (sp_name port) = Some epp
      \<and> et_port epp = rt_port t))"
proof (cases "hash_get (es_ports es) (sp_name port)")
  case None
  with assms show ?thesis by (simp add: add_subset_def)
next
  case (Some epp)
  let ?I = "\<lambda>s. rp_regex s = rp_regex rp \<and> (\<forall>t \<in> set (rp_addrs s). t \<in> set (rp_addrs rp) \<or>
    (\<exists>addr. addr \<in> set (es_addrs es) \<and> ea_ip addr = Some (rt_host t) \<and> et_port epp = rt_port t))"
  from assms Some have f: "res_fold (add_subset_address (et_port epp)) (es_addrs es) rp = Inr rp'" by (simp add: add_subset_def)
  have "?I rp'"
    by (rule res_fold_invariant [where I = ?I, OF _ _ f]) (auto simp: add_subset_address_def remap_path_add_address_def)
  with Some show ?thesis by auto
qed

lemma build_add_endpoints_keeps:
  assumes "build_add_endpoints ns svc pn rp = Inr rp'" and "namespace_get_service ns sname = Some svc"
  shows "rp_regex rp' = rp_regex rp \<and> (\<forall>t \<in> set (rp_addrs rp'). t \<in> set (rp_addrs rp) \<or> backend_of ns t)"
proof -
  from assms(1) obtain ty where ty: "sv_type svc = Some ty" by (auto simp: build_add_endpoints_def)
  from assms(1) ty obtain name where name: "pn = Some name" by (auto simp: build_add_endpoints_def split: if_splits)
  show ?thesis
  proof (cases "ty = ''ExternalName''")
    case True
    with assms ty name show ?thesis
      by (auto simp: build_add_endpoints_def remap_path_add_address_def backend_of_def)
  next
    case False
    with assms(1) ty name obtain oport where oport: "service_find_port svc name SV_P_TCP = Inr oport"
      by (auto simp: build_add_endpoints_def)
    show ?thesis
    proof (cases "oport = None \<or> namespace_get_endpoints ns (sv_name svc) = None")
      case True
      with assms(1) ty name oport False show ?thesis
        by (cases oport; cases "namespace_get_endpoints ns (sv_name svc)") (auto simp: build_add_endpoints_def)
    next
      case hit: False
      then obtain port eps where p: "oport = Some port" "namespace_get_endpoints ns (sv_name svc) = Some eps" by auto
      let ?I = "\<lambda>s. rp_regex s = rp_regex rp \<and> (\<forall>t \<in> set (rp_addrs s). t \<in> set (rp_addrs rp) \<or> backend_of ns t)"
      from assms(1) ty name oport False p have f: "res_fold (add_subset port) (ep_subsets eps) rp = Inr rp'"
        by (simp add: build_add_endpoints_def)
      show ?thesis
      proof (rule res_fold_invariant [where I = ?I, OF _ _ f])
        fix es s s' assume es: "es \<in> set (ep_subsets eps)" and I: "?I s" and s': "add_subset port es s = Inr s'"
        have "backend_of ns t" if "addr \<in> set (es_addrs es)" "ea_ip addr = Some (rt_host t)"
          "hash_get (es_ports es) (sp_name port) = Some epp" "et_port epp = rt_port t" for t addr epp
          unfolding backend_of_def using assms(2) p(2) es that by blast
        with add_subset_keeps [OF s'] I show "?I s'" by auto
      qed simp
    qed
  qed
qed

lemma build_path_cases:
  assumes "build_path E cc ns ing path rh = Inr rh'"
  obtains (skip) "rh' = rh"
  | (path) sname svc rh1 i rp1 rp2 where "namespace_get_service ns sname = Some svc" "i < length (rh_paths rh1)"
      "remap_path_annotate (ext_pton4 E) (ext_pton6 E) ns (rh_paths rh1 ! i) (in_annotations ing) = Inr rp1"
      "build_add_endpoints ns svc (ip_service_port path) rp1 = Inr rp2"
      "rh' = rh1\<lparr>rh_paths := (rh_paths rh1)[i := rp2]\<rparr>"
      "(\<exists>p rp0. ip_path path = Some p \<and> remap_path_new (ext_regcomp E) (Some p) = Some rp0 \<and> rh1 = rh\<lparr>rh_paths := rh_paths rh @ [rp0]\<rparr>)
       \<or> (ip_path path = None \<and> rh1 = remap_host_annotate rh cc (in_annotations ing))"
proof -
  from assms obtain sname where sname: "ip_service_name path = Some sname" by (auto simp: build_path_def)
  show thesis
  proof (cases "namespace_get_service ns sname")
    case None
    with assms sname skip show thesis by (simp add: build_path_def)
  next
    case (Some svc)
    define r where "r = (case ip_path path of
                Some p \<Rightarrow> remap_host_new_path (ext_regcomp E) rh (Some p)
              | None \<Rightarrow> (remap_host_annotate rh cc (in_annotations ing), Some 0))"
    obtain rh1 idx where rr: "r = (rh1, idx)" by (cases r)
    show thesis
    proof (cases idx)
      case None
      with rr have "rh1 = rh"
        by (auto simp: r_def remap_host_new_path_def split: option.splits)
      with assms sname Some rr None skip show thesis by (simp add: build_path_def r_def [symmetric])
    next
      case i: (Some i)
      from assms sname Some rr i obtain rp1 rp2 where "i < length (rh_paths rh1)"
        "remap_path_annotate (ext_pton4 E) (ext_pton6 E) ns (rh_paths rh1 ! i) (in_annotations ing) = Inr rp1"
        "build_add_endpoints ns svc (ip_service_port path) rp1 = Inr rp2"
        "rh' = rh1\<lparr>rh_paths := (rh_paths rh1)[i := rp2]\<rparr>"
        by (auto simp: build_path_def r_def [symmetric] split: if_splits)
      moreover have "(\<exists>p rp0. ip_path path = Some p \<and> remap_path_new (ext_regcomp E) (Some p) = Some rp0 \<and> rh1 = rh\<lparr>rh_paths := rh_paths rh @ [rp0]\<rparr>)
       \<or> (ip_path path = None \<and> rh1 = remap_host_annotate rh cc (in_annotations ing))"
        using rr i by (auto simp: r_def remap_host_new_path_def split: option.splits)
      ultimately show thesis using path Some by blast
    qed
  qed
qed

lemma build_path_host_ok:
  assumes "host_ok rh" and "build_path E cc ns ing path rh = Inr rh'"
  shows "host_ok rh'"
  using assms(2)
proof (cases rule: build_path_cases)
  case skip
  with assms(1) show ?thesis by simp
next
  case (path sname svc rh1 i rp1 rp2)
  from path(6) have "host_ok rh1"
  proof (elim disjE exE conjE)
    fix p rp0 assume "remap_path_new (ext_regcomp E) (Some p) = Some rp0" and "rh1 = rh\<lparr>rh_paths := rh_paths rh @ [rp0]\<rparr>"
    with host_ok_new_path [OF assms(1), of "ext_regcomp E" p] show ?thesis by (simp add: remap_host_new_path_def)
  qed (use assms(1) in simp)
  with path show ?thesis
    using remap_path_annotate_keeps [OF path(3)] build_add_endpoints_keeps [OF path(4,1)]
    by (simp add: host_ok_update_path)
qed

lemma build_path_targets:
  assumes "build_path E cc ns ing path rh = Inr rh'" and "rp' \<in> set (rh_paths rh')" and "t \<in> set (rp_addrs rp')"
  shows "(\<exists>rp \<in> set (rh_paths rh). t \<in> set (rp_addrs rp)) \<or> backend_of ns t"
  using assms(1)
proof (cases rule: build_path_cases)
  case skip
  with assms show ?thesis by auto
next
  case (path sname svc rh1 i rp1 rp2)
  have old: "\<exists>rp \<in> set (rh_paths rh). t \<in> set (rp_addrs rp)" if "rp \<in> set (rh_paths rh1)" "t \<in> set (rp_addrs rp)" for rp
  proof -
    have "rp_addrs rp0 = []" if "remap_path_new rc (Some p) = Some rp0" for rc p rp0
      using that by (auto simp: remap_path_new_def remap_path_default_def Let_def split: if_splits)
    with that path(6) show ?thesis by (auto simp: remap_host_annotate_def)
  qed
  have "rp' \<in> set (rh_paths rh1) \<or> rp' = rp2"
    using assms(2) path(5) set_update_subset_insert [of "rh_paths rh1" i rp2] by auto
  then show ?thesis
  proof
    assume "rp' = rp2"
    with assms(3) build_add_endpoints_keeps [OF path(4,1)] remap_path_annotate_keeps [OF path(3)] old [of "rh_paths rh1 ! i"] path(2)
    show ?thesis by auto
  qed (use old assms(3) in blast)
qed

text \<open>Three properties of the hosts of a built database: they are well formed; they are named by an Ingress
  that may serve them, and all their targets are backends of such Ingresses; and the settings of a
  host are never set when all paths of its rules are explicit.\<close>

interpretation built: host_invariant E cfg cs "\<lambda>h rh. host_ok rh"
  for E :: "('c, 'x, 'k) ext_ops" and cfg cs
  by unfold_locales (auto intro: build_path_host_ok)

definition isolated_host :: "k8s_config_t \<Rightarrow> cluster_t \<Rightarrow> string \<Rightarrow> 'c remap_host_t \<Rightarrow> bool" where
  "isolated_host cfg cs h rh \<longleftrightarrow> (\<exists>ns ing. may_serve cfg cs ns ing h)
     \<and> (\<forall>rp \<in> set (rh_paths rh). \<forall>t \<in> set (rp_addrs rp). \<exists>ns ing. may_serve cfg cs ns ing h \<and> backend_of ns t)"

interpretation isolated: host_invariant E cfg cs "isolated_host cfg cs"
  for E :: "('c, 'x, 'k) ext_ops" and cfg cs
proof
  fix ns ing h assume "may_serve cfg cs ns ing h"
  then show "isolated_host cfg cs h (remap_host_new (ext_regcomp E))"
    by (auto simp: isolated_host_def remap_host_new_eq remap_path_default_def)
next
  fix h and rh :: "'c remap_host_t" and ctx
  show "isolated_host cfg cs h rh \<Longrightarrow> isolated_host cfg cs h (rh\<lparr>rh_ctx := ctx\<rparr>)" by (simp add: isolated_host_def)
next
  fix ns ing h rule path and rh rh' :: "'c remap_host_t"
  assume may: "may_serve cfg cs ns ing h" and iso: "isolated_host cfg cs h rh"
    and b: "build_path E (cs_config cs) ns ing path rh = Inr rh'"
  have "\<exists>ns ing. may_serve cfg cs ns ing h \<and> backend_of ns t" if "rp \<in> set (rh_paths rh')" "t \<in> set (rp_addrs rp)" for rp t
    using build_path_targets [OF b that] may iso by (auto simp: isolated_host_def)
  with may show "isolated_host cfg cs h rh'" by (auto simp: isolated_host_def)
qed

definition all_paths_explicit :: "k8s_config_t \<Rightarrow> cluster_t \<Rightarrow> string \<Rightarrow> bool" where
  "all_paths_explicit cfg cs h \<longleftrightarrow> (\<forall>ns ing rule path. may_serve cfg cs ns ing h \<longrightarrow> rule \<in> set (in_rules ing)
     \<longrightarrow> ir_host rule = Some h \<longrightarrow> path \<in> set (ir_paths rule) \<longrightarrow> ip_path path \<noteq> None)"

definition unset_host :: "'c remap_host_t \<Rightarrow> bool" where
  "unset_host rh \<longleftrightarrow> rh_tls_version rh = 0 \<and> \<not> rh_http2 rh \<and> rh_hsts_max_age rh = 0 \<and> \<not> rh_hsts_subdomains rh"

interpretation explicit: host_invariant E cfg cs "\<lambda>h rh. all_paths_explicit cfg cs h \<longrightarrow> unset_host rh"
  for E :: "('c, 'x, 'k) ext_ops" and cfg cs
proof
  fix ns ing h rule path and rh rh' :: "'c remap_host_t"
  assume may: "may_serve cfg cs ns ing h" and rule: "rule \<in> set (in_rules ing)" "ir_host rule = Some h" "path \<in> set (ir_paths rule)"
    and old: "all_paths_explicit cfg cs h \<longrightarrow> unset_host rh" and b: "build_path E (cs_config cs) ns ing path rh = Inr rh'"
  show "all_paths_explicit cfg cs h \<longrightarrow> unset_host rh'"
  proof
    assume ex: "all_paths_explicit cfg cs h"
    with may rule have "ip_path path \<noteq> None" by (auto simp: all_paths_explicit_def)
    with old ex b show "unset_host rh'"
      by (auto elim!: build_path_cases simp: unset_host_def)
  qed
qed (auto simp: unset_host_def remap_host_new_eq)

lemmas built_db_host_ok = built.from_cluster_inv [unfolded built.db_inv_def]
lemmas built_db_explicit = explicit.from_cluster_inv [unfolded explicit.db_inv_def]
lemmas built_db_isolated = isolated.from_cluster_inv [unfolded isolated.db_inv_def]

subsection \<open>An example cluster\<close>

definition example_ing :: ingress_t where
  "example_ing = \<lparr>in_name = ''web'', in_namespace = ''default'', in_tls = [],
     in_rules = [\<lparr>ir_host = Some ''www.example.com'',
       ir_paths = [\<lparr>ip_path = Some ''/app'', ip_service_name = Some ''web'', ip_service_port = Some ''80''\<rparr>]\<rparr>],
     in_annotations = hash_new 127 True\<rparr>"

definition example_svc :: service_t where
  "example_svc = \<lparr>sv_name = ''web'', sv_namespace = ''default'', sv_type = Some ''ExternalName'', sv_cluster_ip = None,
     sv_session_affinity = None, sv_external_name = Some ''backend.example.org'', sv_selector = None, sv_ports = None\<rparr>"

definition example_ns :: namespace_t where
  "example_ns = (namespace_make ''default'')
     \<lparr>ns_ingresses := hash_set (hash_new 127 True) ''web'' example_ing,
      ns_services := hash_set (hash_new 127 True) ''web'' example_svc\<rparr>"

definition example_cluster :: cluster_t where
  "example_cluster = cluster_make\<lparr>cs_namespaces := hash_set (hash_new 127 True) ''default'' example_ns\<rparr>"

definition example_ext :: "(unit, unit, unit) ext_ops" where
  "example_ext = \<lparr>ext_regcomp = (\<lambda>_. True), ext_pton4 = (\<lambda>_. None), ext_pton6 = (\<lambda>_. None),
     ext_ssl = \<lparr>ssl_ctx_new = None, pem_read_x509 = (\<lambda>_. None), ssl_use_certificate = (\<lambda>_ _. None),
       ssl_add_chain_cert = (\<lambda>_ _. None), pem_read_key = (\<lambda>_. None), ssl_use_key = (\<lambda>_ _. None)\<rparr>\<rparr>"

text \<open>The host that is built: the default path without backends, and the path of the rule with its target.\<close>

definition example_built :: "string \<Rightarrow> int \<Rightarrow> unit remap_host_t" where
  "example_built host port = (remap_host_new (\<lambda>_. True))\<lparr>rh_paths := [remap_path_default,
     remap_path_add_address (remap_path_default\<lparr>rp_regex := Some ''^app''\<rparr>) host port]\<rparr>"

lemma hash_foreach_new [simp]: "0 < n \<Longrightarrow> hash_foreach (hash_new n ff) = []"
  by (simp add: hash_foreach_eq) (simp add: hash_new_def)

lemma atoi_80: "atoi ''80'' = 80"
  by (simp add: atoi_def strtol10_def isspace_def isdigit_def)

text \<open>The build of any cluster whose only Ingress is the one of the example, with a service that has one backend.\<close>

lemma example_build_path:
  assumes "namespace_get_service ns ''web'' = Some svc"
    and "\<And>rp. build_add_endpoints ns svc (Some ''80'') rp = Inr (remap_path_add_address rp host port)"
  shows "build_path example_ext cc ns example_ing
     \<lparr>ip_path = Some ''/app'', ip_service_name = Some ''web'', ip_service_port = Some ''80''\<rparr> (remap_host_new (\<lambda>_. True))
   = Inr (example_built host port)"
  using assms by (simp add: build_path_def example_ing_def example_ext_def
      remap_host_new_path_def remap_path_new_def remap_host_new_eq remap_path_annotate_def example_built_def)

lemma example_build_from:
  assumes fe: "hash_foreach (cs_namespaces cs) = [(n, ns)]" "hash_foreach (ns_ingresses ns) = [(k, example_ing)]"
    and svc: "namespace_get_service ns ''web'' = Some svc"
      "\<And>rp. build_add_endpoints ns svc (Some ''80'') rp = Inr (remap_path_add_address rp host port)"
    and cfg: "cc_domains (cs_config cs) = []" "cc_certs (cs_config cs) = []"
  shows "\<exists>db cs'. remap_db_from_cluster example_ext config cs = Inr (db, cs')
    \<and> remap_db_get_host db ''www.example.com'' = Some (example_built host port)
    \<and> rd_healthcheck db = Some (cc_healthcheck (cs_config cs))"
proof -
  have ing: "in_rules example_ing = [\<lparr>ir_host = Some ''www.example.com'',
       ir_paths = [\<lparr>ip_path = Some ''/app'', ip_service_name = Some ''web'', ip_service_port = Some ''80''\<rparr>]\<rparr>]"
    "in_tls example_ing = []" "class_handled cfg example_ing" for cfg
    by (simp_all add: example_ing_def class_handled_def)
  have rc: "ext_regcomp example_ext = (\<lambda>_. True)" by (simp add: example_ext_def)
  show ?thesis
    by (simp add: remap_db_from_cluster_def fe build_namespace_def build_ingress_def ing build_ingress_rule_def
        cluster_domain_for_ns_def cfg remap_db_get_or_create_host_def remap_db_new_def remap_db_get_host_def rc
        remap_host_attach_default_tls_def cluster_get_cert_for_hostname_def example_build_path [OF svc] Let_def)
qed

lemma example_build:
  "\<exists>db cs'. remap_db_from_cluster example_ext k8s_config_new example_cluster = Inr (db, cs')
    \<and> remap_db_get_host db ''www.example.com'' = Some (example_built ''backend.example.org'' 80)"
proof -
  have "hash_foreach (cs_namespaces example_cluster) = [(''default'', example_ns)]"
    "hash_foreach (ns_ingresses example_ns) = [(''web'', example_ing)]" "namespace_get_service example_ns ''web'' = Some example_svc"
    by (simp_all add: example_cluster_def example_ns_def hash_foreach_single namespace_get_service_def)
  moreover have "cc_domains (cs_config example_cluster) = []" "cc_certs (cs_config example_cluster) = []"
    by (simp_all add: example_cluster_def cluster_make_def cluster_config_new_def)
  moreover have "build_add_endpoints example_ns example_svc (Some ''80'') rp = Inr (remap_path_add_address rp ''backend.example.org'' 80)" for rp
    by (simp add: build_add_endpoints_def example_svc_def atoi_80)
  ultimately show ?thesis using example_build_from [of example_cluster] by fastforce
qed

subsection \<open>Properties\<close>

text \<open>C4: Namespaces are isolated.  Whatever the cluster contains, a host gets into the database only
  through an Ingress of a handled class that names it and whose namespace may use the domain, and every backend that
  requests for the host can be sent to is an external name or an endpoint of a service in the namespace of such an Ingress.\<close>

theorem build_respects_domain_access:
  assumes "remap_db_from_cluster E cfg cs = Inr (db, cs')" and "remap_db_get_host db h = Some rh"
  shows "(\<exists>ns ing. may_serve cfg cs ns ing h)
    \<and> (\<forall>rp \<in> set (rh_paths rh). \<forall>t \<in> set (rp_addrs rp). \<exists>ns ing. may_serve cfg cs ns ing h \<and> backend_of ns t)"
  using built_db_isolated [OF assms(1)] assms(2) by (simp add: isolated_host_def)

theorem build_respects_domain_access_witness:
  "\<exists>ns ing. may_serve k8s_config_new example_cluster ns ing ''www.example.com''
    \<and> backend_of ns \<lparr>rt_host = ''backend.example.org'', rt_port = 80\<rparr>"
proof -
  obtain db cs' where b: "remap_db_from_cluster example_ext k8s_config_new example_cluster = Inr (db, cs')"
    and h: "remap_db_get_host db ''www.example.com'' = Some (example_built ''backend.example.org'' 80)" using example_build by blast
  from build_respects_domain_access [OF b h] show ?thesis
    by (simp add: example_built_def remap_path_add_address_def)
qed

text \<open>C27: The built database is well formed.  Every host has its default path and compiled patterns for all
  others, the host table has one entry per name, the health check path is the configured one, and the build leaves
  the cluster configuration as it is.\<close>

theorem built_db_wf:
  assumes "remap_db_from_cluster E cfg cs = Inr (db, cs')"
  shows "hash_unique (rd_hosts db) \<and> (\<forall>h rh. remap_db_get_host db h = Some rh \<longrightarrow> host_ok rh)
    \<and> rd_config db = cfg \<and> rd_healthcheck db = Some (cc_healthcheck (cs_config cs)) \<and> cs_config cs' = cs_config cs"
  using built_db_host_ok [OF assms] by blast

theorem built_db_wf_witness:
  "\<exists>db cs'. remap_db_from_cluster example_ext k8s_config_new example_cluster = Inr (db, cs') \<and> hash_unique (rd_hosts db)"
proof -
  obtain db cs' where b: "remap_db_from_cluster example_ext k8s_config_new example_cluster = Inr (db, cs')"
    using example_build by blast
  from built_db_wf [OF b] b show ?thesis by blast
qed

text \<open>C37: The settings of a host are lost when its rules have no default path.  If every path that the
  Ingresses give for a host is an explicit one, then neither the global configuration nor the annotations reach it: the host
  has no minimum TLS version, no HTTP/2 and no HSTS, whatever is configured.\<close>

theorem explicit_paths_lose_host_settings:
  assumes "remap_db_from_cluster E cfg cs = Inr (db, cs')" and "remap_db_get_host db h = Some rh"
    and "all_paths_explicit cfg cs h"
  shows "rh_tls_version rh = 0 \<and> \<not> rh_http2 rh \<and> rh_hsts_max_age rh = 0 \<and> \<not> rh_hsts_subdomains rh"
  using built_db_explicit [OF assms(1)] assms(2,3) unfolding unset_host_def by blast

theorem explicit_paths_lose_host_settings_witness:
  "all_paths_explicit k8s_config_new example_cluster ''www.example.com'' \<and> cc_http2 (cs_config example_cluster)
    \<and> \<not> rh_http2 (example_built ''backend.example.org'' 80)"
proof -
  obtain db cs' where b: "remap_db_from_cluster example_ext k8s_config_new example_cluster = Inr (db, cs')"
    and h: "remap_db_get_host db ''www.example.com'' = Some (example_built ''backend.example.org'' 80)" using example_build by blast
  have fe: "hash_foreach (cs_namespaces example_cluster) = [(''default'', example_ns)]"
    "hash_foreach (ns_ingresses example_ns) = [(''web'', example_ing)]"
    by (simp_all add: example_cluster_def example_ns_def hash_foreach_single)
  have ex: "all_paths_explicit k8s_config_new example_cluster ''www.example.com''"
    by (auto simp: all_paths_explicit_def may_serve_def fe) (simp_all add: example_ing_def)
  moreover have "cc_http2 (cs_config example_cluster)"
    by (simp add: example_cluster_def cluster_make_def cluster_config_new_def)
  ultimately show ?thesis using explicit_paths_lose_host_settings [OF b h ex] by simp
qed

end
