(* ===== verification/Watcher.thy ===== *)
theory Watcher
  imports Config Objects
begin

text \<open>
  The watcher (\<^verbatim>\<open>api/watcher.c\<close>): a thread that fetches all objects from the API server, keeps
  the cluster state up to date from the watch streams, and starts again when a watch ends.

  The JSON library and its parser \<open>parse\<close> (\<^verbatim>\<open>json_tokener_parse\<close>) are parameters.  libcurl appears
  through what it hands to the code: the results of the five transfers, and the chunks of data of a watch.  The cluster
  state and a flag that says whether something changed are passed along.
\<close>

subsection \<open>Requests\<close>

definition resource_urls :: "string list" where
  "resource_urls = [''/api/v1/services'', ''/api/v1/endpoints'', ''/api/v1/secrets'', ''/api/v1/configmaps'',
     ''/apis/extensions/v1beta1/ingresses'']"

datatype curl_opt = CURLOPT_HTTPHEADER "string list" | CURLOPT_SSLCERTTYPE string | CURLOPT_SSLCERT string
  | CURLOPT_SSLKEYTYPE string | CURLOPT_SSLKEY string | CURLOPT_CAINFO string | CURLOPT_SSL_VERIFYPEER bool

text \<open>The options that depend on the configuration, in the order in which they are set.\<close>

definition watcher_make_curl :: "k8s_config_t \<Rightarrow> string list \<Rightarrow> curl_opt list" where
  "watcher_make_curl cfg hdrs =
     (let hdrs = (case co_token cfg of
            None \<Rightarrow> hdrs
          | Some token \<Rightarrow> hdrs @ [snprintf (23 + length token + 1) (''Authorization: Bearer '' @ token)])
      in (if hdrs \<noteq> [] then [CURLOPT_HTTPHEADER hdrs] else [])
         @ (case co_tls_certfile cfg of None \<Rightarrow> [] | Some f \<Rightarrow> [CURLOPT_SSLCERTTYPE ''PEM'', CURLOPT_SSLCERT f])
         @ (case co_tls_keyfile cfg of None \<Rightarrow> [] | Some f \<Rightarrow> [CURLOPT_SSLKEYTYPE ''PEM'', CURLOPT_SSLKEY f])
         @ (case co_tls_cafile cfg of None \<Rightarrow> [] | Some f \<Rightarrow> [CURLOPT_CAINFO f])
         @ [CURLOPT_SSL_VERIFYPEER (co_tls_verify cfg)])"

text \<open>The URL of a list request, and of a watch request, which starts at the version of the list.\<close>

definition fetcher_make :: "k8s_config_t \<Rightarrow> string \<Rightarrow> string res" where
  "fetcher_make cfg url =
     res_bind (deref (co_server cfg)) (\<lambda>server.
     Inr (snprintf (length server + length url + 1) (server @ url)))"

definition fetcher_watch_make :: "k8s_config_t \<Rightarrow> string \<times> string option \<Rightarrow> string res" where
  "fetcher_watch_make cfg resource =
     res_bind (deref (co_server cfg)) (\<lambda>server.
     res_bind (deref (snd resource)) (\<lambda>version.
     Inr (snprintf (length server + length (fst resource) + length version + 29)
       (server @ fst resource @ ''?watch=true&resourceVersion='' @ version))))"

text \<open>\<^verbatim>\<open>fe_read\<close> collects the body of a list response.\<close>

definition fe_read :: "string \<Rightarrow> string option \<Rightarrow> string option" where
  "fe_read data buf =
     (if data = [] then buf else Some ((case buf of None \<Rightarrow> [] | Some b \<Rightarrow> b) @ data))"

subsection \<open>Watch events\<close>

definition is_our_configmap :: "k8s_config_t \<Rightarrow> string \<Rightarrow> string \<Rightarrow> bool" where
  "is_our_configmap cfg namespace name \<longleftrightarrow>
     co_configmap_namespace cfg = Some namespace \<and> co_configmap_name cfg = Some name"

text \<open>The branch of an object that is made from its JSON, put into its namespace, or deleted from it.\<close>

definition watch_object ::
  "('j \<Rightarrow> 'o option res) \<Rightarrow> (namespace_t \<Rightarrow> 'o \<Rightarrow> namespace_t) \<Rightarrow> (namespace_t \<Rightarrow> string \<Rightarrow> namespace_t)
    \<Rightarrow> bool \<Rightarrow> string \<Rightarrow> string \<Rightarrow> 'j \<Rightarrow> cluster_t \<Rightarrow> (cluster_t \<times> bool) res" where
  "watch_object mk put del deleted snamespace sname ob cs =
     (if deleted then Inr (cluster_update_namespace cs snamespace (\<lambda>ns. del ns sname), True)
      else res_bind (mk ob) (\<lambda>r. Inr (case r of
             None \<Rightarrow> (cs, True)
           | Some x \<Rightarrow> (cluster_update_namespace cs snamespace (\<lambda>ns. put ns x), True))))"

definition watch_configmap ::
  "'j json_ops \<Rightarrow> k8s_config_t \<Rightarrow> bool \<Rightarrow> string \<Rightarrow> string \<Rightarrow> 'j \<Rightarrow> cluster_t \<times> bool \<Rightarrow> (cluster_t \<times> bool) res" where
  "watch_configmap J cfg deleted snamespace sname ob st =
     (case st of (cs, changed) \<Rightarrow>
      if \<not> is_our_configmap cfg snamespace sname then Inr (cs, changed)
      else if deleted then Inr (cluster_set_configmap cs None, True)
      else res_bind (configmap_make J ob) (\<lambda>r. Inr (case r of
             None \<Rightarrow> (cs, True)
           | Some cm \<Rightarrow> (cluster_set_configmap cs (Some cm), True))))"

definition watch_endpoints ::
  "'j json_ops \<Rightarrow> bool \<Rightarrow> string \<Rightarrow> string \<Rightarrow> 'j \<Rightarrow> cluster_t \<times> bool \<Rightarrow> (cluster_t \<times> bool) res" where
  "watch_endpoints J deleted snamespace sname ob st =
     (case st of (cs, changed) \<Rightarrow>
      if deleted then Inr (cluster_update_namespace cs snamespace (\<lambda>ns. namespace_del_endpoints ns sname), True)
      else res_bind (endpoints_make J ob) (\<lambda>r. Inr (case r of
             None \<Rightarrow> (cs, changed)
           | Some eps \<Rightarrow>
               (case cluster_lookup namespace_get_endpoints cs snamespace sname of
                  Some old \<Rightarrow>
                    if endpoints_equal eps old then (cs, changed)
                    else (cluster_update_namespace cs snamespace (\<lambda>ns. namespace_put_endpoints ns eps), True)
                | None \<Rightarrow> (cluster_update_namespace cs snamespace (\<lambda>ns. namespace_put_endpoints ns eps), True)))))"

definition watch_apply ::
  "'j json_ops \<Rightarrow> k8s_config_t \<Rightarrow> bool \<Rightarrow> string \<Rightarrow> string \<Rightarrow> string \<Rightarrow> 'j \<Rightarrow> cluster_t \<times> bool \<Rightarrow> (cluster_t \<times> bool) res" where
  "watch_apply J cfg deleted skind snamespace sname ob st =
     (case st of (cs, changed) \<Rightarrow>
      (let cs = cluster_get_namespace cs snamespace in
       if skind = ''Ingress'' then
         watch_object (ingress_make J) namespace_put_ingress namespace_del_ingress deleted snamespace sname ob cs
       else if skind = ''Service'' then
         watch_object (service_make J) namespace_put_service namespace_del_service deleted snamespace sname ob cs
       else if skind = ''Secret'' then
         watch_object (secret_make J) namespace_put_secret namespace_del_secret deleted snamespace sname ob cs
       else if skind = ''ConfigMap'' then watch_configmap J cfg deleted snamespace sname ob (cs, changed)
       else if skind = ''Endpoints'' then watch_endpoints J deleted snamespace sname ob (cs, changed)
       else Inr (cs, changed)))"

text \<open>What a line of a watch stream says: deleted or not, kind, namespace, name and object.\<close>

definition watch_event ::
  "'j json_ops \<Rightarrow> (string \<Rightarrow> 'j option) \<Rightarrow> string \<Rightarrow> (bool \<times> string \<times> string \<times> string \<times> 'j) option res" where
  "watch_event J parse line =
     (case parse (cstr line) of
        None \<Rightarrow> Inr None
      | Some obj \<Rightarrow>
          if \<not> j_is J obj json_type_object then Inr None
          else res_bind (json_str J obj ''type'') (\<lambda>ty.
            case ty of
              None \<Rightarrow> Inr None
            | Some stype \<Rightarrow>
                (case j_get J obj ''object'' of
                   None \<Rightarrow> Inr None
                 | Some ob \<Rightarrow>
                     if \<not> j_is J ob json_type_object then Inr None
                     else res_bind (json_str J ob ''kind'') (\<lambda>kind.
                       case kind of
                         None \<Rightarrow> Inr None
                       | Some skind \<Rightarrow>
                           res_bind (object_meta J ob) (\<lambda>meta.
                           Inr (map_option (\<lambda>(snamespace, sname). (stype = ''DELETED'', skind, snamespace, sname, ob)) meta))))))"

definition fe_watch_line ::
  "'j json_ops \<Rightarrow> (string \<Rightarrow> 'j option) \<Rightarrow> k8s_config_t \<Rightarrow> string \<Rightarrow> cluster_t \<times> bool \<Rightarrow> (cluster_t \<times> bool) res" where
  "fe_watch_line J parse cfg line st =
     res_bind (watch_event J parse line) (\<lambda>ev.
     case ev of
       None \<Rightarrow> Inr st
     | Some (deleted, skind, snamespace, sname, ob) \<Rightarrow> watch_apply J cfg deleted skind snamespace sname ob st)"

text \<open>The loop over the complete lines of the buffer, and the write callback of a watch.\<close>

function watch_lines ::
  "'j json_ops \<Rightarrow> (string \<Rightarrow> 'j option) \<Rightarrow> k8s_config_t \<Rightarrow> string \<Rightarrow> cluster_t \<times> bool
    \<Rightarrow> (string \<times> cluster_t \<times> bool) res" where
  "watch_lines J parse cfg buf st =
     (case strchr buf CHR 0x0A of
        None \<Rightarrow> Inr (buf, st)
      | Some n \<Rightarrow> res_bind (fe_watch_line J parse cfg (take n buf) st) (watch_lines J parse cfg (drop (Suc n) buf)))"
  by pat_completeness auto
termination
  by (relation "measure (\<lambda>(J, parse, cfg, buf, st). length buf)") (auto dest!: strchr_SomeD)

declare watch_lines.simps [simp del]

definition fe_watch_read ::
  "'j json_ops \<Rightarrow> (string \<Rightarrow> 'j option) \<Rightarrow> k8s_config_t \<Rightarrow> string \<Rightarrow> string \<times> cluster_t \<times> bool
    \<Rightarrow> (string \<times> cluster_t \<times> bool) res" where
  "fe_watch_read J parse cfg data fe =
     (case fe of (buf, st) \<Rightarrow> if data = [] then Inr (buf, st) else watch_lines J parse cfg (buf @ data) st)"

subsection \<open>Full fetch\<close>

definition fetch_object :: "('j \<Rightarrow> 'o option res) \<Rightarrow> (namespace_t \<Rightarrow> 'o \<Rightarrow> namespace_t) \<Rightarrow> string \<Rightarrow> 'j \<Rightarrow> cluster_t \<Rightarrow> cluster_t res" where
  "fetch_object mk put snamespace item cs =
     res_bind (mk item) (\<lambda>r. Inr (case r of
       None \<Rightarrow> cs | Some x \<Rightarrow> cluster_update_namespace cs snamespace (\<lambda>ns. put ns x)))"

text \<open>
  One item of a list.  Objects go into the new cluster; the ConfigMap is applied to the cluster in use.
\<close>

definition fetcher_process_item ::
  "'j json_ops \<Rightarrow> k8s_config_t \<Rightarrow> string \<Rightarrow> 'j \<Rightarrow> cluster_t \<times> cluster_t \<Rightarrow> (cluster_t \<times> cluster_t) res" where
  "fetcher_process_item J cfg kind item st =
     (case st of (newcs, cs) \<Rightarrow>
      (case j_get J item ''metadata'' of
         None \<Rightarrow> Inr (newcs, cs)
       | Some metadata \<Rightarrow>
           if \<not> j_is J metadata json_type_object then Inr (newcs, cs)
           else res_bind (json_str J metadata ''namespace'') (\<lambda>namespace.
             case namespace of
               None \<Rightarrow> Inr (newcs, cs)
             | Some n \<Rightarrow>
                 (let newcs = cluster_get_namespace newcs n in
                  if kind = ''IngressList'' then
                    res_bind (fetch_object (ingress_make J) namespace_put_ingress n item newcs) (\<lambda>newcs. Inr (newcs, cs))
                  else if kind = ''ServiceList'' then
                    res_bind (fetch_object (service_make J) namespace_put_service n item newcs) (\<lambda>newcs. Inr (newcs, cs))
                  else if kind = ''SecretList'' then
                    res_bind (fetch_object (secret_make J) namespace_put_secret n item newcs) (\<lambda>newcs. Inr (newcs, cs))
                  else if kind = ''EndpointsList'' then
                    res_bind (fetch_object (endpoints_make J) namespace_put_endpoints n item newcs) (\<lambda>newcs. Inr (newcs, cs))
                  else if kind = ''ConfigMapList'' then
                    res_bind (configmap_make J item) (\<lambda>r. Inr (newcs, case r of
                      None \<Rightarrow> cs
                    | Some cm \<Rightarrow> if is_our_configmap cfg (cm_namespace cm) (cm_name cm)
                                 then cluster_set_configmap cs (Some cm) else cs))
                  else Inr (newcs, cs)))))"

text \<open>A whole response.  The version of the resource is stored before the items are processed.\<close>

definition fetcher_process ::
  "'j json_ops \<Rightarrow> (string \<Rightarrow> 'j option) \<Rightarrow> k8s_config_t \<Rightarrow> string option \<Rightarrow> string option \<times> cluster_t \<times> cluster_t
    \<Rightarrow> (string option \<times> cluster_t \<times> cluster_t) res" where
  "fetcher_process J parse cfg buf st =
     (case buf of
        None \<Rightarrow> Inr st
      | Some b \<Rightarrow>
          (case parse (cstr b) of
             None \<Rightarrow> Inr st
           | Some obj \<Rightarrow>
               (case (j_get J obj ''items'', j_get J obj ''metadata'') of
                  (Some items, Some metadata) \<Rightarrow>
                    if \<not> j_is J items json_type_array \<or> \<not> j_is J metadata json_type_object then Inr st
                    else res_bind (json_str J metadata ''resourceVersion'') (\<lambda>rversion.
                      case rversion of
                        None \<Rightarrow> Inr st
                      | Some v \<Rightarrow>
                          res_bind (json_str J obj ''kind'') (\<lambda>kind.
                          case kind of
                            None \<Rightarrow> Inr (Some v, snd st)
                          | Some skind \<Rightarrow>
                              res_bind (res_fold (fetcher_process_item J cfg skind) (json_elems J items) (snd st)) (\<lambda>cs'.
                              Inr (Some v, cs'))))
                | _ \<Rightarrow> Inr st)))"

text \<open>The state of the watcher: the cluster and the versions of the resources.\<close>

record watcher_t =
  wt_cluster :: cluster_t
  wt_versions :: "string option list"

text \<open>
  The messages of the finished transfers: the resource, whether the transfer succeeded, and its body.
  A failed transfer ends the fetch; what was done before stays done.
\<close>

fun fetch_messages ::
  "'j json_ops \<Rightarrow> (string \<Rightarrow> 'j option) \<Rightarrow> k8s_config_t \<Rightarrow> (nat \<times> bool \<times> string option) list
    \<Rightarrow> cluster_t \<times> watcher_t \<Rightarrow> (bool \<times> cluster_t \<times> watcher_t) res" where
  "fetch_messages J parse cfg [] (newcs, wt) = Inr (True, newcs, wt)"
| "fetch_messages J parse cfg ((i, ok, body) # msgs) (newcs, wt) =
     (if length (wt_versions wt) \<le> i then Inl Assert_Failed
      else if \<not> ok then Inr (False, newcs, wt)
      else res_bind (fetcher_process J parse cfg body (wt_versions wt ! i, newcs, wt_cluster wt)) (\<lambda>(v, newcs, cs).
           fetch_messages J parse cfg msgs (newcs, wt\<lparr>wt_versions := (wt_versions wt)[i := v], wt_cluster := cs\<rparr>)))"

text \<open>\<open>None\<close>: libcurl reports an error before the transfers are finished.\<close>

definition fetcher_get_all ::
  "'j json_ops \<Rightarrow> (string \<Rightarrow> 'j option) \<Rightarrow> k8s_config_t \<Rightarrow> (nat \<times> bool \<times> string option) list option
    \<Rightarrow> watcher_t \<Rightarrow> (bool \<times> watcher_t) res" where
  "fetcher_get_all J parse cfg result wt =
     (case result of
        None \<Rightarrow> Inr (False, wt)
      | Some msgs \<Rightarrow>
          res_bind (fetch_messages J parse cfg msgs (cluster_make, wt)) (\<lambda>(ok, newcs, wt).
          Inr (if ok then (True, wt\<lparr>wt_cluster := (wt_cluster wt)\<lparr>cs_namespaces := cs_namespaces newcs\<rparr>\<rparr>)
               else (False, wt))))"

subsection \<open>Chunks of a watch stream\<close>

lemma res_bind_assoc: "res_bind (res_bind r f) g = res_bind r (\<lambda>x. res_bind (f x) g)"
  by (cases r) simp_all

lemma strchr_append_hit: "strchr a c = Some n \<Longrightarrow> strchr (a @ b) c = Some n"
  by (induction a arbitrary: n) (auto split: if_splits)

lemma watch_lines_append:
  "watch_lines J parse cfg (a @ b) st = res_bind (watch_lines J parse cfg a st) (\<lambda>(r, st). watch_lines J parse cfg (r @ b) st)"
proof (induction J parse cfg a st rule: watch_lines.induct)
  case (1 J parse cfg a st)
  show ?case
  proof (cases "strchr a CHR 0x0A")
    case None
    then show ?thesis by (simp only: watch_lines.simps [of J parse cfg a]) simp
  next
    case (Some n)
    have n: "n < length a" using strchr_SomeD [OF Some] by simp
    have "watch_lines J parse cfg (a @ b) st =
        res_bind (fe_watch_line J parse cfg (take n a) st) (watch_lines J parse cfg (drop (Suc n) a @ b))"
      using n by (simp add: watch_lines.simps [of J parse cfg "a @ b"] strchr_append_hit [OF Some])
    also have "\<dots> = res_bind (fe_watch_line J parse cfg (take n a) st)
        (\<lambda>st. res_bind (watch_lines J parse cfg (drop (Suc n) a) st) (\<lambda>(r, st). watch_lines J parse cfg (r @ b) st))"
      by (rule res_bind_cong [OF refl]) (rule "1.IH" [OF Some])
    finally show ?thesis
      by (simp add: watch_lines.simps [of J parse cfg a] Some res_bind_assoc)
  qed
qed

lemma watch_lines_rest: "watch_lines J parse cfg buf st = Inr (r, st') \<Longrightarrow> CHR 0x0A \<notin> set r"
proof (induction J parse cfg buf st arbitrary: st' rule: watch_lines.induct)
  case (1 J parse cfg buf st)
  show ?case
  proof (cases "strchr buf CHR 0x0A")
    case None
    then have "CHR 0x0A \<notin> set buf" by simp
    with "1.prems" None show ?thesis by (simp only: watch_lines.simps [of J parse cfg buf]) simp
  next
    case (Some n)
    with "1.prems" obtain st1 where "fe_watch_line J parse cfg (take n buf) st = Inr st1"
      and "watch_lines J parse cfg (drop (Suc n) buf) st1 = Inr (r, st')"
      by (auto simp: watch_lines.simps [of J parse cfg buf])
    with "1.IH" [OF Some] show ?thesis by blast
  qed
qed

lemma watch_lines_none: "CHR 0x0A \<notin> set buf \<Longrightarrow> watch_lines J parse cfg buf st = Inr (buf, st)"
  by (simp add: watch_lines.simps strchr_absent del: strchr_None_iff)

lemma watch_lines_line:
  "CHR 0x0A \<notin> set l \<Longrightarrow> watch_lines J parse cfg (l @ CHR 0x0A # buf) st = res_bind (fe_watch_line J parse cfg l st) (watch_lines J parse cfg buf)"
  by (simp add: watch_lines.simps [of J parse cfg "l @ CHR 0x0A # buf"])

lemma fe_watch_read_chunks:
  "CHR 0x0A \<notin> set buf \<Longrightarrow>
   res_fold (fe_watch_read J parse cfg) chunks (buf, st) = watch_lines J parse cfg (buf @ concat chunks) st"
proof (induction chunks arbitrary: buf st)
  case (Cons c chunks)
  have one: "fe_watch_read J parse cfg c (buf, st) = watch_lines J parse cfg (buf @ c) st"
    using Cons.prems by (simp add: fe_watch_read_def watch_lines_none)
  have "res_bind (watch_lines J parse cfg (buf @ c) st) (res_fold (fe_watch_read J parse cfg) chunks)
      = res_bind (watch_lines J parse cfg (buf @ c) st) (\<lambda>(r, st). watch_lines J parse cfg (r @ concat chunks) st)"
    by (rule res_bind_cong [OF refl]) (auto simp: Cons.IH dest: watch_lines_rest)
  then show ?case using watch_lines_append [of J parse cfg "buf @ c" "concat chunks" st] by (simp add: one)
qed (simp add: watch_lines_none)

lemma watch_lines_concat:
  "\<forall>l \<in> set ls. CHR 0x0A \<notin> set l \<Longrightarrow>
   watch_lines J parse cfg (concat (map (\<lambda>l. l @ [CHR 0x0A]) ls)) st
     = res_bind (res_fold (fe_watch_line J parse cfg) ls st) (\<lambda>st. Inr ([], st))"
proof (induction ls arbitrary: st)
  case (Cons l ls)
  have "watch_lines J parse cfg (concat (map (\<lambda>l. l @ [CHR 0x0A]) (l # ls))) st
      = res_bind (fe_watch_line J parse cfg l st) (watch_lines J parse cfg (concat (map (\<lambda>l. l @ [CHR 0x0A]) ls)))"
    using Cons.prems by (simp add: watch_lines_line)
  also have "\<dots> = res_bind (fe_watch_line J parse cfg l st)
      (\<lambda>st. res_bind (res_fold (fe_watch_line J parse cfg) ls st) (\<lambda>st. Inr ([], st)))"
    by (rule res_bind_cong [OF refl]) (use Cons in simp)
  finally show ?case by (simp add: res_bind_assoc)
qed (simp add: watch_lines_none)

lemma fe_watch_read_stream:
  assumes "CHR 0x0A \<notin> set buf" and "CHR 0x0A \<notin> set rest" and "\<forall>l \<in> set ls. CHR 0x0A \<notin> set l"
    and "buf @ concat chunks = concat (map (\<lambda>l. l @ [CHR 0x0A]) ls) @ rest"
  shows "res_fold (fe_watch_read J parse cfg) chunks (buf, st)
    = res_bind (res_fold (fe_watch_line J parse cfg) ls st) (\<lambda>st. Inr (rest, st))"
proof -
  let ?all = "concat (map (\<lambda>l. l @ [CHR 0x0A]) ls)"
  have "res_fold (fe_watch_read J parse cfg) chunks (buf, st) = watch_lines J parse cfg (?all @ rest) st"
    by (simp only: fe_watch_read_chunks [OF assms(1)] assms(4))
  also have "\<dots> = res_bind (watch_lines J parse cfg ?all st) (\<lambda>(r, st). watch_lines J parse cfg (r @ rest) st)"
    by (rule watch_lines_append)
  also have "\<dots> = res_bind (res_fold (fe_watch_line J parse cfg) ls st) (\<lambda>st. watch_lines J parse cfg rest st)"
    by (simp add: watch_lines_concat [OF assms(3)] res_bind_assoc)
  finally show ?thesis by (simp add: watch_lines_none [OF assms(2)])
qed

subsection \<open>What an event changes\<close>

text \<open>The changes of a namespace that an event of a kind can make.\<close>

inductive kind_op :: "string \<Rightarrow> (namespace_t \<Rightarrow> namespace_t) \<Rightarrow> bool" where
  put_ingress: "kind_op ''Ingress'' (\<lambda>ns. namespace_put_ingress ns ing)"
| del_ingress: "kind_op ''Ingress'' (\<lambda>ns. namespace_del_ingress ns k)"
| put_service: "kind_op ''Service'' (\<lambda>ns. namespace_put_service ns svc)"
| del_service: "kind_op ''Service'' (\<lambda>ns. namespace_del_service ns k)"
| put_secret: "kind_op ''Secret'' (\<lambda>ns. namespace_put_secret ns se)"
| del_secret: "kind_op ''Secret'' (\<lambda>ns. namespace_del_secret ns k)"
| put_endpoints: "kind_op ''Endpoints'' (\<lambda>ns. namespace_put_endpoints ns eps)"
| del_endpoints: "kind_op ''Endpoints'' (\<lambda>ns. namespace_del_endpoints ns k)"

lemma kind_op_ok: "kind_op skind f \<Longrightarrow> namespace_ok ns \<Longrightarrow> namespace_ok (f ns) \<and> ns_name (f ns) = ns_name ns"
  by (induction rule: kind_op.induct) (auto intro: namespace_ops_ok)

lemma kind_op_other:
  assumes "kind_op skind f"
  shows "skind \<noteq> ''Ingress'' \<Longrightarrow> namespace_get_ingress (f ns) k = namespace_get_ingress ns k"
    and "skind \<noteq> ''Service'' \<Longrightarrow> namespace_get_service (f ns) k = namespace_get_service ns k"
    and "skind \<noteq> ''Secret'' \<Longrightarrow> namespace_get_secret (f ns) k = namespace_get_secret ns k"
    and "skind \<noteq> ''Endpoints'' \<Longrightarrow> namespace_get_endpoints (f ns) k = namespace_get_endpoints ns k"
  using assms by (induction rule: kind_op.induct) (simp_all add: namespace_op_defs)

text \<open>The cluster after an event: its namespace exists, and at most one change of it or of the configuration was made.\<close>

inductive event_effect :: "string \<Rightarrow> string \<Rightarrow> cluster_t \<Rightarrow> cluster_t \<Rightarrow> bool" where
  same: "event_effect skind n cs cs"
| config: "event_effect skind n cs (cluster_set_configmap cs cm)"
| change: "kind_op skind f \<Longrightarrow> event_effect skind n cs (cluster_update_namespace cs n f)"

lemma watch_object_effect:
  assumes "watch_object mk put del d n k ob cs = Inr (cs', ch')"
    and "\<And>x. kind_op skind (\<lambda>ns. put ns x)" and "\<And>k. kind_op skind (\<lambda>ns. del ns k)"
  shows "event_effect skind n cs cs'"
  using assms(1) event_effect.same [of skind n cs] event_effect.change [OF assms(2), of n cs] event_effect.change [OF assms(3), of n cs]
  by (auto simp: watch_object_def split: if_splits option.splits)

lemma watch_configmap_effect:
  assumes "watch_configmap J cfg d n k ob (cs, ch) = Inr (cs', ch')"
  shows "event_effect skind n cs cs'"
  using assms by (auto simp: watch_configmap_def split: if_splits option.splits intro: event_effect.intros)

lemma watch_endpoints_effect:
  assumes "watch_endpoints J d n k ob (cs, ch) = Inr (cs', ch')"
  shows "event_effect ''Endpoints'' n cs cs'"
proof (cases d)
  case True
  with assms event_effect.change [OF del_endpoints, of n cs] show ?thesis by (auto simp: watch_endpoints_def)
next
  case False
  with assms obtain r where r: "endpoints_make J ob = Inr r" by (auto simp: watch_endpoints_def)
  show ?thesis
    using assms False r event_effect.same [of "''Endpoints''" n cs] event_effect.change [OF put_endpoints, of n cs]
    by (cases r; cases "cluster_lookup namespace_get_endpoints cs n k") (auto simp: watch_endpoints_def split: if_splits)
qed

lemma watch_apply_effect:
  assumes "watch_apply J cfg d skind n k ob (cs, ch) = Inr (cs', ch')"
  shows "event_effect skind n (cluster_get_namespace cs n) cs'"
proof -
  let ?cs = "cluster_get_namespace cs n"
  consider "skind = ''Ingress''" | "skind = ''Service''" | "skind = ''Secret''" | "skind = ''ConfigMap''" | "skind = ''Endpoints''"
    | "skind \<notin> {''Ingress'', ''Service'', ''Secret'', ''ConfigMap'', ''Endpoints''}" by (simp only: insert_iff empty_iff) argo
  then show ?thesis
  proof cases
    case 1
    with assms have "watch_object (ingress_make J) namespace_put_ingress namespace_del_ingress d n k ob ?cs = Inr (cs', ch')"
      by (simp add: watch_apply_def)
    from watch_object_effect [OF this put_ingress del_ingress] 1 show ?thesis by simp
  next
    case 2
    with assms have "watch_object (service_make J) namespace_put_service namespace_del_service d n k ob ?cs = Inr (cs', ch')"
      by (simp add: watch_apply_def)
    from watch_object_effect [OF this put_service del_service] 2 show ?thesis by simp
  next
    case 3
    with assms have "watch_object (secret_make J) namespace_put_secret namespace_del_secret d n k ob ?cs = Inr (cs', ch')"
      by (simp add: watch_apply_def)
    from watch_object_effect [OF this put_secret del_secret] 3 show ?thesis by simp
  next
    case 4
    with assms show ?thesis using watch_configmap_effect [of J cfg d n k ob ?cs ch cs' ch'] by (simp add: watch_apply_def)
  next
    case 5
    with assms show ?thesis using watch_endpoints_effect [of J d n k ob ?cs ch cs' ch'] by (simp add: watch_apply_def)
  next
    case 6
    with assms show ?thesis by (auto simp: watch_apply_def intro: event_effect.same)
  qed
qed

lemma event_effect_ok: "event_effect skind n cs cs' \<Longrightarrow> cluster_ok cs \<Longrightarrow> cluster_ok cs'"
proof (induction rule: event_effect.induct)
  case (change skind f n cs)
  then show ?case using kind_op_ok by (intro cluster_update_namespace_ok) auto
qed simp_all

lemma cluster_lookup_get_namespace:
  assumes "cluster_ok cs" and "\<And>n k. get (namespace_make n) k = None"
  shows "cluster_lookup get (cluster_get_namespace cs n) m k = cluster_lookup get cs m k"
  using assms by (auto simp: cluster_lookup_def cluster_get_namespace_lookup split: option.splits)

lemma cluster_lookup_configmap [simp]: "cluster_lookup get (cluster_set_configmap cs cm) m k = cluster_lookup get cs m k"
  by (simp add: cluster_lookup_def cluster_set_configmap_def split: option.split)

lemma event_effect_lookup:
  assumes "event_effect skind n cs cs'" and "cluster_ok cs"
    and "\<And>f ns k. kind_op skind f \<Longrightarrow> get (f ns) k = get ns k" and "\<And>n k. get (namespace_make n) k = None"
  shows "cluster_lookup get cs' m k = cluster_lookup get cs m k"
  using assms(1)
proof cases
  case (change f)
  then show ?thesis
    using assms(2-4) by (auto simp: cluster_lookup_def cluster_update_namespace_lookup split: option.splits)
qed simp_all

lemma watch_apply_ok:
  assumes "cluster_ok cs" and "watch_apply J cfg d skind n k ob (cs, ch) = Inr (cs', ch')"
  shows "cluster_ok cs'"
  using event_effect_ok [OF watch_apply_effect [OF assms(2)]] cluster_get_namespace_ok [OF assms(1)] by blast

lemma fe_watch_line_ok:
  assumes "cluster_ok (fst st)" and "fe_watch_line J parse cfg line st = Inr st'"
  shows "cluster_ok (fst st')"
proof -
  obtain cs ch cs' ch' where st: "st = (cs, ch)" "st' = (cs', ch')" by (metis surj_pair)
  from assms(2) obtain ev where ev: "watch_event J parse line = Inr ev"
    and eq: "(case ev of None \<Rightarrow> Inr st | Some (d, skind, n, k, ob) \<Rightarrow> watch_apply J cfg d skind n k ob st) = Inr st'"
    unfolding fe_watch_line_def by (elim res_bind_Inr_E)
  show ?thesis
  proof (cases ev)
    case None
    with eq assms(1) show ?thesis by simp
  next
    case (Some e)
    then obtain d skind n k ob where "watch_apply J cfg d skind n k ob (cs, ch) = Inr (cs', ch')"
      using eq st by (cases e) auto
    with watch_apply_ok assms(1) st show ?thesis by fastforce
  qed
qed

text \<open>The event of a line for one kind of object: what it leaves under its namespace and name.\<close>

definition event_of ::
  "'j json_ops \<Rightarrow> (string \<Rightarrow> 'j option) \<Rightarrow> string \<Rightarrow> ('j \<Rightarrow> 'o option res) \<Rightarrow> string \<Rightarrow> ((string \<times> string) \<times> 'o option) list" where
  "event_of J parse kind mk line =
     (case watch_event J parse line of
        Inr (Some (deleted, skind, n, k, ob)) \<Rightarrow>
          if skind \<noteq> kind then []
          else if deleted then [((n, k), None)]
          else (case mk ob of Inr (Some x) \<Rightarrow> [((n, k), Some x)] | _ \<Rightarrow> [])
      | _ \<Rightarrow> [])"

text \<open>A kind of object that the watcher keeps: its own events go through \<open>watch_object\<close>, the others do not touch it.\<close>

locale watched = ns_objects put get del oname
  for put :: "namespace_t \<Rightarrow> 'o \<Rightarrow> namespace_t" and get del oname +
  fixes J :: "'j json_ops" and cfg :: k8s_config_t and kind :: string and mk :: "'j \<Rightarrow> 'o option res"
  assumes apply_own: "watch_apply J cfg d kind n k ob (cs, ch) = watch_object mk put del d n k ob (cluster_get_namespace cs n)"
    and op_other: "kind_op skind f \<Longrightarrow> skind \<noteq> kind \<Longrightarrow> get (f ns) k = get ns k"
    and mk_name: "object_meta J ob = Inr (Some (n, k)) \<Longrightarrow> mk ob = Inr (Some x) \<Longrightarrow> oname x = k"
begin

lemma watch_event_meta:
  assumes "watch_event J parse line = Inr (Some (d, skind, n, k, ob))"
  shows "object_meta J ob = Inr (Some (n, k))"
  using assms by (auto simp: watch_event_def split: option.splits if_splits)

lemma own_event:
  assumes "cluster_ok cs" and "watch_object mk put del d n k ob (cluster_get_namespace cs n) = Inr (cs', ch')"
    and "object_meta J ob = Inr (Some (n, k))"
  shows "cluster_lookup get cs' m j =
    (if (m, j) = (n, k) then (if d then None else case mk ob of Inr (Some x) \<Rightarrow> Some x | _ \<Rightarrow> cluster_lookup get cs m j)
     else cluster_lookup get cs m j)"
proof -
  let ?cs = "cluster_get_namespace cs n"
  have ok: "cluster_ok ?cs" using assms(1) by blast
  have same: "cluster_lookup get ?cs m j = cluster_lookup get cs m j" for m j
    using assms(1) get_make by (rule cluster_lookup_get_namespace)
  show ?thesis
  proof (cases d)
    case True
    with assms(2) cluster_del(2) [OF ok] same show ?thesis by (auto simp: watch_object_def)
  next
    case False
    with assms(2) obtain r where r: "mk ob = Inr r" by (auto simp: watch_object_def)
    show ?thesis
    proof (cases r)
      case None
      with False r assms(2) same show ?thesis by (auto simp: watch_object_def)
    next
      case (Some x)
      with mk_name [OF assms(3)] r have "oname x = k" by simp
      with Some False r assms(2) cluster_put(2) [OF ok] same show ?thesis by (auto simp: watch_object_def)
    qed
  qed
qed

lemma line_lookup:
  assumes "cluster_ok (fst st)" and "fe_watch_line J parse cfg line st = Inr st'"
  shows "cluster_lookup get (fst st') m j =
    (case map_of (rev (event_of J parse kind mk line)) (m, j) of None \<Rightarrow> cluster_lookup get (fst st) m j | Some ov \<Rightarrow> ov)"
proof -
  obtain cs ch cs' ch' where st: "st = (cs, ch)" "st' = (cs', ch')" by (metis surj_pair)
  have ok: "cluster_ok cs" using assms(1) st by simp
  from assms(2) obtain ev where ev: "watch_event J parse line = Inr ev"
    and eq: "(case ev of None \<Rightarrow> Inr st | Some (d, skind, n, k, ob) \<Rightarrow> watch_apply J cfg d skind n k ob st) = Inr st'"
    unfolding fe_watch_line_def by (elim res_bind_Inr_E)
  show ?thesis
  proof (cases ev)
    case None
    with eq ev st show ?thesis by (simp add: event_of_def)
  next
    case (Some e)
    obtain d skind n k ob where e: "e = (d, skind, n, k, ob)" by (metis surj_pair)
    have a: "watch_apply J cfg d skind n k ob (cs, ch) = Inr (cs', ch')" using eq Some e st by simp
    have meta: "object_meta J ob = Inr (Some (n, k))" using watch_event_meta ev Some e by blast
    show ?thesis
    proof (cases "skind = kind")
      case True
      from a have w: "watch_object mk put del d n k ob (cluster_get_namespace cs n) = Inr (cs', ch')"
        unfolding True apply_own .
      show ?thesis unfolding st fst_conv own_event [OF ok w meta]
        using ev Some e True by (auto simp: event_of_def split: sum.splits option.splits)
    next
      case False
      have "cluster_lookup get cs' m j = cluster_lookup get (cluster_get_namespace cs n) m j"
        by (rule event_effect_lookup [where get = get, OF watch_apply_effect [OF a] cluster_get_namespace_ok [OF ok]])
          (simp_all add: op_other [OF _ False] get_make)
      then have "cluster_lookup get cs' m j = cluster_lookup get cs m j"
        using cluster_lookup_get_namespace [where get = get, OF ok] get_make by simp
      with False ev Some e st show ?thesis by (simp add: event_of_def)
    qed
  qed
qed

lemma last_event_wins:
  assumes "cluster_ok (fst st)" and "res_fold (fe_watch_line J parse cfg) lines st = Inr st'"
  shows "cluster_lookup get (fst st') m j =
    (case map_of (rev (concat (map (event_of J parse kind mk) lines))) (m, j) of
       None \<Rightarrow> cluster_lookup get (fst st) m j | Some ov \<Rightarrow> ov)"
  using assms
proof (induction lines arbitrary: st)
  case (Cons l ls)
  from Cons.prems(2) obtain st1 where st1: "fe_watch_line J parse cfg l st = Inr st1"
    and rest: "res_fold (fe_watch_line J parse cfg) ls st1 = Inr st'" by auto
  from Cons.IH [OF fe_watch_line_ok [OF Cons.prems(1) st1] rest] line_lookup [OF Cons.prems(1) st1]
  show ?case by (auto simp: map_add_def split: option.splits)
qed simp

end

lemma object_maker_names:
  "object_meta J ob = Inr (Some (n, k)) \<Longrightarrow> ingress_make J ob = Inr (Some ing) \<Longrightarrow> in_name ing = k"
  "object_meta J ob = Inr (Some (n, k)) \<Longrightarrow> service_make J ob = Inr (Some svc) \<Longrightarrow> sv_name svc = k"
  "object_meta J ob = Inr (Some (n, k)) \<Longrightarrow> secret_make J ob = Inr (Some se) \<Longrightarrow> se_name se = k"
  by (auto simp: ingress_make_def service_make_def secret_make_def Let_def split: option.splits if_splits)

interpretation watched_ingresses: watched namespace_put_ingress namespace_get_ingress namespace_del_ingress in_name
  J cfg "''Ingress''" "ingress_make J" for J :: "'j json_ops" and cfg
  by unfold_locales (simp_all add: watch_apply_def kind_op_other object_maker_names)

interpretation watched_services: watched namespace_put_service namespace_get_service namespace_del_service sv_name
  J cfg "''Service''" "service_make J" for J :: "'j json_ops" and cfg
  by unfold_locales (simp_all add: watch_apply_def kind_op_other object_maker_names)

interpretation watched_secrets: watched namespace_put_secret namespace_get_secret namespace_del_secret se_name
  J cfg "''Secret''" "secret_make J" for J :: "'j json_ops" and cfg
  by unfold_locales (simp_all add: watch_apply_def kind_op_other object_maker_names)

subsection \<open>The full fetch\<close>

lemma fetch_object_effect:
  assumes "fetch_object mk put n item cs = Inr cs'" and "\<And>x. kind_op skind (\<lambda>ns. put ns x)"
  shows "event_effect skind n cs cs'"
  using assms(1) event_effect.same [of skind n cs] event_effect.change [OF assms(2), of n cs]
  by (auto simp: fetch_object_def split: option.splits)

text \<open>An item changes only the new cluster or only the configuration of the one in use; what becomes of the new cluster does not
  depend on the one in use.\<close>

definition fetch_new :: "'j json_ops \<Rightarrow> string \<Rightarrow> 'j \<Rightarrow> string \<Rightarrow> cluster_t \<Rightarrow> cluster_t res" where
  "fetch_new J kind item n newcs =
     (if kind = ''IngressList'' then fetch_object (ingress_make J) namespace_put_ingress n item newcs
      else if kind = ''ServiceList'' then fetch_object (service_make J) namespace_put_service n item newcs
      else if kind = ''SecretList'' then fetch_object (secret_make J) namespace_put_secret n item newcs
      else if kind = ''EndpointsList'' then fetch_object (endpoints_make J) namespace_put_endpoints n item newcs
      else Inr newcs)"

lemma fetch_new_ok:
  assumes "cluster_ok newcs" and "fetch_new J kind item n newcs = Inr newcs'"
  shows "cluster_ok newcs'"
proof -
  have i: "fetch_object (ingress_make J) namespace_put_ingress n item newcs = Inr newcs' \<Longrightarrow> cluster_ok newcs'"
    by (rule event_effect_ok [OF fetch_object_effect [OF _ put_ingress] assms(1)])
  have v: "fetch_object (service_make J) namespace_put_service n item newcs = Inr newcs' \<Longrightarrow> cluster_ok newcs'"
    by (rule event_effect_ok [OF fetch_object_effect [OF _ put_service] assms(1)])
  have s: "fetch_object (secret_make J) namespace_put_secret n item newcs = Inr newcs' \<Longrightarrow> cluster_ok newcs'"
    by (rule event_effect_ok [OF fetch_object_effect [OF _ put_secret] assms(1)])
  have e: "fetch_object (endpoints_make J) namespace_put_endpoints n item newcs = Inr newcs' \<Longrightarrow> cluster_ok newcs'"
    by (rule event_effect_ok [OF fetch_object_effect [OF _ put_endpoints] assms(1)])
  show ?thesis
    using assms(2) unfolding fetch_new_def
    by (simp only: sum.inject split: if_split_asm) (erule i | erule v | erule s | erule e | use assms(1) in simp)+
qed

text \<open>The namespace of an item, and the configuration it carries for us.\<close>

definition item_namespace :: "'j json_ops \<Rightarrow> 'j \<Rightarrow> string option res" where
  "item_namespace J item =
     (case j_get J item ''metadata'' of
        None \<Rightarrow> Inr None
      | Some metadata \<Rightarrow> if j_is J metadata json_type_object then json_str J metadata ''namespace'' else Inr None)"

definition item_config :: "'j json_ops \<Rightarrow> k8s_config_t \<Rightarrow> 'j \<Rightarrow> cluster_t \<Rightarrow> cluster_t res" where
  "item_config J cfg item cs =
     res_bind (configmap_make J item) (\<lambda>r. Inr (case r of
       None \<Rightarrow> cs
     | Some cm \<Rightarrow> if is_our_configmap cfg (cm_namespace cm) (cm_name cm) then cluster_set_configmap cs (Some cm) else cs))"

lemma fetcher_process_item_eq:
  "fetcher_process_item J cfg kind item (newcs, cs) =
     res_bind (item_namespace J item) (\<lambda>n. case n of
       None \<Rightarrow> Inr (newcs, cs)
     | Some n \<Rightarrow>
         if kind = ''ConfigMapList'' then res_bind (item_config J cfg item cs) (\<lambda>cs. Inr (cluster_get_namespace newcs n, cs))
         else res_bind (fetch_new J kind item n (cluster_get_namespace newcs n)) (\<lambda>newcs. Inr (newcs, cs)))"
proof (cases "j_get J item ''metadata''")
  case None
  then show ?thesis by (simp add: fetcher_process_item_def item_namespace_def)
next
  case (Some metadata)
  show ?thesis
  proof (cases "j_is J metadata json_type_object \<and> (\<exists>n. json_str J metadata ''namespace'' = Inr (Some n))")
    case True
    then obtain n where n: "json_str J metadata ''namespace'' = Inr (Some n)" by blast
    have config: "res_bind (item_config J cfg item cs) (\<lambda>cs. Inr (cluster_get_namespace newcs n, cs))
        = res_bind (configmap_make J item) (\<lambda>r. Inr (cluster_get_namespace newcs n, case r of
            None \<Rightarrow> cs
          | Some cm \<Rightarrow> if is_our_configmap cfg (cm_namespace cm) (cm_name cm) then cluster_set_configmap cs (Some cm) else cs))"
      by (simp add: item_config_def res_bind_assoc)
    show ?thesis using True Some n
      by (simp add: fetcher_process_item_def item_namespace_def fetch_new_def config Let_def)
  next
    case False
    with Some show ?thesis
      by (cases "json_str J metadata ''namespace''") (auto simp: fetcher_process_item_def item_namespace_def split: option.split)
  qed
qed

lemma item_config_keeps:
  assumes "item_config J cfg item cs = Inr cs'"
  shows "cs_namespaces cs' = cs_namespaces cs"
  using assms by (auto simp: item_config_def cluster_set_configmap_def split: option.splits if_splits)

lemma cluster_ok_namespaces: "cs_namespaces cs = cs_namespaces cs' \<Longrightarrow> cluster_ok cs = cluster_ok cs'"
  by (simp add: cluster_ok_def)

lemma fetcher_process_item_ok:
  assumes "fetcher_process_item J cfg kind item (newcs, cs) = Inr (newcs', cs')" and "cluster_ok newcs"
  shows "cluster_ok newcs' \<and> cs_namespaces cs' = cs_namespaces cs"
proof -
  from assms(1) obtain n where n: "item_namespace J item = Inr n" unfolding fetcher_process_item_eq by (elim res_bind_Inr_E)
  show ?thesis
  proof (cases n)
    case None
    with assms n show ?thesis by (simp add: fetcher_process_item_eq)
  next
    case (Some m)
    have ok: "cluster_ok (cluster_get_namespace newcs m)" using assms(2) by blast
    show ?thesis
    proof (cases "kind = ''ConfigMapList''")
      case True
      with assms(1) n Some ok show ?thesis by (auto simp: fetcher_process_item_eq dest: item_config_keeps)
    next
      case False
      with assms(1) n Some ok show ?thesis by (auto simp: fetcher_process_item_eq dest: fetch_new_ok)
    qed
  qed
qed

text \<open>The new cluster that a response leaves does not depend on the cluster in use.\<close>

lemma fetcher_process_item_new:
  assumes "fetcher_process_item J cfg kind item (newcs, cs) = Inr (new1, cs1)"
    and "fetcher_process_item J cfg kind item (newcs, cs2) = Inr (new3, cs3)"
  shows "new3 = new1"
proof -
  from assms(1) obtain n where "item_namespace J item = Inr n" unfolding fetcher_process_item_eq by (elim res_bind_Inr_E)
  with assms show ?thesis
    by (cases n; cases "kind = ''ConfigMapList''") (auto simp: fetcher_process_item_eq)
qed

lemma process_items_new:
  assumes "res_fold (fetcher_process_item J cfg kind) items (newcs, cs) = Inr (new1, cs1)"
    and "res_fold (fetcher_process_item J cfg kind) items (newcs, cs2) = Inr (new3, cs3)"
  shows "new3 = new1"
  using assms
proof (induction items arbitrary: newcs cs cs2)
  case (Cons x xs)
  from Cons.prems(1) obtain n4 c4 where 1: "fetcher_process_item J cfg kind x (newcs, cs) = Inr (n4, c4)"
    "res_fold (fetcher_process_item J cfg kind) xs (n4, c4) = Inr (new1, cs1)" by auto
  from Cons.prems(2) obtain n5 c5 where 2: "fetcher_process_item J cfg kind x (newcs, cs2) = Inr (n5, c5)"
    "res_fold (fetcher_process_item J cfg kind) xs (n5, c5) = Inr (new3, cs3)" by auto
  from fetcher_process_item_new [OF 1(1) 2(1)] 1(2) 2(2) Cons.IH show ?case by blast
qed simp

lemma process_items_ok:
  assumes "cluster_ok newcs" and "res_fold (fetcher_process_item J cfg kind) items (newcs, cs) = Inr (newcs', cs')"
  shows "cluster_ok newcs' \<and> cs_namespaces cs' = cs_namespaces cs"
proof -
  let ?I = "\<lambda>st. cluster_ok (fst st) \<and> cs_namespaces (snd st) = cs_namespaces cs"
  have "?I (newcs', cs')"
  proof (rule res_fold_invariant [where I = ?I, OF _ _ assms(2)])
    fix x s s' assume "?I s" and "fetcher_process_item J cfg kind x s = Inr s'"
    then show "?I s'" using fetcher_process_item_ok [of J cfg kind x "fst s" "snd s" "fst s'" "snd s'"] by simp
  qed (use assms(1) in simp)
  then show ?thesis by simp
qed

text \<open>The items of a response: None if it is no list with a version, else its kind (if it has one) and items.\<close>

definition response_list :: "'j json_ops \<Rightarrow> (string \<Rightarrow> 'j option) \<Rightarrow> string option \<Rightarrow> (string \<times> string option \<times> 'j list) option res" where
  "response_list J parse buf =
     (case Option.bind buf (\<lambda>b. parse (cstr b)) of
        None \<Rightarrow> Inr None
      | Some obj \<Rightarrow>
          (case (j_get J obj ''items'', j_get J obj ''metadata'') of
             (Some items, Some metadata) \<Rightarrow>
               if \<not> j_is J items json_type_array \<or> \<not> j_is J metadata json_type_object then Inr None
               else res_bind (json_str J metadata ''resourceVersion'') (\<lambda>rversion.
                 case rversion of
                   None \<Rightarrow> Inr None
                 | Some v \<Rightarrow> res_bind (json_str J obj ''kind'') (\<lambda>kind. Inr (Some (v, kind, json_elems J items))))
           | _ \<Rightarrow> Inr None))"

lemma fetcher_process_eq:
  "fetcher_process J parse cfg buf (v, newcs, cs) =
     res_bind (response_list J parse buf) (\<lambda>r. case r of
       None \<Rightarrow> Inr (v, newcs, cs)
     | Some (v', None, items) \<Rightarrow> Inr (Some v', newcs, cs)
     | Some (v', Some kind, items) \<Rightarrow>
         res_bind (res_fold (fetcher_process_item J cfg kind) items (newcs, cs)) (\<lambda>cs'. Inr (Some v', cs')))"
proof (cases buf)
  case None
  then show ?thesis by (simp add: fetcher_process_def response_list_def)
next
  case (Some b)
  show ?thesis
  proof (cases "parse (cstr b)")
    case None
    with Some show ?thesis by (simp add: fetcher_process_def response_list_def)
  next
    case obj: (Some obj)
    show ?thesis
    proof (cases "\<exists>items metadata. j_get J obj ''items'' = Some items \<and> j_get J obj ''metadata'' = Some metadata
        \<and> j_is J items json_type_array \<and> j_is J metadata json_type_object")
      case False
      with Some obj show ?thesis
        by (cases "j_get J obj ''items''"; cases "j_get J obj ''metadata''") (auto simp: fetcher_process_def response_list_def)
    next
      case True
      then obtain items metadata where m: "j_get J obj ''items'' = Some items" "j_get J obj ''metadata'' = Some metadata"
        "j_is J items json_type_array" "j_is J metadata json_type_object" by blast
      show ?thesis
      proof (cases "json_str J metadata ''resourceVersion''")
        case (Inl e)
        with Some obj m show ?thesis by (simp add: fetcher_process_def response_list_def)
      next
        case (Inr rv)
        show ?thesis
          using Some obj m Inr
          by (cases rv; cases "json_str J obj ''kind''") (auto simp: fetcher_process_def response_list_def split: option.split)
      qed
    qed
  qed
qed

lemma fetcher_process_ok:
  assumes "fetcher_process J parse cfg buf (v, newcs, cs) = Inr (v', newcs', cs')" and "cluster_ok newcs"
  shows "cluster_ok newcs' \<and> cs_namespaces cs' = cs_namespaces cs"
proof -
  from assms(1) obtain r where r: "response_list J parse buf = Inr r" unfolding fetcher_process_eq by (elim res_bind_Inr_E)
  show ?thesis
  proof (cases r)
    case None
    with assms r show ?thesis by (simp add: fetcher_process_eq)
  next
    case (Some p)
    obtain v1 kind items where p: "p = (v1, kind, items)" by (cases p)
    with Some r assms process_items_ok [OF assms(2), of J cfg "the kind" items cs newcs' cs'] show ?thesis
      by (cases kind) (auto simp: fetcher_process_eq)
  qed
qed

lemma fetch_messages_ok:
  assumes "fetch_messages J parse cfg msgs (newcs, wt) = Inr (ok, newcs', wt')" and "cluster_ok newcs"
  shows "cluster_ok newcs' \<and> cs_namespaces (wt_cluster wt') = cs_namespaces (wt_cluster wt)
    \<and> length (wt_versions wt') = length (wt_versions wt)"
  using assms
proof (induction msgs arbitrary: newcs wt)
  case (Cons m msgs)
  obtain i succ body where m: "m = (i, succ, body)" by (cases m)
  show ?case
  proof (cases succ)
    case False
    with Cons.prems m show ?thesis by (auto split: if_splits)
  next
    case True
    with Cons.prems(1) m obtain v newcs1 cs1 where
      p: "fetcher_process J parse cfg body (wt_versions wt ! i, newcs, wt_cluster wt) = Inr (v, newcs1, cs1)"
      and rest: "fetch_messages J parse cfg msgs (newcs1, wt\<lparr>wt_versions := (wt_versions wt)[i := v], wt_cluster := cs1\<rparr>) = Inr (ok, newcs', wt')"
      by (auto split: if_splits)
    from fetcher_process_ok [OF p Cons.prems(2)] Cons.IH [OF rest] show ?thesis by simp
  qed
qed auto

subsection \<open>The watcher as a state machine\<close>

text \<open>
  The thread either fetches everything, or reads the five watch streams, each with the incomplete line it has read so far
  and its \<^verbatim>\<open>changed\<close> flag.
\<close>

datatype watch_phase = Resync | Watching "(string \<times> bool) list"

text \<open>\<open>ws_published\<close> is the cluster that the callback (\<^verbatim>\<open>cs_callback\<close>, which rebuilds the remap database) has seen last.\<close>

record watcher_state =
  ws_phase :: watch_phase
  ws_watcher :: watcher_t
  ws_published :: "cluster_t option"

text \<open>
  \<^verbatim>\<open>watcher_thread\<close> with \<^verbatim>\<open>fetcher_watch\<close>: the result of a fetch, the data that arrives on a
  stream and the end of a watch (a transfer that finishes, an error of libcurl, or the deadline) are up to the environment.
\<close>

inductive watcher_step ::
  "'j json_ops \<Rightarrow> (string \<Rightarrow> 'j option) \<Rightarrow> k8s_config_t \<Rightarrow> watcher_state \<Rightarrow> watcher_state \<Rightarrow> bool"
  for J parse cfg where
  fetched: "ws_phase s = Resync \<Longrightarrow> fetcher_get_all J parse cfg result (ws_watcher s) = Inr (True, wt)
      \<Longrightarrow> res_map (fetcher_watch_make cfg) (zip resource_urls (wt_versions wt)) = Inr urls
      \<Longrightarrow> watcher_step J parse cfg s
            \<lparr>ws_phase = Watching (map (\<lambda>_. ([], False)) urls), ws_watcher = wt, ws_published = Some (wt_cluster wt)\<rparr>"
| failed: "ws_phase s = Resync \<Longrightarrow> fetcher_get_all J parse cfg result (ws_watcher s) = Inr (False, wt)
      \<Longrightarrow> watcher_step J parse cfg s (s\<lparr>ws_watcher := wt\<rparr>)"
| data: "ws_phase s = Watching fes \<Longrightarrow> i < length fes \<Longrightarrow> fes ! i = (buf, changed)
      \<Longrightarrow> fe_watch_read J parse cfg chunk (buf, wt_cluster (ws_watcher s), changed) = Inr (buf', cs, changed')
      \<Longrightarrow> watcher_step J parse cfg s
            (s\<lparr>ws_phase := Watching (fes[i := (buf', changed')]), ws_watcher := (ws_watcher s)\<lparr>wt_cluster := cs\<rparr>\<rparr>)"
| published: "ws_phase s = Watching fes \<Longrightarrow> (\<exists>fe \<in> set fes. snd fe)
      \<Longrightarrow> watcher_step J parse cfg s
            (s\<lparr>ws_phase := Watching (map (\<lambda>(buf, _). (buf, False)) fes), ws_published := Some (wt_cluster (ws_watcher s))\<rparr>)"
| ended: "ws_phase s = Watching fes \<Longrightarrow> watcher_step J parse cfg s (s\<lparr>ws_phase := Resync\<rparr>)"

definition watcher_init :: watcher_state where
  "watcher_init = \<lparr>ws_phase = Resync, ws_watcher = \<lparr>wt_cluster = cluster_make, wt_versions = replicate 5 None\<rparr>, ws_published = None\<rparr>"

text \<open>Two clusters that differ only in namespaces without objects.\<close>

definition same_objects :: "cluster_t \<Rightarrow> cluster_t \<Rightarrow> bool" where
  "same_objects cs cs' \<longleftrightarrow> cs_config cs' = cs_config cs
     \<and> cluster_lookup namespace_get_ingress cs' = cluster_lookup namespace_get_ingress cs
     \<and> cluster_lookup namespace_get_service cs' = cluster_lookup namespace_get_service cs
     \<and> cluster_lookup namespace_get_secret cs' = cluster_lookup namespace_get_secret cs
     \<and> cluster_lookup namespace_get_endpoints cs' = cluster_lookup namespace_get_endpoints cs"

definition watcher_inv :: "watcher_state \<Rightarrow> bool" where
  "watcher_inv s \<longleftrightarrow> cluster_ok (wt_cluster (ws_watcher s)) \<and> length (wt_versions (ws_watcher s)) = 5 \<and>
     (case ws_phase s of
        Resync \<Rightarrow> True
      | Watching fes \<Rightarrow> length fes = 5 \<and> None \<notin> set (wt_versions (ws_watcher s)) \<and> (\<forall>(buf, _) \<in> set fes. CHR 0x0A \<notin> set buf)
          \<and> (\<exists>p. ws_published s = Some p \<and> cluster_ok p \<and> ((\<exists>fe \<in> set fes. snd fe) \<or> same_objects p (wt_cluster (ws_watcher s)))))"

lemma same_objects_refl [simp]: "same_objects cs cs"
  by (simp add: same_objects_def)

lemma same_objects_trans: "same_objects a b \<Longrightarrow> same_objects b c \<Longrightarrow> same_objects a c"
  by (simp add: same_objects_def)

lemma namespace_make_empty [simp]:
  "namespace_get_ingress (namespace_make n) k = None" "namespace_get_service (namespace_make n) k = None"
  "namespace_get_secret (namespace_make n) k = None" "namespace_get_endpoints (namespace_make n) k = None"
  by (simp_all add: namespace_op_defs namespace_make_def)

lemma cs_config_get_namespace [simp]: "cs_config (cluster_get_namespace cs n) = cs_config cs"
  by (simp add: cluster_get_namespace_def split: option.split)

lemma same_objects_get_namespace: "cluster_ok cs \<Longrightarrow> same_objects cs (cluster_get_namespace cs n)"
  by (simp add: same_objects_def fun_eq_iff cluster_lookup_get_namespace)

text \<open>An event that does not set the flag has changed no object; the flag is never reset by an event.\<close>

lemma watch_object_flag: "watch_object mk put del d n k ob cs = Inr (cs', ch') \<Longrightarrow> ch'"
  by (auto simp: watch_object_def split: if_splits option.splits)

lemma watch_configmap_flag: "watch_configmap J cfg d n k ob (cs, ch) = Inr (cs', ch') \<Longrightarrow> ch' \<or> \<not> ch \<and> cs' = cs"
  by (auto simp: watch_configmap_def split: if_splits option.splits)

lemma watch_endpoints_flag: "watch_endpoints J d n k ob (cs, ch) = Inr (cs', ch') \<Longrightarrow> ch' \<or> \<not> ch \<and> cs' = cs"
  by (auto simp: watch_endpoints_def split: if_splits option.splits)

lemma watch_apply_flag:
  assumes "watch_apply J cfg d skind n k ob (cs, ch) = Inr (cs', ch')"
  shows "ch' \<or> \<not> ch \<and> cs' = cluster_get_namespace cs n"
  using assms unfolding watch_apply_def prod.case Let_def
  by (simp split: if_split_asm add: watch_object_flag) (blast dest: watch_configmap_flag watch_endpoints_flag watch_object_flag)+

lemma fe_watch_line_flag:
  assumes "cluster_ok cs" and "fe_watch_line J parse cfg line (cs, ch) = Inr (cs', ch')"
  shows "ch' \<or> \<not> ch \<and> same_objects cs cs'"
proof -
  from assms(2) obtain ev where "watch_event J parse line = Inr ev"
    and eq: "(case ev of None \<Rightarrow> Inr (cs, ch) | Some (d, skind, n, k, ob) \<Rightarrow> watch_apply J cfg d skind n k ob (cs, ch)) = Inr (cs', ch')"
    unfolding fe_watch_line_def by (elim res_bind_Inr_E)
  show ?thesis
  proof (cases ev)
    case None
    with eq show ?thesis by auto
  next
    case (Some e)
    then obtain d skind n k ob where "watch_apply J cfg d skind n k ob (cs, ch) = Inr (cs', ch')"
      using eq by (cases e) auto
    from watch_apply_flag [OF this] same_objects_get_namespace [OF assms(1)] show ?thesis by blast
  qed
qed

lemma watch_lines_keeps:
  assumes "watch_lines J parse cfg buf (cs, ch) = Inr (buf', cs', ch')" and "cluster_ok cs"
  shows "cluster_ok cs' \<and> (ch' \<or> \<not> ch \<and> same_objects cs cs')"
proof -
  have "\<And>st'. watch_lines J parse cfg buf st = Inr (buf', st') \<Longrightarrow> cluster_ok (fst st)
    \<Longrightarrow> cluster_ok (fst st') \<and> (snd st' \<or> \<not> snd st \<and> same_objects (fst st) (fst st'))" for st
  proof (induction J parse cfg buf st rule: watch_lines.induct)
    case (1 J parse cfg buf st)
    show ?case
    proof (cases "strchr buf CHR 0x0A")
      case None
      with "1.prems"(1) have "st' = st" by (simp add: watch_lines.simps [of J parse cfg buf] del: strchr_None_iff)
      with "1.prems"(2) show ?thesis by simp
    next
      case (Some n)
      with "1.prems"(1) obtain st1 where line: "fe_watch_line J parse cfg (take n buf) st = Inr st1"
        and rest: "watch_lines J parse cfg (drop (Suc n) buf) st1 = Inr (buf', st')"
        by (auto simp: watch_lines.simps [of J parse cfg buf])
      have ok: "cluster_ok (fst st1)" by (rule fe_watch_line_ok [OF "1.prems"(2) line])
      have one: "snd st1 \<or> \<not> snd st \<and> same_objects (fst st) (fst st1)"
        using fe_watch_line_flag [of "fst st" J parse cfg "take n buf" "snd st" "fst st1" "snd st1"] "1.prems"(2) line by simp
      have two: "cluster_ok (fst st') \<and> (snd st' \<or> \<not> snd st1 \<and> same_objects (fst st1) (fst st'))"
        by (rule "1.IH" [OF Some line rest ok])
      with one same_objects_trans show ?thesis by blast
    qed
  qed
  from this [of "(cs, ch)" "(cs', ch')"] assms show ?thesis by simp
qed

lemma fetcher_get_all_ok:
  assumes "fetcher_get_all J parse cfg result wt = Inr (ok, wt')" and "cluster_ok (wt_cluster wt)"
  shows "cluster_ok (wt_cluster wt') \<and> length (wt_versions wt') = length (wt_versions wt)"
proof (cases result)
  case None
  with assms show ?thesis by (simp add: fetcher_get_all_def)
next
  case (Some msgs)
  with assms(1) obtain ok1 newcs1 wt1 where f: "fetch_messages J parse cfg msgs (cluster_make, wt) = Inr (ok1, newcs1, wt1)"
    and eq: "(if ok1 then (True, wt1\<lparr>wt_cluster := (wt_cluster wt1)\<lparr>cs_namespaces := cs_namespaces newcs1\<rparr>\<rparr>) else (False, wt1)) = (ok, wt')"
    by (auto simp: fetcher_get_all_def)
  from fetch_messages_ok [OF f] have k: "cluster_ok newcs1" "cs_namespaces (wt_cluster wt1) = cs_namespaces (wt_cluster wt)"
    "length (wt_versions wt1) = length (wt_versions wt)" by simp_all
  show ?thesis
  proof (cases ok1)
    case True
    with eq k(1,3) cluster_ok_namespaces [of "wt_cluster wt'" newcs1] show ?thesis by auto
  next
    case False
    with eq k(2,3) assms(2) cluster_ok_namespaces [of "wt_cluster wt'" "wt_cluster wt"] show ?thesis by auto
  qed
qed

lemma fetcher_watch_make_versions:
  assumes "res_map (fetcher_watch_make cfg) (zip us vs) = Inr urls" and "length us = length vs"
  shows "length urls = length us \<and> None \<notin> set vs"
proof -
  have l: "list_all2 (\<lambda>r u. fetcher_watch_make cfg r = Inr u) (zip us vs) urls" by (rule res_map_Inr [OF assms(1)])
  have "vs ! i \<noteq> None" if "i < length vs" for i
  proof -
    from l that assms(2) have "fetcher_watch_make cfg (us ! i, vs ! i) = Inr (urls ! i)"
      by (auto simp: list_all2_conv_all_nth)
    then show ?thesis by (auto simp: fetcher_watch_make_def)
  qed
  with l assms(2) show ?thesis by (auto simp: list_all2_lengthD in_set_conv_nth dest: list_all2_lengthD)
qed

lemma fe_watch_read_keeps:
  assumes "fe_watch_read J parse cfg chunk (buf, cs, ch) = Inr (buf', cs', ch')" and "CHR 0x0A \<notin> set buf" and "cluster_ok cs"
  shows "cluster_ok cs' \<and> CHR 0x0A \<notin> set buf' \<and> (ch' \<or> \<not> ch \<and> same_objects cs cs')"
proof -
  have lines: "watch_lines J parse cfg (buf @ chunk) (cs, ch) = Inr (buf', cs', ch')"
    using assms(1,2) by (cases "chunk = []") (simp_all add: fe_watch_read_def watch_lines_none)
  from watch_lines_keeps [OF lines assms(3)] watch_lines_rest [OF lines] show ?thesis by blast
qed

lemma watcher_step_inv:
  assumes "watcher_step J parse cfg s s'" and "watcher_inv s"
  shows "watcher_inv s'"
  using assms
proof (induction rule: watcher_step.induct)
  case (fetched s result wt urls)
  from fetcher_get_all_ok [OF fetched(2)] fetched(4)
  have ok: "cluster_ok (wt_cluster wt)" "length (wt_versions wt) = 5" by (simp_all add: watcher_inv_def)
  then have "length urls = 5 \<and> None \<notin> set (wt_versions wt)"
    using fetcher_watch_make_versions [OF fetched(3)] by (simp add: resource_urls_def)
  with ok show ?case by (auto simp: watcher_inv_def)
next
  case (failed s result wt)
  with fetcher_get_all_ok [OF failed(2)] show ?case by (simp add: watcher_inv_def)
next
  case (data s fes i buf changed chunk buf' cs changed')
  let ?cs = "wt_cluster (ws_watcher s)"
  have mem: "(buf, changed) \<in> set fes" using data(2,3) nth_mem by fastforce
  then have "CHR 0x0A \<notin> set buf" and "cluster_ok ?cs" using data(1,5) by (auto simp: watcher_inv_def)
  from fe_watch_read_keeps [OF data(4) this]
  have k: "cluster_ok cs" "CHR 0x0A \<notin> set buf'" "changed' \<or> \<not> changed \<and> same_objects ?cs cs" by simp_all
  obtain p where p: "ws_published s = Some p" "(\<exists>fe \<in> set fes. snd fe) \<or> same_objects p ?cs" "cluster_ok p"
    using data(1,5) by (auto simp: watcher_inv_def)
  have flag: "(\<exists>fe \<in> set (fes[i := (buf', changed')]). snd fe) \<or> same_objects p cs"
  proof (cases changed')
    case True
    then show ?thesis using set_update_memI [OF data(2), of "(buf', changed')"] by force
  next
    case False
    then have c: "\<not> changed" "same_objects ?cs cs" using k(3) by simp_all
    show ?thesis
    proof (cases "\<exists>fe \<in> set fes. snd fe")
      case True
      then obtain j where j: "j < length fes" "snd (fes ! j)" by (auto simp: in_set_conv_nth)
      with c(1) data(3) have "j \<noteq> i" by auto
      then have "fes[i := (buf', changed')] ! j = fes ! j" by simp
      with j(1) have "fes ! j \<in> set (fes[i := (buf', changed')])" using nth_mem [of j "fes[i := (buf', changed')]"] by simp
      with j(2) show ?thesis by blast
    next
      case False
      with p(2) c(2) same_objects_trans show ?thesis by blast
    qed
  qed
  show ?case using data(1,5) k(1,2) p(1,3) flag set_update_subset_insert [of fes i "(buf', changed')"]
    by (auto simp: watcher_inv_def)
next
  case (published s fes)
  then show ?case by (auto simp: watcher_inv_def)
next
  case (ended s fes)
  then show ?case by (simp add: watcher_inv_def)
qed

lemma watcher_reachable_inv:
  assumes "(watcher_step J parse cfg)\<^sup>*\<^sup>* watcher_init s"
  shows "watcher_inv s"
  using assms
proof (induction rule: rtranclp_induct)
  case base
  show ?case by (simp add: watcher_inv_def watcher_init_def)
qed (rule watcher_step_inv)


lemma fetcher_process_new:
  assumes "fetcher_process J parse cfg buf (v1, newcs, cs1) = Inr (v1', new1, cs1')"
    and "fetcher_process J parse cfg buf (v2, newcs, cs2) = Inr (v2', new2, cs2')"
  shows "new2 = new1"
proof -
  from assms(1) obtain r where r: "response_list J parse buf = Inr r" unfolding fetcher_process_eq by (elim res_bind_Inr_E)
  show ?thesis
  proof (cases r)
    case None
    with assms r show ?thesis by (simp add: fetcher_process_eq)
  next
    case (Some p)
    obtain v kind items where p: "p = (v, kind, items)" by (cases p)
    show ?thesis
    proof (cases kind)
      case None
      with Some p r assms show ?thesis by (simp add: fetcher_process_eq)
    next
      case k: (Some k)
      have "res_fold (fetcher_process_item J cfg k) items (newcs, cs1) = Inr (new1, cs1')"
        and "res_fold (fetcher_process_item J cfg k) items (newcs, cs2) = Inr (new2, cs2')"
        using Some p k r assms by (auto simp: fetcher_process_eq)
      then show ?thesis by (rule process_items_new)
    qed
  qed
qed

lemma fetch_messages_new:
  assumes "fetch_messages J parse cfg msgs (newcs, wt1) = Inr (ok1, new1, wt1')"
    and "fetch_messages J parse cfg msgs (newcs, wt2) = Inr (ok2, new2, wt2')"
  shows "ok2 = ok1 \<and> new2 = new1"
  using assms
proof (induction msgs arbitrary: newcs wt1 wt2)
  case (Cons m msgs)
  obtain i succ body where m: "m = (i, succ, body)" by (cases m)
  show ?case
  proof (cases succ)
    case False
    with Cons.prems m show ?thesis by (auto split: if_splits)
  next
    case True
    from Cons.prems(1) True m obtain v1 n1 c1 where
      p1: "fetcher_process J parse cfg body (wt_versions wt1 ! i, newcs, wt_cluster wt1) = Inr (v1, n1, c1)"
      and r1: "fetch_messages J parse cfg msgs (n1, wt1\<lparr>wt_versions := (wt_versions wt1)[i := v1], wt_cluster := c1\<rparr>) = Inr (ok1, new1, wt1')"
      by (auto split: if_splits)
    from Cons.prems(2) True m obtain v2 n2 c2 where
      p2: "fetcher_process J parse cfg body (wt_versions wt2 ! i, newcs, wt_cluster wt2) = Inr (v2, n2, c2)"
      and r2: "fetch_messages J parse cfg msgs (n2, wt2\<lparr>wt_versions := (wt_versions wt2)[i := v2], wt_cluster := c2\<rparr>) = Inr (ok2, new2, wt2')"
      by (auto split: if_splits)
    from fetcher_process_new [OF p1 p2] r2
    have r2': "fetch_messages J parse cfg msgs (n1, wt2\<lparr>wt_versions := (wt_versions wt2)[i := v2], wt_cluster := c2\<rparr>) = Inr (ok2, new2, wt2')"
      by simp
    show ?thesis by (rule Cons.IH [OF r1 r2'])
  qed
qed auto

lemma fetch_messages_errors:
  assumes "\<forall>(i, ok, body) \<in> set msgs. i < length (wt_versions wt) \<and> ok \<and> response_list J parse body = Inr None"
  shows "fetch_messages J parse cfg msgs (newcs, wt) = Inr (True, newcs, wt)"
  using assms by (induction msgs arbitrary: wt) (auto simp: fetcher_process_eq)

lemma watch_make_null_version:
  assumes "co_server cfg = Some server" and "length us = length vs" and "None \<in> set vs"
  shows "res_map (fetcher_watch_make cfg) (zip us vs) = Inl Null_Pointer"
  using assms(2,3)
proof (induction us vs rule: list_induct2)
  case (Cons u us v vs)
  then show ?case using assms(1) by (cases v) (auto simp: fetcher_watch_make_def)
qed simp

subsection \<open>An example\<close>

text \<open>A parser that knows three texts: an event that adds a Secret, one that deletes it, and an empty list.\<close>

definition example_event :: "string \<Rightarrow> json" where
  "example_event ty = JObj [(''type'', JStr ty), (''object'', JObj [(''kind'', JStr ''Secret''), (''type'', JStr ''Opaque''), (''metadata'', example_meta [])])]"

definition example_parse :: "string \<Rightarrow> json option" where
  "example_parse text =
     (if text = ''a'' then Some (example_event ''ADDED'')
      else if text = ''d'' then Some (example_event ''DELETED'')
      else if text = ''l'' then Some (JObj [(''items'', JArr []), (''metadata'', JObj [(''resourceVersion'', JStr ''7'')])])
      else if text = ''e'' then Some (JObj [(''kind'', JStr ''Status''), (''metadata'', JObj [])])
      else None)"

definition example_config :: k8s_config_t where
  "example_config = \<lparr>co_server = Some ''http://k8s'', co_tls_certfile = None, co_tls_keyfile = None, co_tls_cafile = None,
     co_tls_verify = True, co_token = None, co_tls = True, co_remap = True, co_classes = hash_new 127 True, co_xfp = False,
     co_configmap_namespace = None, co_configmap_name = None\<rparr>"

lemma example_lines:
  "watch_event json_c example_parse ''a'' = Inr (Some (False, ''Secret'', ''default'', ''web'',
     JObj [(''kind'', JStr ''Secret''), (''type'', JStr ''Opaque''), (''metadata'', example_meta [])]))"
  "watch_event json_c example_parse ''d'' = Inr (Some (True, ''Secret'', ''default'', ''web'',
     JObj [(''kind'', JStr ''Secret''), (''type'', JStr ''Opaque''), (''metadata'', example_meta [])]))"
  by (simp_all add: watch_event_def cstr_def NUL_def example_parse_def example_event_def json_c_def json_str_def example_meta_def object_meta_def)

lemma example_responses:
  "response_list json_c example_parse (Some ''l'') = Inr (Some (''7'', None, []))"
  "response_list json_c example_parse (Some ''e'') = Inr None"
  by (simp_all add: response_list_def cstr_def NUL_def example_parse_def json_c_def json_str_def json_elems_def)

definition example_lists :: "(nat \<times> bool \<times> string option) list" where
  "example_lists = map (\<lambda>i. (i, True, Some ''l'')) [0..<5]"

lemma example_fetch:
  "fetcher_get_all json_c example_parse example_config (Some example_lists) (ws_watcher watcher_init)
     = Inr (True, \<lparr>wt_cluster = cluster_make, wt_versions = replicate 5 (Some ''7'')\<rparr>)"
proof -
  have five: "example_lists = [(0, True, Some ''l''), (1, True, Some ''l''), (2, True, Some ''l''), (3, True, Some ''l''), (4, True, Some ''l'')]"
    by (simp add: example_lists_def upt_conv_Cons)
  have none: "replicate 5 (x :: string option) = [x, x, x, x, x]" for x by (simp add: numeral_eq_Suc)
  show ?thesis unfolding five watcher_init_def none
    by (simp add: fetcher_get_all_def fetcher_process_eq example_responses)
qed

definition example_watching :: watcher_state where
  "example_watching = \<lparr>ws_phase = Watching (replicate 5 ([], False)),
     ws_watcher = \<lparr>wt_cluster = cluster_make, wt_versions = replicate 5 (Some ''7'')\<rparr>, ws_published = Some cluster_make\<rparr>"

lemma example_watch_urls:
  "\<exists>urls. res_map (fetcher_watch_make example_config) (zip resource_urls (replicate 5 (Some ''7''))) = Inr urls \<and> length urls = 5"
  by (simp add: resource_urls_def fetcher_watch_make_def example_config_def numeral_eq_Suc del: snprintf_fits)

lemma example_step: "watcher_step json_c example_parse example_config watcher_init example_watching"
proof -
  obtain urls where u: "res_map (fetcher_watch_make example_config) (zip resource_urls (replicate 5 (Some ''7''))) = Inr urls"
    and l: "length urls = 5" using example_watch_urls by blast
  have "watcher_step json_c example_parse example_config watcher_init
      \<lparr>ws_phase = Watching (map (\<lambda>_. ([], False)) urls), ws_watcher = \<lparr>wt_cluster = cluster_make, wt_versions = replicate 5 (Some ''7'')\<rparr>,
       ws_published = Some (wt_cluster \<lparr>wt_cluster = cluster_make, wt_versions = replicate 5 (Some ''7'')\<rparr>)\<rparr>"
    by (rule watcher_step.fetched [OF _ example_fetch]) (simp_all add: watcher_init_def u)
  moreover have "map (\<lambda>_. ([] :: string, False)) urls = replicate 5 ([], False)" by (simp add: map_replicate_const l)
  ultimately show ?thesis by (simp add: example_watching_def)
qed

subsection \<open>Properties\<close>

text \<open>
  C10: However libcurl cuts a watch stream into chunks, the callback applies exactly the complete lines of the stream, in
  order, each once, and keeps the incomplete last line for the next call.
\<close>

theorem watch_chunking:
  assumes "CHR 0x0A \<notin> set buf" and "CHR 0x0A \<notin> set rest" and "\<forall>l \<in> set ls. CHR 0x0A \<notin> set l"
    and "buf @ concat chunks = concat (map (\<lambda>l. l @ [CHR 0x0A]) ls) @ rest"
  shows "res_fold (fe_watch_read J parse cfg) chunks (buf, st)
    = res_bind (res_fold (fe_watch_line J parse cfg) ls st) (\<lambda>st. Inr (rest, st))"
  using assms by (rule fe_watch_read_stream)

theorem watch_chunking_witness:
  "res_fold (fe_watch_read json_c example_parse example_config) [[CHR 0x0A, CHR ''d'', CHR 0x0A], ''x''] (''a'', cluster_make, False)
     = res_bind (res_fold (fe_watch_line json_c example_parse example_config) [''a'', ''d''] (cluster_make, False)) (\<lambda>st. Inr (''x'', st))"
  by (rule watch_chunking) simp_all

text \<open>
  C6: After any stream of watch events, in any chunks, an Ingress, Service or Secret is what the last event about its
  namespace and name says: the object made from it, or nothing after a DELETED.  Without such an event it is unchanged.
\<close>

theorem watch_last_event_wins:
  assumes "cluster_ok cs" and "CHR 0x0A \<notin> set rest" and "\<forall>l \<in> set ls. CHR 0x0A \<notin> set l"
    and "concat chunks = concat (map (\<lambda>l. l @ [CHR 0x0A]) ls) @ rest"
    and "res_fold (fe_watch_read J parse cfg) chunks ([], cs, ch) = Inr (buf', cs', ch')"
  shows "cluster_lookup namespace_get_ingress cs' n k =
      (case map_of (rev (concat (map (event_of J parse ''Ingress'' (ingress_make J)) ls))) (n, k) of
         None \<Rightarrow> cluster_lookup namespace_get_ingress cs n k | Some ov \<Rightarrow> ov)
    \<and> cluster_lookup namespace_get_service cs' n k =
      (case map_of (rev (concat (map (event_of J parse ''Service'' (service_make J)) ls))) (n, k) of
         None \<Rightarrow> cluster_lookup namespace_get_service cs n k | Some ov \<Rightarrow> ov)
    \<and> cluster_lookup namespace_get_secret cs' n k =
      (case map_of (rev (concat (map (event_of J parse ''Secret'' (secret_make J)) ls))) (n, k) of
         None \<Rightarrow> cluster_lookup namespace_get_secret cs n k | Some ov \<Rightarrow> ov)"
proof -
  from assms(5) have "res_bind (res_fold (fe_watch_line J parse cfg) ls (cs, ch)) (\<lambda>st. Inr (rest, st)) = Inr (buf', cs', ch')"
    using fe_watch_read_stream [of "[]" rest ls chunks J parse cfg "(cs, ch)"] assms(2-4) by simp
  then have fold: "res_fold (fe_watch_line J parse cfg) ls (cs, ch) = Inr (cs', ch')" by auto
  have ok: "cluster_ok (fst (cs, ch))" using assms(1) by simp
  show ?thesis
    using watched_ingresses.last_event_wins [OF ok fold, of n k] watched_services.last_event_wins [OF ok fold, of n k]
      watched_secrets.last_event_wins [OF ok fold, of n k] unfolding fst_conv by blast
qed

theorem watch_last_event_wins_witness:
  "\<exists>cs'. res_fold (fe_watch_read json_c example_parse example_config) [''a'', [CHR 0x0A, CHR ''d''], [CHR 0x0A]] ([], cluster_make, False)
      = Inr ([], cs', True) \<and> cluster_lookup namespace_get_secret cs' ''default'' ''web'' = None"
proof -
  let ?ls = "[''a'', ''d'']"
  have made: "\<exists>se. secret_make json_c (JObj [(''kind'', JStr ''Secret''), (''type'', JStr ''Opaque''), (''metadata'', example_meta [])]) = Inr (Some se)"
    by (simp add: secret_make_def object_meta_def json_c_def example_meta_def json_str_def json_data_def Let_def)
  then have "\<exists>cs'. res_fold (fe_watch_line json_c example_parse example_config) ?ls (cluster_make, False) = Inr (cs', True)"
    by (auto simp: fe_watch_line_def example_lines watch_apply_def watch_object_def)
  then obtain cs' where fold: "res_fold (fe_watch_line json_c example_parse example_config) ?ls (cluster_make, False) = Inr (cs', True)" by blast
  have run: "res_fold (fe_watch_read json_c example_parse example_config) [''a'', [CHR 0x0A, CHR ''d''], [CHR 0x0A]]
      ([], cluster_make, False) = Inr ([], cs', True)"
    by (subst fe_watch_read_stream [where rest = "[]" and ls = ?ls]) (simp_all only: fold res_bind_simps, simp_all)
  have "cluster_lookup namespace_get_secret cs' ''default'' ''web'' = None"
    using watch_last_event_wins [of cluster_make "[]" ?ls "[''a'', [CHR 0x0A, CHR ''d''], [CHR 0x0A]]" json_c example_parse
        example_config False "[]" cs' True "''default''" "''web''"] run
    by (simp add: event_of_def example_lines)
  with run show ?thesis by blast
qed

text \<open>
  C5: In every reachable state of the watcher the cluster is well-formed.  While it watches, every resource has a version,
  and unless a stream has its changed flag set, the callback has seen exactly the objects and the configuration of the
  cluster: no event is lost between the cluster and the remap database.
\<close>

theorem watcher_publishes:
  assumes "(watcher_step J parse cfg)\<^sup>*\<^sup>* watcher_init s"
  shows "cluster_ok (wt_cluster (ws_watcher s))
    \<and> (\<forall>fes. ws_phase s = Watching fes \<longrightarrow> None \<notin> set (wt_versions (ws_watcher s))
        \<and> ((\<forall>fe \<in> set fes. \<not> snd fe) \<longrightarrow> (\<exists>p. ws_published s = Some p \<and> same_objects p (wt_cluster (ws_watcher s)))))"
  using watcher_reachable_inv [OF assms] by (auto simp: watcher_inv_def)

theorem watcher_publishes_witness:
  "\<exists>fes. ws_phase example_watching = Watching fes \<and> (\<forall>fe \<in> set fes. \<not> snd fe)
     \<and> (\<exists>p. ws_published example_watching = Some p \<and> same_objects p (wt_cluster (ws_watcher example_watching)))"
  using watcher_publishes [OF r_into_rtranclp [of "watcher_step json_c example_parse example_config", OF example_step]]
  by (simp add: example_watching_def)

text \<open>
  C9: A successful full fetch converges: the namespaces it leaves depend only on the responses, not on what the cluster
  held before, so an object whose DELETED event was missed is gone afterwards.
\<close>

theorem resync_converges:
  assumes "fetcher_get_all J parse cfg result wt1 = Inr (True, wt1')"
    and "fetcher_get_all J parse cfg result wt2 = Inr (True, wt2')"
  shows "cs_namespaces (wt_cluster wt1') = cs_namespaces (wt_cluster wt2')"
proof (cases result)
  case None
  with assms show ?thesis by (simp add: fetcher_get_all_def)
next
  case (Some msgs)
  from assms(1) Some obtain n1 w1 where 1: "fetch_messages J parse cfg msgs (cluster_make, wt1) = Inr (True, n1, w1)"
    "cs_namespaces (wt_cluster wt1') = cs_namespaces n1" by (auto simp: fetcher_get_all_def split: if_splits)
  from assms(2) Some obtain n2 w2 where 2: "fetch_messages J parse cfg msgs (cluster_make, wt2) = Inr (True, n2, w2)"
    "cs_namespaces (wt_cluster wt2') = cs_namespaces n2" by (auto simp: fetcher_get_all_def split: if_splits)
  from fetch_messages_new [OF 1(1) 2(1)] 1(2) 2(2) show ?thesis by simp
qed

theorem resync_converges_witness:
  "fetcher_get_all json_c example_parse example_config (Some [(0, True, Some ''l'')])
      \<lparr>wt_cluster = cluster_get_namespace cluster_make ''old'', wt_versions = [None]\<rparr>
    = Inr (True, \<lparr>wt_cluster = cluster_make, wt_versions = [Some ''7'']\<rparr>)
   \<and> cs_namespaces (wt_cluster \<lparr>wt_cluster = cluster_make, wt_versions = [Some ''7'']\<rparr>) = cs_namespaces cluster_make"
proof -
  let ?old = "\<lparr>wt_cluster = cluster_get_namespace cluster_make ''old'', wt_versions = [None]\<rparr>"
  let ?new = "\<lparr>wt_cluster = cluster_make, wt_versions = [Some ''7'']\<rparr>"
  have 1: "fetcher_get_all json_c example_parse example_config (Some [(0, True, Some ''l'')]) ?old = Inr (True, ?new)"
    by (simp add: fetcher_get_all_def fetcher_process_eq example_responses cluster_get_namespace_def cluster_make_def)
  have 2: "fetcher_get_all json_c example_parse example_config (Some [(0, True, Some ''l'')])
      \<lparr>wt_cluster = cluster_make, wt_versions = [None]\<rparr> = Inr (True, ?new)"
    by (simp add: fetcher_get_all_def fetcher_process_eq example_responses)
  from 1 resync_converges [OF 1 2] show ?thesis by simp
qed

text \<open>
  C38: An error document is taken for a successful response: when the API server answers every request with something that
  is no list (a Status object, say), the full fetch succeeds, drops all objects and keeps the old versions.  At the start
  there is no version yet, and setting up the watch reads through a NULL pointer.
\<close>

theorem api_errors_drop_cluster:
  assumes "\<forall>(i, ok, body) \<in> set msgs. i < length (wt_versions wt) \<and> ok \<and> response_list J parse body = Inr None"
  shows "fetcher_get_all J parse cfg (Some msgs) wt
      = Inr (True, wt\<lparr>wt_cluster := (wt_cluster wt)\<lparr>cs_namespaces := cs_namespaces cluster_make\<rparr>\<rparr>)
    \<and> (co_server cfg \<noteq> None \<and> None \<in> set (wt_versions wt) \<and> length (wt_versions wt) = 5
       \<longrightarrow> res_map (fetcher_watch_make cfg) (zip resource_urls (wt_versions wt)) = Inl Null_Pointer)"
  using fetch_messages_errors [OF assms] watch_make_null_version [of cfg _ resource_urls "wt_versions wt"]
  by (auto simp: fetcher_get_all_def resource_urls_def)

theorem api_errors_drop_cluster_witness:
  "fetcher_get_all json_c example_parse example_config (Some (map (\<lambda>i. (i, True, Some ''e'')) [0..<5])) (ws_watcher watcher_init)
     = Inr (True, ws_watcher watcher_init)
   \<and> res_map (fetcher_watch_make example_config) (zip resource_urls (wt_versions (ws_watcher watcher_init))) = Inl Null_Pointer"
  using api_errors_drop_cluster [of "map (\<lambda>i. (i, True, Some ''e'')) [0..<5]" "ws_watcher watcher_init" json_c example_parse example_config]
  by (auto simp: example_responses watcher_init_def example_config_def)

end
