(* ===== verification/Bytes.thy ===== *)
theory Bytes
  imports Prelude
begin

text \<open>
  Memory as the hash functions of \<^verbatim>\<open>crypt/\<close> use it: \<^verbatim>\<open>memcpy\<close> into a fixed array, which faults when it
  would write outside of it, and words read from and written to byte arrays in the byte order of
  the machine (little-endian), with the big-endian order of the published algorithms as reference.
\<close>

unbundle bit_operations_syntax

subsection \<open>Writing into an array\<close>

definition memcpy_at :: "nat \<Rightarrow> 'a list \<Rightarrow> 'a list \<Rightarrow> 'a list res" where
  "memcpy_at off src buf =
     (if off + length src \<le> length buf then Inr (take off buf @ src @ drop (off + length src) buf)
      else Inl Out_Of_Bounds)"

lemma memcpy_at_ok [simp]:
  "off + length src \<le> length buf \<Longrightarrow>
   memcpy_at off src buf = Inr (take off buf @ src @ drop (off + length src) buf)"
  by (simp add: memcpy_at_def)

lemma memcpy_at_length: "memcpy_at off src buf = Inr buf' \<Longrightarrow> length buf' = length buf"
  by (auto simp: memcpy_at_def split: if_splits)

lemma memcpy_at_prefix:
  "memcpy_at off src buf = Inr buf' \<Longrightarrow> take (off + length src) buf' = take off buf @ src"
  by (auto simp: memcpy_at_def split: if_splits)

text \<open>Character \<open>i\<close> of a C string: the terminating NUL can be read, what follows it cannot.\<close>

definition setting_at :: "string \<Rightarrow> nat \<Rightarrow> char res" where
  "setting_at setting i =
     (if i < length setting then Inr (setting ! i) else if i = length setting then Inr NUL else Inl Out_Of_Bounds)"

subsection \<open>Words in memory\<close>

definition load_le :: "byte list \<Rightarrow> 'a::len word" where
  "load_le bs = foldr (\<lambda>b w. ucast b OR push_bit 8 w) bs 0"

definition load_be :: "byte list \<Rightarrow> 'a::len word" where
  "load_be bs = load_le (rev bs)"

definition store_le :: "nat \<Rightarrow> 'a::len word \<Rightarrow> byte list" where
  "store_le n w = map (\<lambda>i. ucast (drop_bit (8 * i) w)) [0..<n]"

definition store_be :: "nat \<Rightarrow> 'a::len word \<Rightarrow> byte list" where
  "store_be n w = rev (store_le n w)"

fun chunks :: "nat \<Rightarrow> 'a list \<Rightarrow> 'a list list" where
  "chunks n xs = (if n = 0 \<or> xs = [] then [] else take n xs # chunks n (drop n xs))"

declare chunks.simps [simp del]

lemma length_store [simp]: "length (store_le n w) = n" "length (store_be n w) = n"
  by (simp_all add: store_le_def store_be_def)

lemma chunks_Nil [simp]: "chunks n [] = []"
  by (simp add: chunks.simps)

lemma chunks_append: "0 < n \<Longrightarrow> length xs = n \<Longrightarrow> chunks n (xs @ ys) = xs # chunks n ys"
  by (subst chunks.simps) auto

lemma chunks_single: "0 < n \<Longrightarrow> length xs = n \<Longrightarrow> chunks n xs = [xs]"
  using chunks_append [of n xs "[]"] by simp

lemma chunks_append_aligned:
  "0 < n \<Longrightarrow> n dvd length xs \<Longrightarrow> chunks n (xs @ ys) = chunks n xs @ chunks n ys"
proof (induction n xs rule: chunks.induct)
  case (1 n xs)
  show ?case
  proof (cases "xs = []")
    case False
    with "1.prems" have len: "n \<le> length xs" by (auto intro: dvd_imp_le)
    have dvd: "n dvd length (drop n xs)" using "1.prems" by simp
    have "chunks n (xs @ ys) = take n xs # chunks n (drop n xs @ ys)"
      using False len "1.prems" by (subst chunks.simps) simp
    also have "\<dots> = take n xs # chunks n (drop n xs) @ chunks n ys"
      using "1.IH" False dvd "1.prems" by simp
    also have "\<dots> = chunks n xs @ chunks n ys"
      using False "1.prems" by (subst (3) chunks.simps) simp
    finally show ?thesis .
  qed simp
qed

lemma length_chunks: "0 < n \<Longrightarrow> n dvd length xs \<Longrightarrow> length (chunks n xs) = length xs div n"
proof (induction n xs rule: chunks.induct)
  case (1 n xs)
  show ?case
  proof (cases "xs = []")
    case False
    with "1.prems" have len: "n \<le> length xs" by (auto intro: dvd_imp_le)
    have "length (chunks n (drop n xs)) = (length xs - n) div n"
      using "1.IH" False "1.prems" by simp
    with False len "1.prems" show ?thesis by (subst chunks.simps) (simp add: le_div_geq)
  qed simp
qed

lemma chunks_length: "0 < n \<Longrightarrow> n dvd length xs \<Longrightarrow> c \<in> set (chunks n xs) \<Longrightarrow> length c = n"
proof (induction n xs rule: chunks.induct)
  case (1 n xs)
  then have len: "xs \<noteq> []" "n \<le> length xs" by (auto intro: dvd_imp_le)
  from "1.prems"(3) len "1.prems"(1) consider "c = take n xs" | "c \<in> set (chunks n (drop n xs))"
    by (subst (asm) chunks.simps) auto
  then show ?case using len "1.IH" "1.prems" by cases auto
qed

lemma bit_word_high: "LENGTH('a) \<le> n \<Longrightarrow> \<not> bit (w :: 'a::len word) n"
  using bit_imp_le_length [of w n] by auto

lemma bit_load_le:
  "bit (load_le bs :: 'a::len word) i \<longleftrightarrow> i < LENGTH('a) \<and> i div 8 < length bs \<and> bit (bs ! (i div 8)) (i mod 8)"
proof (induction bs arbitrary: i)
  case Nil
  then show ?case by (simp add: load_le_def)
next
  case (Cons b bs)
  have step: "load_le (b # bs) = (ucast b OR push_bit 8 (load_le bs) :: 'a word)" by (simp add: load_le_def)
  show ?case
  proof (cases "i < 8")
    case True
    then show ?thesis by (auto simp: step bit_simps)
  next
    case False
    then obtain j where j: "i = 8 + j" by (metis le_add_diff_inverse not_less)
    have "\<not> bit b i" using j bit_imp_le_length [of b i] by auto
    with j show ?thesis by (auto simp: step bit_simps Cons.IH div_add_self1)
  qed
qed

lemma bit_load_be:
  "bit (load_be bs :: 'a::len word) i \<longleftrightarrow>
    i < LENGTH('a) \<and> i div 8 < length bs \<and> bit (bs ! (length bs - Suc (i div 8))) (i mod 8)"
  by (auto simp: load_be_def bit_load_le rev_nth)

lemma bit_load_be_byte:
  "r < 8 \<Longrightarrow> bit (load_be bs :: 'a::len word) (8 * k + r) \<longleftrightarrow>
    8 * k + r < LENGTH('a) \<and> k < length bs \<and> bit (bs ! (length bs - Suc k)) r"
  by (simp add: bit_load_be)

lemma bit_store_le: "k < n \<Longrightarrow> bit (store_le n w ! k) j \<longleftrightarrow> j < 8 \<and> bit w (8 * k + j)"
  by (auto simp: store_le_def bit_simps add.commute)

lemma store_le_nth: "k < n \<Longrightarrow> store_le n w ! k = ucast (drop_bit (8 * k) w)"
  by (simp add: store_le_def)

lemma load_store_le: "LENGTH('a) \<le> 8 * n \<Longrightarrow> load_le (store_le n w) = (w :: 'a::len word)"
proof (rule bit_word_eqI)
  fix i assume "LENGTH('a) \<le> 8 * n" "i < LENGTH('a)"
  then have "i div 8 < n" by (simp add: less_mult_imp_div_less mult.commute)
  with \<open>i < LENGTH('a)\<close> show "bit (load_le (store_le n w) :: 'a word) i = bit w i"
    by (simp add: bit_load_le bit_store_le)
qed

lemma byte_eq_iff: "(a :: byte) = b \<longleftrightarrow> (\<forall>j < 8. bit a j = bit b j)"
  by (auto intro: bit_word_eqI)

lemma store_load_le:
  assumes "length bs = n" and "8 * n \<le> LENGTH('a)"
  shows "store_le n (load_le bs :: 'a::len word) = bs"
proof (rule nth_equalityI)
  show "length (store_le n (load_le bs :: 'a word)) = length bs" using assms by simp
  fix k assume "k < length (store_le n (load_le bs :: 'a word))"
  then have k: "k < n" by simp
  show "store_le n (load_le bs :: 'a word) ! k = bs ! k"
    unfolding byte_eq_iff using k assms by (auto simp: bit_store_le bit_load_le)
qed

lemma load_store_be: "LENGTH('a) \<le> 8 * n \<Longrightarrow> load_be (store_be n w) = (w :: 'a::len word)"
  by (simp add: load_be_def store_be_def load_store_le)

lemma store_load_be: "length bs = n \<Longrightarrow> 8 * n \<le> LENGTH('a) \<Longrightarrow> store_be n (load_be bs :: 'a::len word) = bs"
  by (simp add: load_be_def store_be_def store_load_le)


text \<open>A word whose four bytes are those of another word in reverse order.\<close>

lemma byte_reverse_eqI:
  fixes s w :: "32 word"
  assumes "\<And>r. r < 8 \<Longrightarrow> bit s r \<longleftrightarrow> bit w (24 + r)" and "\<And>r. r < 8 \<Longrightarrow> bit s (8 + r) \<longleftrightarrow> bit w (16 + r)"
    and "\<And>r. r < 8 \<Longrightarrow> bit s (16 + r) \<longleftrightarrow> bit w (8 + r)" and "\<And>r. r < 8 \<Longrightarrow> bit s (24 + r) \<longleftrightarrow> bit w r"
  shows "s = load_be (store_le 4 w)"
proof (rule bit_word_eqI)
  fix i assume "i < LENGTH(32)"
  then have i: "i < 32" by simp
  define k r where "k = i div 8" and "r = i mod 8"
  have ikr: "i = 8 * k + r" "r < 8" "k < 4" using i by (auto simp: k_def r_def)
  have "bit (load_be (store_le 4 w) :: 32 word) i = bit w (8 * (3 - k) + r)"
    unfolding ikr(1) using ikr(2,3) by (simp add: bit_load_be_byte bit_store_le)
  moreover have "k = 0 \<or> k = 1 \<or> k = 2 \<or> k = 3" using ikr(3) by linarith
  then have "bit s i = bit w (8 * (3 - k) + r)"
    unfolding ikr(1) using ikr(2) by (elim disjE) (simp_all add: assms)
  ultimately show "bit s i = bit (load_be (store_le 4 w) :: 32 word) i" by simp
qed

subsection \<open>Message padding and message schedules\<close>

text \<open>
  The number of zero bytes between the end marker and the length field, for blocks of \<open>B\<close> bytes
  and a length field of \<open>L\<close> bytes.
\<close>

definition md_zeros :: "nat \<Rightarrow> nat \<Rightarrow> nat \<Rightarrow> nat" where
  "md_zeros B L n = (2 * B - L - 1 - n mod B) mod B"

lemma md_zeros_short:
  assumes "B dvd k" and "bytes + L < B"
  shows "md_zeros B L (k + bytes) = B - L - 1 - bytes"
proof -
  have "(k + bytes) mod B = bytes" using assms by (auto elim!: dvdE)
  moreover have "2 * B - L - 1 - bytes = B - L - 1 - bytes + B" using assms by simp
  moreover have "B - L - 1 - bytes < B" using assms by simp
  ultimately show ?thesis unfolding md_zeros_def by (metis mod_add_self2 mod_less)
qed

lemma md_zeros_long:
  assumes "B dvd k" and "B \<le> bytes + L" and "bytes \<le> B" and "0 < L" and "L < B"
  shows "md_zeros B L (k + bytes) = 2 * B - L - 1 - bytes"
proof (cases "bytes = B")
  case True
  then have "(k + bytes) mod B = 0" using assms by (auto elim!: dvdE)
  moreover have "2 * B - L - 1 = B - L - 1 + B" "B - L - 1 < B" using assms by simp_all
  ultimately have "md_zeros B L (k + bytes) = B - L - 1"
    unfolding md_zeros_def by (metis diff_zero mod_add_self2 mod_less)
  with True assms show ?thesis by simp
next
  case False
  with assms have "(k + bytes) mod B = bytes" by (auto elim!: dvdE)
  with False assms show ?thesis by (simp add: md_zeros_def)
qed

text \<open>An array filled element by element from earlier elements holds the recursive function.\<close>

lemma fold_snoc_eq_map:
  assumes "xs = map f [0..<k]" and "k \<le> n"
    and "\<And>t W. k \<le> t \<Longrightarrow> t < n \<Longrightarrow> W = map f [0..<t] \<Longrightarrow> F t W = f t"
  shows "fold (\<lambda>t W. W @ [F t W]) [k..<n] xs = map f [0..<n]"
  using assms(2,3)
proof (induction n)
  case 0
  then show ?case using assms(1) by simp
next
  case (Suc n)
  show ?case
  proof (cases "k \<le> n")
    case True
    have "fold (\<lambda>t W. W @ [F t W]) [k..<n] xs = map f [0..<n]"
      by (rule Suc.IH [OF True]) (simp add: Suc.prems(2))
    moreover have "F n (map f [0..<n]) = f n" using True Suc.prems(2) [of n] by simp
    ultimately show ?thesis using True by simp
  next
    case False
    then have "k = Suc n" using Suc.prems(1) by simp
    then show ?thesis using assms(1) by simp
  qed
qed

text \<open>A number counted in two words: its eightfold is written as the code writes it.\<close>

lemma store_le_append:
  fixes w :: "'b::len word" and lo hi :: "'a::len word"
  assumes "LENGTH('a) = 8 * n"
    and "\<And>i. i < 8 * n \<Longrightarrow> bit w i = bit lo i" and "\<And>i. i < 8 * n \<Longrightarrow> bit w (8 * n + i) = bit hi i"
  shows "store_le (n + n) w = store_le n lo @ store_le n hi"
proof (rule nth_equalityI)
  show "length (store_le (n + n) w) = length (store_le n lo @ store_le n hi)" by simp
  fix k assume "k < length (store_le (n + n) w)"
  then have k: "k < n + n" by simp
  show "store_le (n + n) w ! k = (store_le n lo @ store_le n hi) ! k"
  proof (cases "k < n")
    case True
    have "8 * k + j < 8 * n" if "j < 8" for j using True that by linarith
    then show ?thesis unfolding byte_eq_iff using True k assms(2)
      by (simp add: bit_store_le nth_append)
  next
    case False
    then obtain k' where k': "k = n + k'" "k' < n" using k by (metis add_less_cancel_left le_add_diff_inverse not_less)
    have "8 * k' + j < 8 * n" if "j < 8" for j using k' that by linarith
    then show ?thesis unfolding byte_eq_iff using k' assms(3) [of "8 * k' + _"]
      by (simp add: bit_store_le nth_append distrib_left add.assoc)
  qed
qed

lemma bit_two_words:
  fixes lo hi :: "'a::len word"
  assumes "unat hi * 2 ^ LENGTH('a) + unat lo = n mod 2 ^ LENGTH('b)" and "LENGTH('b) = LENGTH('a) + LENGTH('a)"
  shows "i < LENGTH('a) \<Longrightarrow> bit (word_of_nat n :: 'b::len word) i = bit lo i"
    and "i < LENGTH('a) \<Longrightarrow> bit (word_of_nat n :: 'b::len word) (LENGTH('a) + i) = bit hi i"
proof -
  have n: "bit (word_of_nat n :: 'b word) j \<longleftrightarrow> j < LENGTH('b) \<and> bit (n mod 2 ^ LENGTH('b)) j" for j
    unfolding take_bit_eq_mod [symmetric] by (auto simp: bit_simps)
  have lo: "unat lo < 2 ^ LENGTH('a)" by simp
  have split: "bit (unat hi * 2 ^ LENGTH('a) + unat lo) j \<longleftrightarrow>
      (if j < LENGTH('a) then bit (unat lo) j else bit (unat hi) (j - LENGTH('a)))" for j
  proof (cases "j < LENGTH('a)")
    case True
    have "take_bit LENGTH('a) (unat hi * 2 ^ LENGTH('a) + unat lo) = unat lo"
      using lo by (simp add: take_bit_eq_mod)
    then show ?thesis using True by (metis bit_take_bit_iff)
  next
    case False
    have "drop_bit LENGTH('a) (unat hi * 2 ^ LENGTH('a) + unat lo) = unat hi"
      using lo by (simp add: drop_bit_eq_div)
    moreover have "bit (drop_bit LENGTH('a) (unat hi * 2 ^ LENGTH('a) + unat lo)) (j - LENGTH('a)) =
        bit (unat hi * 2 ^ LENGTH('a) + unat lo) j" using False by (simp add: bit_drop_bit_eq)
    ultimately show ?thesis using False by simp
  qed
  show "i < LENGTH('a) \<Longrightarrow> bit (word_of_nat n :: 'b word) i = bit lo i"
    using n [of i] split [of i] assms by (simp add: bit_unsigned_iff)
  show "i < LENGTH('a) \<Longrightarrow> bit (word_of_nat n :: 'b word) (LENGTH('a) + i) = bit hi i"
    using n [of "LENGTH('a) + i"] split [of "LENGTH('a) + i"] assms by (simp add: bit_unsigned_iff)
qed

lemma store_be_bits:
  fixes lo hi :: "'a::len word"
  assumes "unat hi * 2 ^ LENGTH('a) + unat lo = n mod 2 ^ LENGTH('b)"
    and "LENGTH('a) = 8 * k" and "LENGTH('b) = LENGTH('a) + LENGTH('a)" and "0 < k"
  shows "store_be k (push_bit 3 hi OR drop_bit (LENGTH('a) - 3) lo) @ store_be k (push_bit 3 lo)
    = store_be (k + k) (word_of_nat (8 * n) :: 'b::len word)"
proof -
  define N where "N = (word_of_nat n :: 'b word)"
  have N8: "word_of_nat (8 * n) = push_bit 3 N"
    by (simp add: N_def push_bit_eq_mult)
  note bits = bit_two_words [OF assms(1,3), folded N_def]
  have "store_le (k + k) (push_bit 3 N) = store_le k (push_bit 3 lo) @ store_le k (push_bit 3 hi OR drop_bit (LENGTH('a) - 3) lo)"
  proof (rule store_le_append)
    show "LENGTH('a) = 8 * k" by (rule assms(2))
    fix i assume i: "i < 8 * k"
    then show "bit (push_bit 3 N) i = bit (push_bit 3 lo) i"
      using bits(1) [of "i - 3"] assms by (auto simp: bit_simps)
    have "bit N (8 * k + i - 3) = (if i < 3 then bit lo (8 * k + i - 3) else bit hi (i - 3))"
    proof (cases "i < 3")
      case True
      then show ?thesis using bits(1) [of "8 * k + i - 3"] assms i by simp
    next
      case False
      then have "8 * k + i - 3 = LENGTH('a) + (i - 3)" using assms by simp
      then show ?thesis using bits(2) [of "i - 3"] assms i False by simp
    qed
    moreover have "\<not> bit lo (8 * k + i - 3)" if "\<not> i < 3"
      using that bit_imp_le_length [of lo "8 * k + i - 3"] assms by auto
    moreover have "bit (drop_bit (LENGTH('a) - 3) lo) i = bit lo (8 * k + i - 3)"
    proof -
      have "LENGTH('a) - 3 + i = 8 * k + i - 3" using assms by simp
      then show ?thesis by (simp only: bit_drop_bit_eq comp_apply)
    qed
    ultimately show "bit (push_bit 3 N) (8 * k + i) = bit (push_bit 3 hi OR drop_bit (LENGTH('a) - 3) lo) i"
      using i assms by (auto simp: bit_or_iff bit_push_bit_iff) (use assms(4) in linarith)
  qed
  then show ?thesis unfolding N8 store_be_def by simp
qed


text \<open>A count kept in two words, with the carry the code computes.\<close>

lemma two_word_count:
  fixes lo hi :: "'a::len word"
  assumes "len < 2 ^ LENGTH('a)"
  shows "unat (hi + (if unat (lo + word_of_nat len) < len then 1 else 0)) * 2 ^ LENGTH('a) + unat (lo + word_of_nat len)
    = (unat hi * 2 ^ LENGTH('a) + unat lo + len) mod 2 ^ (LENGTH('a) + LENGTH('a))"
proof -
  define M :: nat where "M = 2 ^ LENGTH('a)"
  define a b where "a = unat lo" and "b = unat hi"
  have a: "a < M" and b: "b < M" unfolding a_def b_def M_def by (rule unsigned_less)+
  have len: "len < M" using assms by (simp add: M_def)
  have MM: "(2::nat) ^ (LENGTH('a) + LENGTH('a)) = M * M" by (simp add: M_def power_add)
  have t0: "unat (lo + word_of_nat len) = (a + len) mod M"
    using len by (simp add: unat_word_ariths unat_of_nat a_def M_def)
  have t1: "unat (hi + 1) = (b + 1) mod M" by (simp add: unat_word_ariths b_def M_def)
  have bM: "b * M + M \<le> M * M" using mult_le_mono1 [of "b + 1" M M] b by simp
  show ?thesis
  proof (cases "a + len < M")
    case True
    then have nc: "\<not> unat (lo + word_of_nat len) < len" using t0 by simp
    have "b * M + a + len < M * M" using True bM by linarith
    then have "b * M + (a + len) mod M = (b * M + a + len) mod (M * M)" using True by simp
    with nc show ?thesis unfolding MM t0 [symmetric] by (simp add: a_def b_def M_def)
  next
    case False
    then have m: "(a + len) mod M = a + len - M" using a len by (simp add: mod_if)
    then have c: "unat (lo + word_of_nat len) < len" using t0 a False by simp
    have "(b + 1) mod M * M + (a + len - M) = (b * M + a + len) mod (M * M)"
    proof (cases "b + 1 = M")
      case True
      then have "b * M + M = M * M" by (metis add_mult_distrib mult_1)
      then have "b * M + a + len = M * M + (a + len - M)" using False by linarith
      moreover have "a + len - M < M * M" using a len bM by linarith
      ultimately have "(b * M + a + len) mod (M * M) = a + len - M" by simp
      with True show ?thesis by simp
    next
      case nb: False
      with b have b1: "b + 1 < M" by simp
      then have "(b + 2) * M \<le> M * M" by (intro mult_le_mono1) simp
      then have "b * M + a + len < M * M" using a len by (simp add: add_mult_distrib)
      then have "(b * M + a + len) mod (M * M) = b * M + a + len" by simp
      moreover have "(b + 1) * M + (a + len - M) = b * M + a + len" using False by (simp add: add_mult_distrib)
      ultimately show ?thesis using b1 by simp
    qed
    with c show ?thesis unfolding MM using t0 t1 m by (simp add: a_def b_def M_def)
  qed
qed


text \<open>The three writes that end a message: the padding, then the low and the high word of its length.\<close>

lemma memcpy_at_middle:
  "length x = length src \<Longrightarrow> off = length pre \<Longrightarrow> memcpy_at off src (pre @ x @ post) = Inr (pre @ src @ post)"
  by simp

lemma memcpy_tail:
  assumes "off + length fill + length hi + length lo \<le> length buf"
  obtains b3 where
    "\<And>F. res_bind (memcpy_at off fill buf) (\<lambda>b1.
         res_bind (memcpy_at (off + length fill + length hi) lo b1) (\<lambda>b2.
         res_bind (memcpy_at (off + length fill) hi b2) F)) = F b3"
    "length b3 = length buf"
    "take (off + length fill + length hi + length lo) b3 = take off buf @ fill @ hi @ lo"
proof -
  define A where "A = take off buf"
  define X where "X = take (length fill) (drop off buf)"
  define Z where "Z = take (length hi) (drop (off + length fill) buf)"
  define Y where "Y = take (length lo) (drop (off + length fill + length hi) buf)"
  define R where "R = drop (off + length fill + length hi + length lo) buf"
  have buf: "buf = A @ X @ Z @ Y @ R"
    unfolding A_def X_def Y_def Z_def R_def
    by (metis (no_types, lifting) add.commute append_take_drop_id drop_drop)
  have len: "length A = off" "length X = length fill" "length Z = length hi" "length Y = length lo"
    using assms by (simp_all add: A_def X_def Z_def Y_def)
  have 1: "memcpy_at off fill buf = Inr (A @ fill @ Z @ Y @ R)"
    unfolding buf by (rule memcpy_at_middle) (simp_all add: len)
  have 2: "memcpy_at (off + length fill + length hi) lo (A @ fill @ Z @ Y @ R) = Inr (A @ fill @ Z @ lo @ R)"
    using memcpy_at_middle [of Y lo "off + length fill + length hi" "A @ fill @ Z" R] len by simp
  have 3: "memcpy_at (off + length fill) hi (A @ fill @ Z @ lo @ R) = Inr (A @ fill @ hi @ lo @ R)"
    using memcpy_at_middle [of Z hi "off + length fill" "A @ fill" "lo @ R"] len by simp
  show thesis
  proof (rule that [of "A @ fill @ hi @ lo @ R"])
    show "length (A @ fill @ hi @ lo @ R) = length buf" using len by (simp add: buf)
    show "take (off + length fill + length hi + length lo) (A @ fill @ hi @ lo @ R) = take off buf @ fill @ hi @ lo"
      using len by (simp flip: A_def)
  qed (simp add: 1 2 3)
qed

end
