(* ===== verification/Synth.thy ===== *)
theory Synth
  imports Bytes "HOL-Library.Sublist"
begin

text \<open>
  Synthetic responses (\<^verbatim>\<open>tsapi/synth.c\<close>): a response that the plugin writes itself is printed into a
  buffer of fixed size and handed to Traffic Server through an intercept.

  \<open>sy_buf\<close> is the whole array, and a write outside of it is a fault.  A format string with its arguments
  appears as the text that it expands to.  The calls of the intercept handler into Traffic Server are recorded in the order in
  which they are made.
\<close>

definition SY_BUFSZ :: nat where "SY_BUFSZ = 16384"

record synth_t =
  sy_buf :: string
  sy_bufpos :: nat
  sy_vc :: bool
  sy_req_buffer :: bool
  sy_resp_buffer :: bool

text \<open>
  \<^verbatim>\<open>vsnprintf(buf + pos, n, ...)\<close> for a text: with \<open>n = 0\<close> nothing is written, otherwise as much of the text as fits before a NUL
  within \<open>n\<close> bytes.
\<close>

definition vsnprintf_at :: "nat \<Rightarrow> nat \<Rightarrow> string \<Rightarrow> string \<Rightarrow> string res" where
  "vsnprintf_at pos n text buf = (if n = 0 then Inr buf else memcpy_at pos (take (n - 1) text @ [NUL]) buf)"

text \<open>
  \<^verbatim>\<open>vsnprintf\<close> returns the length of the whole text (or -1, which as a \<^verbatim>\<open>size_t\<close> is larger than \<^verbatim>\<open>left\<close> too, if that exceeds an
  \<^verbatim>\<open>int\<close>); the position moves by at most the space that was left.  The subtraction is one of \<^verbatim>\<open>size_t\<close>.
\<close>

definition sy_vprintf :: "synth_t \<Rightarrow> string \<Rightarrow> synth_t res" where
  "sy_vprintf sy text =
     (let left = nat ((int SY_BUFSZ - int (sy_bufpos sy)) mod 2 ^ 64) in
      res_bind (vsnprintf_at (sy_bufpos sy) left text (sy_buf sy)) (\<lambda>buf.
      let n = (if length text > left then left else length text)
      in Inr (sy\<lparr>sy_buf := buf, sy_bufpos := sy_bufpos sy + n\<rparr>)))"

definition crlf :: string where "crlf = [CHR 0x0D, CHR 0x0A]"

definition synth_new :: "int \<Rightarrow> string \<Rightarrow> synth_t res" where
  "synth_new status reason =
     sy_vprintf \<lparr>sy_buf = replicate SY_BUFSZ NUL, sy_bufpos = 0, sy_vc = False, sy_req_buffer = False, sy_resp_buffer = False\<rparr>
       (''HTTP/1.1 '' @ print_int status @ '' '' @ reason @ crlf)"

definition synth_add_header :: "synth_t \<Rightarrow> string \<Rightarrow> string \<Rightarrow> synth_t res" where
  "synth_add_header sy hdr text =
     res_bind (sy_vprintf sy (hdr @ '': '')) (\<lambda>sy. res_bind (sy_vprintf sy text) (\<lambda>sy. sy_vprintf sy crlf))"

definition synth_set_body :: "synth_t \<Rightarrow> string option \<Rightarrow> synth_t res" where
  "synth_set_body sy body =
     (case body of
        Some b \<Rightarrow> res_bind (sy_vprintf sy (''Content-Length: '' @ print_nat (length b) @ crlf)) (\<lambda>sy. sy_vprintf sy (crlf @ b))
      | None \<Rightarrow> sy_vprintf sy (''Content-Length: 0'' @ crlf))"

text \<open>The bytes that are sent: those before the position.\<close>

definition sy_text :: "synth_t \<Rightarrow> string" where
  "sy_text sy = take (sy_bufpos sy) (sy_buf sy)"

subsection \<open>The intercept\<close>

datatype synth_event = NET_ACCEPT | VCONN_READ_READY | VCONN_WRITE_READY | VCONN_WRITE_COMPLETE | OTHER_EVENT

datatype synth_call =
    IOBufferCreate | IOBufferDestroy | VConnRead | VConnShutdown | VConnWrite | IOBufferWrite string | VIONBytesSet nat
  | VIOReenable | VConnClose | ContDestroy

definition synth_free :: "synth_t \<Rightarrow> synth_call list" where
  "synth_free sy = (if sy_req_buffer sy then [IOBufferDestroy] else []) @ (if sy_resp_buffer sy then [IOBufferDestroy] else [])
     @ (if sy_vc sy then [VConnClose] else [])"

text \<open>The handler returns the response, or None when it has freed it.\<close>

fun synth_handle :: "synth_event \<Rightarrow> synth_t \<Rightarrow> synth_call list \<times> synth_t option" where
  "synth_handle NET_ACCEPT sy =
     ([IOBufferCreate, IOBufferCreate, VConnRead], Some (sy\<lparr>sy_vc := True, sy_req_buffer := True, sy_resp_buffer := True\<rparr>))"
| "synth_handle VCONN_READ_READY sy = ([VConnShutdown, VConnWrite], Some sy)"
| "synth_handle VCONN_WRITE_READY sy =
     ([IOBufferWrite (sy_text sy), VIONBytesSet (sy_bufpos sy), VIOReenable], Some sy)"
| "synth_handle VCONN_WRITE_COMPLETE sy = (synth_free sy @ [ContDestroy], None)"
| "synth_handle OTHER_EVENT sy = (synth_free sy @ [ContDestroy], None)"

subsection \<open>Lemmas\<close>

definition synth_ok :: "synth_t \<Rightarrow> bool" where
  "synth_ok sy \<longleftrightarrow> length (sy_buf sy) = SY_BUFSZ \<and> sy_bufpos sy \<le> SY_BUFSZ"

lemma length_sy_text: "synth_ok sy \<Longrightarrow> length (sy_text sy) = sy_bufpos sy"
  by (simp add: sy_text_def synth_ok_def)

text \<open>Printing stays in the array, keeps what has been printed, and appends the text as far as it fits.\<close>

lemma sy_vprintf_ok:
  assumes "synth_ok sy"
  obtains sy' where "sy_vprintf sy text = Inr sy'" "synth_ok sy'" "prefix (sy_text sy) (sy_text sy')"
    "length (sy_text sy) + length text < SY_BUFSZ \<longrightarrow> sy_text sy' = sy_text sy @ text"
proof -
  let ?pos = "sy_bufpos sy"
  define left where "left = SY_BUFSZ - ?pos"
  define n where "n = (if length text > left then left else length text)"
  have sy: "length (sy_buf sy) = SY_BUFSZ" "?pos \<le> SY_BUFSZ" using assms by (simp_all add: synth_ok_def)
  have "int SY_BUFSZ - int ?pos = int left" using sy(2) by (simp add: left_def)
  moreover have "int left mod 2 ^ 64 = int left" by (simp add: left_def SY_BUFSZ_def)
  ultimately have left: "nat ((int SY_BUFSZ - int ?pos) mod 2 ^ 64) = left" by simp
  define w where "w = (if left = 0 then [] else take (left - 1) text @ [NUL])"
  define buf where "buf = take ?pos (sy_buf sy) @ w @ drop (?pos + length w) (sy_buf sy)"
  have w: "?pos + length w \<le> SY_BUFSZ" using sy(2) by (auto simp: w_def left_def)
  have "vsnprintf_at ?pos left text (sy_buf sy) = Inr buf"
    using w sy(1) by (auto simp: vsnprintf_at_def buf_def w_def)
  then have "sy_vprintf sy text = Inr (sy\<lparr>sy_buf := buf, sy_bufpos := ?pos + n\<rparr>)"
    unfolding sy_vprintf_def left Let_def n_def by simp
  moreover have "synth_ok (sy\<lparr>sy_buf := buf, sy_bufpos := ?pos + n\<rparr>)"
  proof -
    have "?pos + n \<le> SY_BUFSZ" using sy(2) unfolding n_def left_def by (cases "SY_BUFSZ - ?pos < length text") simp_all
    then show ?thesis using w sy(1) by (simp add: synth_ok_def buf_def)
  qed
  moreover have "take ?pos buf = take ?pos (sy_buf sy)" using sy by (simp add: buf_def)
  then have "prefix (sy_text sy) (take (?pos + n) buf)" by (simp add: sy_text_def take_add)
  moreover have "take (?pos + n) buf = sy_text sy @ text" if "length (sy_text sy) + length text < SY_BUFSZ"
  proof -
    have "length text < left" using that sy by (simp add: left_def length_sy_text [OF assms])
    then have "n = length text" "w = text @ [NUL]" by (auto simp: n_def w_def)
    then show ?thesis using sy by (simp add: buf_def sy_text_def)
  qed
  ultimately show thesis by (intro that [of "sy\<lparr>sy_buf := buf, sy_bufpos := ?pos + n\<rparr>"]) (simp_all add: sy_text_def)
qed

lemma synth_new_ok:
  obtains sy where "synth_new status reason = Inr sy" "synth_ok sy"
    "length (''HTTP/1.1 '' @ print_int status @ '' '' @ reason @ crlf) < SY_BUFSZ \<longrightarrow>
     sy_text sy = ''HTTP/1.1 '' @ print_int status @ '' '' @ reason @ crlf"
proof -
  let ?sy = "\<lparr>sy_buf = replicate SY_BUFSZ NUL, sy_bufpos = 0, sy_vc = False, sy_req_buffer = False, sy_resp_buffer = False\<rparr>"
  have "synth_ok ?sy" "sy_text ?sy = []" by (simp_all add: synth_ok_def sy_text_def)
  then show thesis using sy_vprintf_ok [of ?sy "''HTTP/1.1 '' @ print_int status @ '' '' @ reason @ crlf"] that
    by (auto simp: synth_new_def)
qed

lemma synth_add_header_ok:
  assumes "synth_ok sy"
  obtains sy' where "synth_add_header sy hdr text = Inr sy'" "synth_ok sy'" "prefix (sy_text sy) (sy_text sy')"
    "length (sy_text sy @ hdr @ '': '' @ text @ crlf) < SY_BUFSZ \<longrightarrow> sy_text sy' = sy_text sy @ hdr @ '': '' @ text @ crlf"
proof -
  obtain s1 where 1: "sy_vprintf sy (hdr @ '': '') = Inr s1" "synth_ok s1" "prefix (sy_text sy) (sy_text s1)"
    "length (sy_text sy) + length (hdr @ '': '') < SY_BUFSZ \<longrightarrow> sy_text s1 = sy_text sy @ hdr @ '': ''"
    by (rule sy_vprintf_ok [OF assms, of "hdr @ '': ''"])
  obtain s2 where 2: "sy_vprintf s1 text = Inr s2" "synth_ok s2" "prefix (sy_text s1) (sy_text s2)"
    "length (sy_text s1) + length text < SY_BUFSZ \<longrightarrow> sy_text s2 = sy_text s1 @ text"
    by (rule sy_vprintf_ok [OF 1(2), of "text"])
  obtain s3 where 3: "sy_vprintf s2 crlf = Inr s3" "synth_ok s3" "prefix (sy_text s2) (sy_text s3)"
    "length (sy_text s2) + length crlf < SY_BUFSZ \<longrightarrow> sy_text s3 = sy_text s2 @ crlf"
    by (rule sy_vprintf_ok [OF 2(2), of "crlf"])
  show thesis
  proof (rule that [of s3])
    show "synth_add_header sy hdr text = Inr s3" using 1(1) 2(1) 3(1) by (simp add: synth_add_header_def)
    show "synth_ok s3" by (rule 3(2))
    show "prefix (sy_text sy) (sy_text s3)" using 1(3) 2(3) 3(3) by (meson prefix_order.trans)
    show "length (sy_text sy @ hdr @ '': '' @ text @ crlf) < SY_BUFSZ \<longrightarrow> sy_text s3 = sy_text sy @ hdr @ '': '' @ text @ crlf"
      using 1(4) 2(4) 3(4) by simp
  qed
qed

lemma synth_set_body_ok:
  assumes "synth_ok sy"
  obtains sy' where "synth_set_body sy body = Inr sy'" "synth_ok sy'" "prefix (sy_text sy) (sy_text sy')"
    "\<forall>b. body = Some b \<longrightarrow> length (sy_text sy @ ''Content-Length: '' @ print_nat (length b) @ crlf @ crlf @ b) < SY_BUFSZ \<longrightarrow>
       sy_text sy' = sy_text sy @ ''Content-Length: '' @ print_nat (length b) @ crlf @ crlf @ b"
    "body = None \<longrightarrow> length (sy_text sy @ ''Content-Length: 0'' @ crlf) < SY_BUFSZ \<longrightarrow>
       sy_text sy' = sy_text sy @ ''Content-Length: 0'' @ crlf"
proof (cases body)
  case None
  obtain s1 where "sy_vprintf sy (''Content-Length: 0'' @ crlf) = Inr s1" "synth_ok s1" "prefix (sy_text sy) (sy_text s1)"
    "length (sy_text sy) + length (''Content-Length: 0'' @ crlf) < SY_BUFSZ \<longrightarrow> sy_text s1 = sy_text sy @ ''Content-Length: 0'' @ crlf"
    by (rule sy_vprintf_ok [OF assms, of "''Content-Length: 0'' @ crlf"])
  with None show thesis by (intro that [of s1]) (simp_all add: synth_set_body_def)
next
  case (Some b)
  let ?l = "''Content-Length: '' @ print_nat (length b) @ crlf"
  obtain s1 where 1: "sy_vprintf sy ?l = Inr s1" "synth_ok s1" "prefix (sy_text sy) (sy_text s1)"
    "length (sy_text sy) + length ?l < SY_BUFSZ \<longrightarrow> sy_text s1 = sy_text sy @ ?l"
    by (rule sy_vprintf_ok [OF assms, of "?l"])
  obtain s2 where 2: "sy_vprintf s1 (crlf @ b) = Inr s2" "synth_ok s2" "prefix (sy_text s1) (sy_text s2)"
    "length (sy_text s1) + length (crlf @ b) < SY_BUFSZ \<longrightarrow> sy_text s2 = sy_text s1 @ crlf @ b"
    by (rule sy_vprintf_ok [OF 1(2), of "crlf @ b"])
  have fits: "sy_text s2 = sy_text sy @ ?l @ crlf @ b" if "length (sy_text sy @ ?l @ crlf @ b) < SY_BUFSZ"
    using that 1(4) 2(4) by simp
  show thesis
  proof (rule that [of s2])
    show "synth_set_body sy body = Inr s2" using Some 1(1) 2(1) by (simp add: synth_set_body_def)
    show "prefix (sy_text sy) (sy_text s2)" using 1(3) 2(3) by (rule prefix_order.trans)
  qed (use Some 2(2) fits in auto)
qed

text \<open>A response as \<^verbatim>\<open>handle_remap\<close> makes it, with one header field.\<close>

definition synth_response :: "int \<Rightarrow> string \<Rightarrow> string \<Rightarrow> string \<Rightarrow> string option \<Rightarrow> synth_t res" where
  "synth_response status reason hdr text body =
     res_bind (synth_new status reason) (\<lambda>sy. res_bind (synth_add_header sy hdr text) (\<lambda>sy. synth_set_body sy body))"

definition synth_head :: "int \<Rightarrow> string \<Rightarrow> string \<Rightarrow> string \<Rightarrow> string" where
  "synth_head status reason hdr text =
     ''HTTP/1.1 '' @ print_int status @ '' '' @ reason @ crlf @ hdr @ '': '' @ text @ crlf"

lemma synth_response_ok:
  obtains sy where "synth_response status reason hdr text body = Inr sy" "synth_ok sy"
    "\<forall>b. body = Some b \<longrightarrow>
       length (synth_head status reason hdr text @ ''Content-Length: '' @ print_nat (length b) @ crlf @ crlf @ b) < SY_BUFSZ \<longrightarrow>
       sy_text sy = synth_head status reason hdr text @ ''Content-Length: '' @ print_nat (length b) @ crlf @ crlf @ b"
    "body = None \<longrightarrow> length (synth_head status reason hdr text @ ''Content-Length: 0'' @ crlf) < SY_BUFSZ \<longrightarrow>
       sy_text sy = synth_head status reason hdr text @ ''Content-Length: 0'' @ crlf"
proof -
  obtain s0 where 0: "synth_new status reason = Inr s0" "synth_ok s0"
    "length (''HTTP/1.1 '' @ print_int status @ '' '' @ reason @ crlf) < SY_BUFSZ \<longrightarrow>
     sy_text s0 = ''HTTP/1.1 '' @ print_int status @ '' '' @ reason @ crlf" by (rule synth_new_ok)
  obtain s1 where 1: "synth_add_header s0 hdr text = Inr s1" "synth_ok s1" "prefix (sy_text s0) (sy_text s1)"
    "length (sy_text s0 @ hdr @ '': '' @ text @ crlf) < SY_BUFSZ \<longrightarrow> sy_text s1 = sy_text s0 @ hdr @ '': '' @ text @ crlf"
    by (rule synth_add_header_ok [OF 0(2)])
  have head: "sy_text s1 = synth_head status reason hdr text" if "length (synth_head status reason hdr text) < SY_BUFSZ"
    using that 0(3) 1(4) by (simp add: synth_head_def)
  obtain s2 where 2: "synth_set_body s1 body = Inr s2" "synth_ok s2"
    "\<forall>b. body = Some b \<longrightarrow> length (sy_text s1 @ ''Content-Length: '' @ print_nat (length b) @ crlf @ crlf @ b) < SY_BUFSZ \<longrightarrow>
       sy_text s2 = sy_text s1 @ ''Content-Length: '' @ print_nat (length b) @ crlf @ crlf @ b"
    "body = None \<longrightarrow> length (sy_text s1 @ ''Content-Length: 0'' @ crlf) < SY_BUFSZ \<longrightarrow>
       sy_text s2 = sy_text s1 @ ''Content-Length: 0'' @ crlf"
    by (rule synth_set_body_ok [OF 1(2)])
  show thesis
  proof (rule that [of s2])
    show "synth_response status reason hdr text body = Inr s2" using 0(1) 1(1) 2(1) by (simp add: synth_response_def)
  qed (use 2(2-4) head in auto)
qed

text \<open>Does a response have the empty line that ends its header?\<close>

fun ends_header :: "string \<Rightarrow> bool" where
  "ends_header [] = False"
| "ends_header (c # s) = (take 4 (c # s) = crlf @ crlf \<or> ends_header s)"

lemma ends_header_skip: "CHR 0x0D \<notin> set a \<Longrightarrow> ends_header (a @ s) = ends_header s"
  by (induction a) (auto simp: crlf_def)

lemma ends_header_line: "s = [] \<or> hd s \<noteq> CHR 0x0D \<Longrightarrow> ends_header (crlf @ s) = ends_header s"
  by (cases s) (auto simp: crlf_def)

lemma ends_header_suffix: "ends_header s \<Longrightarrow> ends_header (a @ s)"
  by (induction a) auto

lemma print_int_no_CR: "CHR 0x0D \<notin> set (print_int i)"
proof -
  have "CHR 0x0D \<notin> set (print_nat n)" for n using print_nat_digits [of "CHR 0x0D" n] by (auto simp: isdigit_def)
  then show ?thesis by (simp add: print_int_def)
qed

declare ends_header.simps [simp del]

lemma synth_head_open:
  assumes "CHR 0x0D \<notin> set (reason @ hdr @ text)" and "hdr \<noteq> []"
  shows "\<not> ends_header (synth_head status reason hdr text @ ''Content-Length: 0'' @ crlf)"
proof -
  let ?len = "''Content-Length: 0'' @ crlf" and ?a = "''HTTP/1.1 '' @ print_int status @ '' '' @ reason" and ?b = "hdr @ '': '' @ text"
  have a: "CHR 0x0D \<notin> set ?a" and b: "CHR 0x0D \<notin> set ?b" using assms(1) print_int_no_CR by simp_all
  have hd: "hd (?b @ crlf @ ?len) \<noteq> CHR 0x0D" using b assms(2) by (cases hdr) auto
  have len: "\<not> ends_header ?len" by (simp add: crlf_def ends_header.simps)
  have "ends_header (?a @ crlf @ ?b @ crlf @ ?len) = ends_header (crlf @ ?b @ crlf @ ?len)" by (rule ends_header_skip [OF a])
  also have "\<dots> = ends_header (?b @ crlf @ ?len)" by (rule ends_header_line) (use hd in blast)
  also have "\<dots> = ends_header (crlf @ ?len)" by (rule ends_header_skip [OF b])
  also have "\<dots> = ends_header ?len" by (rule ends_header_line) simp
  finally show ?thesis using len by (simp add: synth_head_def)
qed

subsection \<open>Properties\<close>

text \<open>C36: The response buffer is never overrun: however long the texts are, every function that prints into the buffer
  of a response stays within its 16384 bytes, leaves the position within them, and changes no byte that was printed before.\<close>

theorem synth_never_overruns:
  shows "(\<exists>sy0. synth_new status reason = Inr sy0 \<and> synth_ok sy0)
    \<and> (synth_ok sy \<longrightarrow>
        (\<exists>sy1. synth_add_header sy hdr text = Inr sy1 \<and> synth_ok sy1 \<and> prefix (sy_text sy) (sy_text sy1))
      \<and> (\<exists>sy2. synth_set_body sy body = Inr sy2 \<and> synth_ok sy2 \<and> prefix (sy_text sy) (sy_text sy2)))"
  by (meson synth_new_ok synth_add_header_ok synth_set_body_ok)

theorem synth_never_overruns_witness:
  "\<exists>sy. synth_new 200 (replicate 20000 CHR ''x'') = Inr sy \<and> synth_ok sy
    \<and> (\<exists>sy1. synth_add_header sy ''Location'' (replicate 20000 CHR ''y'') = Inr sy1 \<and> synth_ok sy1)"
  using synth_never_overruns [of 200 "replicate 20000 CHR ''x''" _ "''Location''" "replicate 20000 CHR ''y''"] by blast

text \<open>C32: A response that fits the buffer and has a body is complete: status line, header field, the exact
  length of the body, an empty line and the body.  A response without a body (the health check and the answer to a CORS
  preflight) lacks the empty line, so its header is never terminated.\<close>

theorem synth_response_complete:
  assumes "length (synth_head status reason hdr text) + length (''Content-Length: '' @ print_nat (length b)) + length b + 4 < SY_BUFSZ"
    and "CHR 0x0D \<notin> set (reason @ hdr @ text)" and "hdr \<noteq> []"
  shows "(\<exists>sy. synth_response status reason hdr text (Some b) = Inr sy
      \<and> sy_text sy = synth_head status reason hdr text @ ''Content-Length: '' @ print_nat (length b) @ crlf @ crlf @ b
      \<and> ends_header (sy_text sy))
    \<and> (\<exists>sy. synth_response status reason hdr text None = Inr sy \<and> \<not> ends_header (sy_text sy))"
proof -
  let ?head = "synth_head status reason hdr text"
  let ?all = "?head @ ''Content-Length: '' @ print_nat (length b) @ crlf @ crlf @ b"
  have "0 < length (print_nat (length b))" using print_nat_not_Nil by simp
  then have short: "length (?head @ ''Content-Length: 0'' @ crlf) < SY_BUFSZ" using assms(1) by (simp add: crlf_def)
  have long: "length ?all < SY_BUFSZ" using assms(1) by (simp add: crlf_def)
  have "ends_header (crlf @ crlf @ b)" by (simp add: crlf_def ends_header.simps)
  then have "ends_header ?all"
    using ends_header_suffix [of "crlf @ crlf @ b" "?head @ ''Content-Length: '' @ print_nat (length b)"] by simp
  moreover obtain s1 where "synth_response status reason hdr text (Some b) = Inr s1" "sy_text s1 = ?all"
    by (rule synth_response_ok [of status reason hdr "text" "Some b"]) (use long in blast)
  moreover obtain s2 where "synth_response status reason hdr text None = Inr s2" "sy_text s2 = ?head @ ''Content-Length: 0'' @ crlf"
    by (rule synth_response_ok [of status reason hdr "text" None]) (use short in blast)
  moreover have "\<not> ends_header (?head @ ''Content-Length: 0'' @ crlf)"
    by (rule synth_head_open [OF assms(2,3)])
  ultimately show ?thesis by auto
qed

theorem synth_response_complete_witness:
  "\<exists>sy. synth_response 200 ''OK'' ''Content-Type'' ''text/plain;charset=UTF-8'' None = Inr sy \<and> \<not> ends_header (sy_text sy)"
proof -
  have "length (print_int 200) \<le> 3" by (simp add: print_int_def print_nat.simps)
  then show ?thesis
    using synth_response_complete [of 200 "''OK''" "''Content-Type''" "''text/plain;charset=UTF-8''" "[]"]
    by (simp add: synth_head_def crlf_def SY_BUFSZ_def print_nat.simps)
qed

end
