(* ===== verification/Tls.thy ===== *)
theory Tls
  imports Remap_Build
begin

text \<open>
  The SNI hook (\<^verbatim>\<open>tsapi/tls.c\<close>): it picks the certificate of the host that a TLS client asks for.

  OpenSSL and Traffic Server appear through what they tell the hook (the server name, \<^verbatim>\<open>SSL_get_version\<close>) and the
  calls that it makes, in order.
\<close>

datatype 'c tls_call = SSL_set_SSL_CTX 'c | TSRegisterProtocolSet | TSVConnReenable

text \<open>The switch over the minimum version, whose cases fall through.\<close>

definition refused_1_0 :: "string \<Rightarrow> bool" where
  "refused_1_0 version \<longleftrightarrow> version = ''SSLv3''"

definition refused_1_1 :: "string \<Rightarrow> bool" where
  "refused_1_1 version \<longleftrightarrow> version = ''TLSv1'' \<or> refused_1_0 version"

definition refused_1_2 :: "string \<Rightarrow> bool" where
  "refused_1_2 version \<longleftrightarrow> version = ''TLSv1.1'' \<or> refused_1_1 version"

definition version_refused :: "int \<Rightarrow> string \<Rightarrow> bool" where
  "version_refused minimum version \<longleftrightarrow>
     (if minimum = IN_TLS_VERSION_1_2_VALUE then refused_1_2 version
      else if minimum = IN_TLS_VERSION_1_1_VALUE then refused_1_1 version
      else if minimum = IN_TLS_VERSION_1_0_VALUE then refused_1_0 version
      else False)"

definition handle_tls :: "'c remap_db_t option \<Rightarrow> string option \<Rightarrow> string \<Rightarrow> 'c tls_call list" where
  "handle_tls db servername version =
     (case servername of
        None \<Rightarrow> []
      | Some host \<Rightarrow>
          (case db of
             None \<Rightarrow> []
           | Some db \<Rightarrow>
               (case remap_db_get_host db host of
                  None \<Rightarrow> []
                | Some rh \<Rightarrow>
                    (case rh_ctx rh of
                       None \<Rightarrow> []
                     | Some ctx \<Rightarrow>
                         if version_refused (rh_tls_version rh) version then []
                         else SSL_set_SSL_CTX ctx # (if rh_http2 rh then [] else [TSRegisterProtocolSet])))
               @ [TSVConnReenable]))"

subsection \<open>Properties\<close>

text \<open>The order of the protocol versions, and what a host demands.  A value that is no known version demands nothing.\<close>

definition tls_level :: "string \<Rightarrow> nat option" where
  "tls_level = map_of [(''SSLv3'', 0), (''TLSv1'', 1), (''TLSv1.1'', 2), (''TLSv1.2'', 3), (''TLSv1.3'', 4)]"

definition min_level :: "int \<Rightarrow> nat" where
  "min_level v =
     (if v = IN_TLS_VERSION_1_0_VALUE then 1
      else if v = IN_TLS_VERSION_1_1_VALUE then 2
      else if v = IN_TLS_VERSION_1_2_VALUE then 3 else 0)"

lemma version_refused_level:
  assumes "tls_level version = Some l"
  shows "version_refused v version \<longleftrightarrow> l < min_level v"
proof -
  have "(version, l) \<in> set [(''SSLv3'', 0), (''TLSv1'', 1), (''TLSv1.1'', 2), (''TLSv1.2'', 3), (''TLSv1.3'', 4)]"
    using assms unfolding tls_level_def by (rule map_of_SomeD)
  then consider "version = ''SSLv3''" "l = 0" | "version = ''TLSv1''" "l = 1" | "version = ''TLSv1.1''" "l = 2"
    | "version = ''TLSv1.2''" "l = 3" | "version = ''TLSv1.3''" "l = 4"
    by auto
  then show ?thesis
    by cases (simp_all add: version_refused_def min_level_def refused_1_0_def refused_1_1_def refused_1_2_def
        IN_TLS_VERSION_1_0_VALUE_def IN_TLS_VERSION_1_1_VALUE_def IN_TLS_VERSION_1_2_VALUE_def)
qed

text \<open>C14: The SNI hook attaches a certificate exactly if the host is in the database, the certificate is the one
  of this host, and the protocol of the connection is at least the minimum version of the host; HTTP/2 is then
  switched off exactly for the hosts that do not allow it.\<close>

theorem tls_minimum_enforced:
  assumes "tls_level version = Some l"
  shows "(SSL_set_SSL_CTX ctx \<in> set (handle_tls (Some db) (Some host) version) \<longleftrightarrow>
      (\<exists>rh. remap_db_get_host db host = Some rh \<and> rh_ctx rh = Some ctx \<and> min_level (rh_tls_version rh) \<le> l))
    \<and> (TSRegisterProtocolSet \<in> set (handle_tls (Some db) (Some host) version) \<longleftrightarrow>
      (\<exists>rh. remap_db_get_host db host = Some rh \<and> rh_ctx rh \<noteq> None \<and> min_level (rh_tls_version rh) \<le> l \<and> \<not> rh_http2 rh))"
proof (cases "remap_db_get_host db host")
  case None
  then show ?thesis by (simp add: handle_tls_def)
next
  case (Some rh)
  then show ?thesis
    by (cases "rh_ctx rh") (auto simp: handle_tls_def version_refused_level [OF assms] not_less)
qed

theorem tls_minimum_enforced_witness:
  "SSL_set_SSL_CTX () \<notin> set (handle_tls (Some ((example_db example_path)\<lparr>rd_hosts := hash_set (hash_new 4093 True) ''www.example.com''
      ((example_host example_path)\<lparr>rh_ctx := Some (), rh_tls_version := IN_TLS_VERSION_1_2_VALUE\<rparr>)\<rparr>)) (Some ''www.example.com'') ''TLSv1.1'')"
  using tls_minimum_enforced [of "''TLSv1.1''" 2 "()" "(example_db example_path)\<lparr>rd_hosts := hash_set (hash_new 4093 True) ''www.example.com''
      ((example_host example_path)\<lparr>rh_ctx := Some (), rh_tls_version := IN_TLS_VERSION_1_2_VALUE\<rparr>)\<rparr>" "''www.example.com''"]
  by (simp add: tls_level_def remap_db_get_host_def min_level_def
      IN_TLS_VERSION_1_0_VALUE_def IN_TLS_VERSION_1_1_VALUE_def IN_TLS_VERSION_1_2_VALUE_def)

text \<open>
  A minimum version in the configuration has no effect on a host whose paths are all explicit: its certificate is used for
  every protocol version.
\<close>

theorem explicit_paths_accept_all_versions:
  assumes "remap_db_from_cluster E cfg cs = Inr (db, cs')" and "all_paths_explicit cfg cs host"
    and "remap_db_get_host db host = Some rh" and "rh_ctx rh = Some ctx"
  shows "SSL_set_SSL_CTX ctx \<in> set (handle_tls (Some db) (Some host) version)"
proof -
  have "rh_tls_version rh = 0" using built_db_explicit [OF assms(1)] assms(2,3) unfolding unset_host_def by blast
  with assms(3,4) show ?thesis
    by (simp add: handle_tls_def version_refused_def IN_TLS_VERSION_1_0_VALUE_def IN_TLS_VERSION_1_1_VALUE_def IN_TLS_VERSION_1_2_VALUE_def)
qed

text \<open>
  An annotation \<^verbatim>\<open>tls-minimum-version\<close> that is misspelt is worse than none: it replaces the configured minimum
  by 0, which refuses nothing.
\<close>

theorem misspelt_version_refuses_nothing:
  assumes "hash_get ann IN_TLS_MINIMUM_VERSION = Some v" and "v \<notin> {''1.0'', ''1.1'', ''1.2''}"
  shows "\<not> version_refused (rh_tls_version (remap_host_annotate (remap_host_new regcomp) cc ann)) version"
  using assms by (simp add: remap_host_annotate_def tls_version_of_def remap_host_new_eq version_refused_def
      IN_TLS_VERSION_1_0_VALUE_def IN_TLS_VERSION_1_1_VALUE_def IN_TLS_VERSION_1_2_VALUE_def)

text \<open>
  Every call of the hook ends with the connection enabled again, except when there is no server name or no database yet.
\<close>

theorem tls_reenabled: "TSVConnReenable \<in> set (handle_tls db servername version) \<longleftrightarrow> servername \<noteq> None \<and> db \<noteq> None"
  by (auto simp: handle_tls_def split: option.splits)

end
