(* ===== verification/Compress.thy ===== *)
theory Compress
  imports Remap_Db
begin

text \<open>
  The decisions of response compression (\<^verbatim>\<open>tsapi/compress.c\<close>): which coding a client accepts, which responses are
  compressed, and the header fields that say so.  The encoders (zlib and brotli) and the buffers of Traffic Server are not
  modelled.
\<close>

datatype comp_type = COMP_NONE | COMP_GZIP | COMP_DEFLATE | COMP_BROTLI

record comp_state_t =
  cs_type :: comp_type
  cs_types :: "unit hash"

text \<open>The codings a client lists: the name alone or followed by parameters, whatever they are.\<close>

definition accepts :: "string \<Rightarrow> string \<Rightarrow> bool" where
  "accepts coding v \<longleftrightarrow> v = coding \<or> length coding \<le> length v \<and> take (length coding + 1) v = coding @ '';''"

definition request_can_compress :: "string list option \<Rightarrow> comp_type" where
  "request_can_compress aenc =
     (case aenc of
        None \<Rightarrow> COMP_NONE
      | Some vs \<Rightarrow>
          if list_ex (accepts ''br'') (rev vs) then COMP_BROTLI
          else if list_ex (accepts ''gzip'') (rev vs) then COMP_GZIP
          else if list_ex (accepts ''deflate'') (rev vs) then COMP_DEFLATE
          else COMP_NONE)"

text \<open>What is looked at in a response: whether it has a Content-Encoding, and the values of its Content-Type.\<close>

record response =
  rs_content_encoding :: bool
  rs_content_type :: "string list option"
  rs_vary :: bool

definition response_can_compress :: "comp_state_t \<Rightarrow> response \<Rightarrow> bool" where
  "response_can_compress cs resp =
     (if rs_content_encoding resp then False
      else case rs_content_type resp of
        None \<Rightarrow> False
      | Some [] \<Rightarrow> False
      | Some (v # _) \<Rightarrow> hash_get (cs_types cs) (cstr (takeWhile (\<lambda>c. c \<noteq> CHR '';'') v)) \<noteq> None)"

definition tsi_compress :: "remap_path_t \<Rightarrow> string list option \<Rightarrow> comp_state_t option" where
  "tsi_compress rp aenc =
     (case request_can_compress aenc of
        COMP_NONE \<Rightarrow> None
      | ty \<Rightarrow> Some \<lparr>cs_type = ty,
          cs_types = fold (\<lambda>(k, _) h. hash_setn h k (length k) ()) (hash_foreach (rp_compress_types rp)) (hash_new 127 False)\<rparr>)"

text \<open>The Content-Encoding of a transformed response; None when there is no coding.\<close>

definition comp_set_content_encoding :: "comp_state_t option \<Rightarrow> string option res" where
  "comp_set_content_encoding cs =
     res_bind (deref cs) (\<lambda>cs. Inr (case cs_type cs of
       COMP_NONE \<Rightarrow> None | COMP_GZIP \<Rightarrow> Some ''gzip'' | COMP_DEFLATE \<Rightarrow> Some ''deflate'' | COMP_BROTLI \<Rightarrow> Some ''br''))"

text \<open>The functions that \<^verbatim>\<open>compress_init\<close> installs for a coding.\<close>

datatype encoder = Gzip_Init | Deflate_Init | Br_Init | Gzip_Produce | Br_Produce | Gzip_Finish | Br_Finish | Gzip_Free | Br_Free

fun compress_init :: "comp_type \<Rightarrow> (encoder \<times> encoder \<times> encoder \<times> encoder) option" where
  "compress_init COMP_NONE = None"
| "compress_init COMP_GZIP = Some (Gzip_Init, Gzip_Produce, Gzip_Finish, Gzip_Free)"
| "compress_init COMP_DEFLATE = Some (Deflate_Init, Gzip_Produce, Gzip_Finish, Gzip_Free)"
| "compress_init COMP_BROTLI = Some (Br_Init, Br_Produce, Br_Finish, Br_Free)"

subsection \<open>Lemmas\<close>

lemma request_can_compress_accepted:
  assumes "request_can_compress aenc = cs_type cs" and "comp_set_content_encoding (Some cs) = Inr (Some coding)"
  shows "\<exists>vs v. aenc = Some vs \<and> v \<in> set vs \<and> accepts coding v"
  using assms
  by (auto simp: request_can_compress_def comp_set_content_encoding_def list_ex_iff split: option.splits if_splits)

lemma tsi_compress_Some:
  assumes "tsi_compress rp aenc = Some cs" and "hash_ok (rp_compress_types rp)"
  shows "request_can_compress aenc = cs_type cs \<and> cs_type cs \<noteq> COMP_NONE
    \<and> (\<forall>k. hash_get (cs_types cs) k \<noteq> None \<longleftrightarrow> hash_get (rp_compress_types rp) k \<noteq> None)"
proof -
  let ?ts = "fold (\<lambda>(k, _) h. hash_setn h k (length k) ()) (hash_foreach (rp_compress_types rp)) (hash_new 127 False)"
  have "?ts = fold (\<lambda>k h. hash_set h k ()) (map fst (hash_foreach (rp_compress_types rp))) (hash_new 127 False)"
    by (simp add: hash_set_def case_prod_unfold fold_map o_def)
  then have "hash_get ?ts k = Some () \<longleftrightarrow> k \<in> fst ` set (hash_foreach (rp_compress_types rp))" for k
    by (simp only: hash_set_of_list zero_less_numeral set_map)
  moreover have "k \<in> fst ` set (hash_foreach (rp_compress_types rp)) \<longleftrightarrow> hash_get (rp_compress_types rp) k \<noteq> None" for k
    using hash_get_unit_foreach [OF assms(2), of k] by (force simp: image_iff)
  ultimately show ?thesis using assms(1) by (auto simp: tsi_compress_def split: comp_type.splits)
qed

subsection \<open>Properties\<close>

text \<open>C25: A response is only compressed if the client may decode it and it needs it: when a request
  gets a compression state and its response passes the check, the Content-Encoding that is set is one that the client listed in
  Accept-Encoding, the encoder installed is the one for it, the response had no encoding yet, and its media type is on the list of the path.\<close>

theorem compression_negotiated:
  assumes "tsi_compress rp aenc = Some cs" and "hash_ok (rp_compress_types rp)" and "response_can_compress cs resp"
  shows "\<exists>coding vs v ty rest init. comp_set_content_encoding (Some cs) = Inr (Some coding)
    \<and> aenc = Some vs \<and> v \<in> set vs \<and> accepts coding v
    \<and> compress_init (cs_type cs) = Some init
    \<and> (fst init = Gzip_Init \<longleftrightarrow> coding = ''gzip'') \<and> (fst init = Deflate_Init \<longleftrightarrow> coding = ''deflate'') \<and> (fst init = Br_Init \<longleftrightarrow> coding = ''br'')
    \<and> \<not> rs_content_encoding resp \<and> rs_content_type resp = Some (ty # rest)
    \<and> hash_get (rp_compress_types rp) (cstr (takeWhile (\<lambda>c. c \<noteq> CHR '';'') ty)) \<noteq> None"
proof -
  note t = tsi_compress_Some [OF assms(1,2)]
  then obtain coding init where c: "comp_set_content_encoding (Some cs) = Inr (Some coding)" "compress_init (cs_type cs) = Some init"
    "(fst init = Gzip_Init \<longleftrightarrow> coding = ''gzip'') \<and> (fst init = Deflate_Init \<longleftrightarrow> coding = ''deflate'') \<and> (fst init = Br_Init \<longleftrightarrow> coding = ''br'')"
    by (cases "cs_type cs") (auto simp: comp_set_content_encoding_def)
  moreover obtain vs v where "aenc = Some vs" "v \<in> set vs" "accepts coding v"
    using request_can_compress_accepted [of aenc cs coding] t c(1) by blast
  moreover obtain ty rest where "\<not> rs_content_encoding resp" "rs_content_type resp = Some (ty # rest)"
    "hash_get (cs_types cs) (cstr (takeWhile (\<lambda>c. c \<noteq> CHR '';'') ty)) \<noteq> None"
    using assms(3) by (auto simp: response_can_compress_def split: if_splits option.splits list.splits)
  ultimately show ?thesis using t by blast
qed

theorem compression_negotiated_witness:
  "\<exists>cs. tsi_compress remap_path_default (Some [''gzip'', ''br'']) = Some cs
    \<and> response_can_compress cs \<lparr>rs_content_encoding = False, rs_content_type = Some [''text/css; charset=utf-8''], rs_vary = False\<rparr>
    \<and> comp_set_content_encoding (Some cs) = Inr (Some ''br'')"
proof -
  let ?resp = "\<lparr>rs_content_encoding = False, rs_content_type = Some [''text/css; charset=utf-8''], rs_vary = False\<rparr>"
  have ok: "hash_ok (rp_compress_types remap_path_default)" by (simp add: remap_path_default_def token_set_ok)
  have br: "request_can_compress (Some [''gzip'', ''br'']) = COMP_BROTLI" by (simp add: request_can_compress_def accepts_def)
  then obtain cs where cs: "tsi_compress remap_path_default (Some [''gzip'', ''br'']) = Some cs" "cs_type cs = COMP_BROTLI"
    by (simp add: tsi_compress_def)
  have "hash_get (rp_compress_types remap_path_default) ''text/css'' = Some ()"
    by (simp add: remap_path_default_def default_compress_types_def)
  then have can: "response_can_compress cs ?resp"
    using tsi_compress_Some [OF cs(1) ok] by (simp add: response_can_compress_def cstr_def NUL_def)
  from compression_negotiated [OF cs(1) ok can] cs can show ?thesis by (auto simp: comp_set_content_encoding_def)
qed

text \<open>A coding that the client refuses with the quality 0 is used all the same.\<close>

theorem refused_coding_used: "request_can_compress (Some [''gzip;q=0'']) = COMP_GZIP"
  by (simp add: request_can_compress_def accepts_def)

end
