(* ===== verification/Plugin.thy ===== *)
theory Plugin
  imports Synth Watcher Tls Compress
begin

text \<open>
  The request hooks of the plugin (\<^verbatim>\<open>tsapi/remap.c\<close>): building a request from a transaction, running the routing
  on it, and configuring the transaction with the result.

  Traffic Server is not modelled.  What it tells the code about a transaction is the record \<open>txn\<close>, and what
  the code asks it to do is the list of calls, in order.  Releasing handles is left out.
\<close>

text \<open>\<open>tx_cookie\<close>: the first value of the Cookie field that \<^verbatim>\<open>TSMimeHdrFieldFind\<close> finds.
  \<open>tx_accept_encoding\<close>: the values of the Accept-Encoding field.
  \<open>tx_url_create\<close>, \<open>tx_cont_create\<close>: do \<^verbatim>\<open>TSUrlCreate\<close> and the \<^verbatim>\<open>TSContCreate\<close> for a host lookup return an object other than NULL?\<close>

record txn =
  tx_method :: string
  tx_scheme :: "string option"
  tx_host :: "string option"
  tx_path :: "string option"
  tx_query :: "string option"
  tx_addr :: "sockaddr option"
  tx_fields :: "(string \<times> string list) list"
  tx_has_host :: bool
  tx_has_xfp :: bool
  tx_cookie :: "string option"
  tx_accept_encoding :: "string list option"
  tx_tls :: bool
  tx_url_create :: bool
  tx_cont_create :: bool

text \<open>
  The server address of a transaction: an Internet address with its port, which has 16 bits, or the memory at the pointer that a
  finished host lookup hands over.
\<close>

datatype server_addr = Sockaddr_Inet "byte list" "16 word" | Lookup_Data "byte list"

datatype ts_call =
    TSHttpTxnHookAdd string
  | TSHttpTxnConfigIntSet string int
  | TSHttpTxnIntercept string
  | TSHttpHdrUrlSet "string option" "string option" "string option"
  | TSMimeHdrFieldRemove string
  | TSMimeHdrFieldAppend string "string list"
  | TSMimeHdrFieldAttach string
  | TSMimeHdrFieldValueSet string string
  | TSMimeHdrFieldValueInsert string string
  | TSCacheUrlSet string
  | TSSkipRemappingSet
  | TSHttpTxnServerAddrSet server_addr
  | TSHostLookup string
  | TSHttpTxnServerPush string bool
  | TSHttpTxnServerRespNoStoreSet
  | TSTransformCreate
  | TSContDestroy
  | Request_Ctx_Free
  | Debug_Log string
  | TSHttpTxnReenable

subsection \<open>The request\<close>

text \<open>The copy made by \<^verbatim>\<open>xstrndup\<close> is read as a C string afterwards.\<close>

definition xstrndup :: "string \<Rightarrow> string" where
  "xstrndup s = cstr s"

definition add_hdrfield :: "string \<times> string list \<Rightarrow> remap_hdrfield_t hash \<Rightarrow> remap_hdrfield_t hash" where
  "add_hdrfield field h =
     hash_set h (map tolower (xstrndup (fst field))) \<lparr>rh_values = map xstrndup (snd field)\<rparr>"

definition strip_port :: "string \<Rightarrow> string" where
  "strip_port host = (case strchr host CHR '':'' of None \<Rightarrow> host | Some n \<Rightarrow> take n host)"

definition request_from_txn :: "txn \<Rightarrow> remap_request_t" where
  "request_from_txn tx =
     \<lparr>rr_proto = map_option xstrndup (tx_scheme tx),
      rr_method = Some (xstrndup (tx_method tx)),
      rr_host = map_option (\<lambda>h. strip_port (xstrndup h)) (tx_host tx),
      rr_path = map_option xstrndup (tx_path tx),
      rr_query = map_option xstrndup (tx_query tx),
      rr_hdrfields = fold add_hdrfield (tx_fields tx) (hash_new 127 True),
      rr_addr = tx_addr tx\<rparr>"

subsection \<open>Cookies\<close>

definition should_ignore_cookie :: "remap_path_t \<Rightarrow> string \<Rightarrow> bool res" where
  "should_ignore_cookie rp cookie =
     (case strchr cookie CHR ''='' of
        None \<Rightarrow> Inr False
      | Some p \<Rightarrow>
          res_bind (deref (rp_ignore_cookies rp)) (\<lambda>ignore.
          res_bind (any_match cookie p (hash_foreach ignore)) (\<lambda>ignored.
          if ignored then Inr True
          else case rp_whitelist_cookies rp of
            None \<Rightarrow> Inr False
          | Some ps \<Rightarrow> res_bind (any_match cookie p (hash_foreach ps)) (\<lambda>listed. Inr (\<not> listed)))))"

fun kept_cookies :: "remap_path_t \<Rightarrow> string list \<Rightarrow> string \<Rightarrow> string res" where
  "kept_cookies rp [] newhdr = Inr newhdr"
| "kept_cookies rp (r # rs) newhdr =
     res_bind (should_ignore_cookie rp r) (\<lambda>ignore.
     kept_cookies rp rs (if ignore then newhdr else (if newhdr \<noteq> [] then newhdr @ ''; '' else newhdr) @ r))"

definition check_cookies :: "remap_path_t \<Rightarrow> string option \<Rightarrow> (bool \<times> ts_call list) res" where
  "check_cookies rp cookie =
     (case cookie of
        None \<Rightarrow> Inr (True, [])
      | Some cs \<Rightarrow>
          res_bind (kept_cookies rp (strtok_all '' ;'' (cstr cs)) []) (\<lambda>newhdr.
          Inr (if newhdr \<noteq> [] then (False, [TSMimeHdrFieldValueSet ''Cookie'' newhdr])
               else (True, [TSMimeHdrFieldRemove ''Cookie'']))))"

subsection \<open>Handling a request\<close>

text \<open>The state of a request; \<open>rq_compress_transform\<close> says whether the transform exists.\<close>

record request_ctx_t =
  rq_compress :: bool
  rq_comp_state :: "comp_state_t option"
  rq_compress_transform :: bool
  rq_server_push :: bool
  rq_cache_enabled :: bool
  rq_can_cache :: bool
  rq_debug_log :: bool
  rq_response_headers :: "string hash"

definition set_host_field :: "txn \<Rightarrow> string \<Rightarrow> ts_call list" where
  "set_host_field tx host =
     (if tx_has_host tx then [TSMimeHdrFieldRemove ''Host''] else []) @ [TSMimeHdrFieldAppend ''Host'' [host]]"

definition add_xfp :: "txn \<Rightarrow> ts_call list" where
  "add_xfp tx =
     (if tx_has_xfp tx then [TSMimeHdrFieldRemove ''X-Forwarded-Proto''] else [])
     @ [TSMimeHdrFieldAppend ''X-Forwarded-Proto'' [if tx_tls tx then ''https'' else ''http'']]"

definition url_from_remap_result :: "'c remap_result_t \<Rightarrow> ts_call" where
  "url_from_remap_result res = TSHttpHdrUrlSet (rz_proto res) (rz_urlpath res) (rz_query res)"

text \<open>The responses for the results that are no success; None: the request is left to others.\<close>

definition text_response :: "int \<Rightarrow> string \<Rightarrow> string option \<Rightarrow> ts_call list res" where
  "text_response status reason body =
     res_bind (synth_response status reason ''Content-Type'' ''text/plain;charset=UTF-8'' body) (\<lambda>sy.
     Inr [TSHttpTxnIntercept (sy_text sy)])"

definition remap_error :: "rr_code \<Rightarrow> 'c remap_result_t \<Rightarrow> ts_call list res" where
  "remap_error code res =
     (case code of
        RR_SYNTHETIC \<Rightarrow>
          res_bind (deref (rz_status_text res)) (\<lambda>reason. text_response (rz_status res) reason (rz_body res))
      | RR_ERR_INVALID_HOST \<Rightarrow> text_response 400 ''Bad request'' (Some (''The server could not undestand this request.'' @ crlf))
      | RR_ERR_INVALID_PROTOCOL \<Rightarrow> text_response 400 ''Bad request'' (Some (''The server could not undestand this request.'' @ crlf))
      | RR_ERR_NO_BACKEND \<Rightarrow> text_response 503 ''Service unavailable'' (Some (''No backend is available to service this request.'' @ crlf))
      | RR_ERR_FORBIDDEN \<Rightarrow> text_response 403 ''Forbidden'' (Some (''Access denied.'' @ crlf))
      | RR_ERR_UNAUTHORIZED \<Rightarrow> text_response 401 ''Unauthorized'' (Some (''Unauthorized.'' @ crlf))
      | _ \<Rightarrow> Inr [])"

text \<open>The settings of the transaction that come from the host and the path.\<close>

definition txn_settings :: "'c remap_host_t \<Rightarrow> remap_path_t \<Rightarrow> ts_call list" where
  "txn_settings rh rp =
     (if rp_follow_redirects rp
      then [TSHttpTxnConfigIntSet ''TS_CONFIG_HTTP_ENABLE_REDIRECTION'' 1,
            TSHttpTxnConfigIntSet ''TS_CONFIG_HTTP_REDIRECT_USE_ORIG_CACHE_KEY'' 1] else [])
     @ (if rh_hsts_max_age rh \<noteq> 0 then [TSHttpTxnConfigIntSet ''TS_CONFIG_SSL_HSTS_MAX_AGE'' (rh_hsts_max_age rh)] else [])
     @ [TSHttpTxnConfigIntSet ''TS_CONFIG_SSL_HSTS_INCLUDE_SUBDOMAINS'' (if rh_hsts_subdomains rh then 1 else 0)]
     @ (if rp_read_timeout rp \<noteq> 0
        then [TSHttpTxnConfigIntSet ''TS_CONFIG_HTTP_CONNECT_ATTEMPTS_TIMEOUT'' (rp_read_timeout rp),
              TSHttpTxnConfigIntSet ''TS_CONFIG_HTTP_POST_CONNECT_ATTEMPTS_TIMEOUT'' (rp_read_timeout rp)] else [])"

text \<open>Caching: the calls, and whether it is enabled and possible.\<close>

definition cache_setup ::
  "txn \<Rightarrow> remap_request_t \<Rightarrow> remap_path_t \<Rightarrow> 'c remap_result_t \<Rightarrow> (bool \<times> bool \<times> ts_call list) res" where
  "cache_setup tx req rp res =
     (if \<not> rp_cache rp then Inr (False, False, [])
      else res_bind (check_cookies rp (tx_cookie tx)) (\<lambda>(can_cache, calls).
        if \<not> can_cache then Inr (True, False, calls)
        else res_bind (remap_make_cache_key req res) (\<lambda>key.
          Inr (True, True, calls @ [TSHttpTxnConfigIntSet ''TS_CONFIG_HTTP_CACHE_GENERATION'' (rp_cache_gen rp),
            TSHttpTxnConfigIntSet ''TS_CONFIG_HTTP_CACHE_HTTP'' 1, TSCacheUrlSet key]))))"

text \<open>
  Sending the request to the backend: an address is passed on, a name is looked up first.  The port is an \<^verbatim>\<open>int\<close>; \<^verbatim>\<open>htons\<close> takes its
  low 16 bits.
\<close>

definition send_to_target :: "(string \<Rightarrow> byte list option) \<Rightarrow> bool \<Rightarrow> remap_target_t \<Rightarrow> ts_call list" where
  "send_to_target inet_pton4 cont_create t =
     (case inet_pton4 (rt_host t) of
        Some addr \<Rightarrow> [TSHttpTxnServerAddrSet (Sockaddr_Inet addr (word_of_int (rt_port t))), TSHttpTxnReenable]
      | None \<Rightarrow> if cont_create then [TSHostLookup (rt_host t)] else [TSHttpTxnReenable])"

definition remap_success ::
  "(string \<Rightarrow> byte list option) \<Rightarrow> k8s_config_t \<Rightarrow> txn \<Rightarrow> remap_request_t \<Rightarrow> 'c remap_result_t \<Rightarrow> request_ctx_t
    \<Rightarrow> (ts_call list \<times> request_ctx_t) res" where
  "remap_success inet_pton4 cfg tx req res rctx =
     (case (rz_host res, rz_path res) of
        (Some rh, Some rp) \<Rightarrow>
          if \<not> tx_url_create tx then Inr ([TSHttpTxnReenable], rctx)
          else
          res_bind (deref (rz_target res)) (\<lambda>t.
          res_bind (if rp_preserve_host rp then deref (rr_host req) else Inr (rt_host t)) (\<lambda>host.
          res_bind (cache_setup tx req rp res) (\<lambda>(cache_enabled, can_cache, cache_calls).
          Inr ([url_from_remap_result res]
               @ txn_settings rh rp
               @ set_host_field tx host
               @ (if co_xfp cfg then add_xfp tx else [])
               @ [TSHttpTxnConfigIntSet ''TS_CONFIG_HTTP_CACHE_HTTP'' 0]
               @ cache_calls
               @ [TSSkipRemappingSet]
               @ send_to_target inet_pton4 (tx_cont_create tx) t,
               rctx\<lparr>rq_server_push := rp_server_push rp, rq_cache_enabled := cache_enabled, rq_can_cache := can_cache,
                    rq_compress := rp_compress rp,
                    rq_comp_state := (if rp_compress rp then tsi_compress rp (tx_accept_encoding tx) else None)\<rparr>))))
      | _ \<Rightarrow> Inl Assert_Failed)"

definition txn_hooks :: "ts_call list" where
  "txn_hooks =
     [TSHttpTxnHookAdd ''TS_HTTP_SEND_REQUEST_HDR_HOOK'', TSHttpTxnHookAdd ''TS_HTTP_READ_RESPONSE_HDR_HOOK'',
      TSHttpTxnHookAdd ''TS_HTTP_CACHE_LOOKUP_COMPLETE_HOOK'', TSHttpTxnHookAdd ''TS_HTTP_SEND_RESPONSE_HDR_HOOK'',
      TSHttpTxnHookAdd ''TS_HTTP_TXN_CLOSE_HOOK'',
      TSHttpTxnConfigIntSet ''TS_CONFIG_HTTP_NORMALIZE_AE_GZIP'' 0, TSHttpTxnConfigIntSet ''TS_CONFIG_HTTP_INSERT_RESPONSE_VIA_STR'' 0,
      TSHttpTxnConfigIntSet ''TS_CONFIG_HTTP_INSERT_REQUEST_VIA_STR'' 1, TSHttpTxnConfigIntSet ''TS_CONFIG_HTTP_RESPONSE_SERVER_ENABLED'' 0]"

definition debug_request :: "'c remap_result_t \<Rightarrow> ts_call list" where
  "debug_request res =
     (case rz_path res of None \<Rightarrow> [] | Some rp \<Rightarrow> if rp_debug_log rp then [Debug_Log ''read_request_hdr''] else [])"

text \<open>The whole hook; without a database there is no request state.\<close>

definition handle_remap ::
  "regexec \<Rightarrow> (string \<Rightarrow> string \<Rightarrow> bool) \<Rightarrow> (string \<Rightarrow> byte list option) \<Rightarrow> nat \<Rightarrow> k8s_config_t \<Rightarrow> 'c remap_db_t option \<Rightarrow> txn
    \<Rightarrow> (ts_call list \<times> request_ctx_t option) res" where
  "handle_remap regexec crypt_check inet_pton4 rnd cfg db tx =
     (case db of
        None \<Rightarrow> Inr ([], None)
      | Some db \<Rightarrow>
          (let req = request_from_txn tx in
           res_bind (remap_run regexec crypt_check rnd db req) (\<lambda>(code, res).
           let rctx = \<lparr>rq_compress = False, rq_comp_state = None, rq_compress_transform = False, rq_server_push = False,
                       rq_cache_enabled = False, rq_can_cache = False,
                       rq_debug_log = (case rz_path res of None \<Rightarrow> False | Some rp \<Rightarrow> rp_debug_log rp),
                       rq_response_headers = rz_headers res\<rparr>
           in if code \<noteq> RR_OK
              then res_bind (remap_error code res) (\<lambda>calls. Inr (txn_hooks @ debug_request res @ calls @ [TSHttpTxnReenable], Some rctx))
              else res_bind (remap_success inet_pton4 cfg tx req res rctx) (\<lambda>(calls, rctx). Inr (txn_hooks @ debug_request res @ calls, Some rctx)))))"

text \<open>
  The end of the host lookup for an external name.  \<open>host_lookup\<close>: is the event \<^verbatim>\<open>TS_EVENT_HOST_LOOKUP\<close>?  \<open>data\<close> is the memory at the
  pointer that comes with it, or None if the name was not found; it is passed on as if it were a socket address.
\<close>

definition external_lookup :: "bool \<Rightarrow> byte list option \<Rightarrow> ts_call list res" where
  "external_lookup host_lookup data =
     (if \<not> host_lookup then Inl Assert_Failed
      else Inr ((case data of None \<Rightarrow> [] | Some d \<Rightarrow> [TSHttpTxnServerAddrSet (Lookup_Data d)]) @ [TSHttpTxnReenable, TSContDestroy]))"

subsection \<open>The events of a transaction\<close>

datatype tsi_event_t = CACHE_LOOKUP_COMPLETE | SEND_REQUEST_HDR | READ_RESPONSE_HDR | SEND_RESPONSE_HDR | TXN_CLOSE | OTHER_TXN_EVENT

text \<open>
  What Traffic Server tells about the transaction at an event: the responses it has (None: they cannot be fetched), the values of
  their Link fields, and which fields the response to the client has.
\<close>

record event_data =
  ev_hit_fresh :: bool
  ev_server_resp :: "response option"
  ev_cached_resp :: "response option"
  ev_links :: "string list"
  ev_set_cookie :: bool
  ev_has_aenc :: bool
  ev_has_via :: bool
  ev_has_server :: bool
  ev_next_hop :: "string list option"
  ev_has_cc :: bool
  ev_has_vary :: bool
  ev_has_status :: bool
  ev_protocol :: "string option"
  ev_cache_status :: int
  ev_cache_gen :: int
  ev_tls :: bool

text \<open>The tokens of a Link value: whether it must not be pushed, is a preload, and its last local URL.\<close>

definition link_token :: "string \<Rightarrow> bool \<times> bool \<times> string option \<Rightarrow> bool \<times> bool \<times> string option" where
  "link_token t st =
     (case st of (nopush, relpreload, url) \<Rightarrow>
      if t = ''nopush'' then (True, relpreload, url)
      else if t = ''rel=preload'' then (nopush, True, url)
      else if 3 \<le> length t \<and> t ! 0 = CHR ''<'' \<and> t ! 1 = CHR ''/'' \<and> t ! (length t - 1) = CHR ''>''
      then (nopush, relpreload, Some (take (length t - 3) (drop 2 t)))
      else st)"

definition link_push :: "string \<Rightarrow> string option" where
  "link_push value =
     (case fold link_token (strtok_all ''; '' (cstr value)) (False, False, None) of
        (nopush, relpreload, url) \<Rightarrow> if nopush \<or> \<not> relpreload then None else url)"

definition server_push :: "tsi_event_t \<Rightarrow> event_data \<Rightarrow> ts_call list" where
  "server_push event ev =
     (if (if event = READ_RESPONSE_HDR then ev_server_resp ev \<noteq> None else ev_hit_fresh ev \<and> ev_cached_resp ev \<noteq> None)
      then map (\<lambda>url. TSHttpTxnServerPush url (ev_tls ev)) (List.map_filter link_push (ev_links ev))
      else [])"

definition check_response_cache :: "event_data \<Rightarrow> ts_call list" where
  "check_response_cache ev =
     (if ev_server_resp ev \<noteq> None \<and> ev_set_cookie ev then [TSHttpTxnServerRespNoStoreSet] else [])"

text \<open>The check of a response that may be compressed.\<close>

definition comp_check_response :: "response option \<Rightarrow> request_ctx_t \<Rightarrow> (ts_call list \<times> request_ctx_t) res" where
  "comp_check_response resp rctx =
     (case resp of
        None \<Rightarrow> Inr ([], rctx)
      | Some r \<Rightarrow>
          res_bind (deref (rq_comp_state rctx)) (\<lambda>cs.
          Inr (if response_can_compress cs r
               then ([TSHttpTxnConfigIntSet ''TransformedRespCache'' 0, TSHttpTxnConfigIntSet ''UntransformedRespCache'' 1,
                      TSTransformCreate, TSHttpTxnHookAdd ''TS_HTTP_RESPONSE_TRANSFORM_HOOK''],
                     rctx\<lparr>rq_compress_transform := True\<rparr>)
               else ([], rctx))))"

definition comp_check_cached_response :: "event_data \<Rightarrow> request_ctx_t \<Rightarrow> (ts_call list \<times> request_ctx_t) res" where
  "comp_check_cached_response ev rctx =
     (if \<not> ev_hit_fresh ev then Inr ([], rctx) else comp_check_response (ev_cached_resp ev) rctx)"

definition comp_remove_aenc :: "event_data \<Rightarrow> ts_call list" where
  "comp_remove_aenc ev = (if ev_has_aenc ev then [TSMimeHdrFieldRemove ''Accept-Encoding''] else [])"

definition comp_set_compress_headers :: "event_data \<Rightarrow> ts_call list" where
  "comp_set_compress_headers ev =
     (if ev_has_vary ev then [TSMimeHdrFieldValueInsert ''Vary'' ''Accept-Encoding'']
      else [TSMimeHdrFieldAppend ''Vary'' [''Accept-Encoding'']])"

definition content_encoding_calls :: "request_ctx_t \<Rightarrow> ts_call list res" where
  "content_encoding_calls rctx =
     res_bind (comp_set_content_encoding (rq_comp_state rctx)) (\<lambda>c.
     Inr (case c of None \<Rightarrow> [] | Some coding \<Rightarrow> [TSMimeHdrFieldAppend ''Content-Encoding'' [coding]]))"

definition status_names :: "string list" where
  "status_names = [''miss'', ''hit-stale'', ''hit-fresh'', ''skipped'', ''unknown'']"

definition add_cache_status :: "event_data \<Rightarrow> ts_call list" where
  "add_cache_status ev =
     (let status = (if ev_cache_status ev < 0 \<or> 4 < ev_cache_status ev then 4 else ev_cache_status ev);
          buf = snprintf 64 (status_names ! nat status @ '' ('' @ print_int (ev_cache_gen ev) @ '')'')
      in if ev_has_status ev then [TSMimeHdrFieldValueInsert ''X-Cache-Status'' buf, TSMimeHdrFieldAttach ''X-Cache-Status'']
         else [TSMimeHdrFieldAppend ''X-Cache-Status'' [buf]])"

text \<open>The header of the response: the fields of the remap result, Via, Server, and the cache control for the next hop.\<close>

definition next_hop_calls :: "event_data \<Rightarrow> ts_call list" where
  "next_hop_calls ev =
     (case ev_next_hop ev of
        None \<Rightarrow> []
      | Some vs \<Rightarrow>
          (if ev_has_cc ev then [TSMimeHdrFieldRemove ''Cache-Control''] else [])
          @ [TSMimeHdrFieldAppend ''Cache-Control'' vs, TSMimeHdrFieldRemove ''X-Next-Hop-Cache-Control''])"

definition set_headers :: "string \<Rightarrow> string \<Rightarrow> event_data \<Rightarrow> request_ctx_t \<Rightarrow> ts_call list" where
  "set_headers myhostname via_name ev rctx =
     (let via = snprintf 256 ((case ev_protocol ev of None \<Rightarrow> ''http/1.0'' | Some p \<Rightarrow> p) @ '' '' @ myhostname @ '' ('' @ via_name @ '')'')
      in map (\<lambda>(h, v). TSMimeHdrFieldAppend h [v]) (hash_foreach (rq_response_headers rctx))
         @ [if ev_has_via ev then TSMimeHdrFieldValueInsert ''Via'' via else TSMimeHdrFieldAppend ''Via'' [via]]
         @ [if ev_has_server ev then TSMimeHdrFieldValueSet ''Server'' via_name else TSMimeHdrFieldAppend ''Server'' [via_name]]
         @ next_hop_calls ev)"

text \<open>The handler of all events after the request; None: the request state is freed.\<close>

definition tsi_event ::
  "string \<Rightarrow> string \<Rightarrow> tsi_event_t \<times> event_data \<Rightarrow> request_ctx_t \<Rightarrow> (ts_call list \<times> request_ctx_t option) res" where
  "tsi_event myhostname via_name evt rctx =
     (case evt of (event, ev) \<Rightarrow>
      (let log = (\<lambda>name. if rq_debug_log rctx then [Debug_Log name] else []);
           push = (if rq_server_push rctx then server_push event ev else [])
       in case event of
         CACHE_LOOKUP_COMPLETE \<Rightarrow>
           res_bind (if rq_comp_state rctx \<noteq> None then comp_check_cached_response ev rctx else Inr ([], rctx)) (\<lambda>(calls, rctx).
           Inr (log ''cache_lookup_complete'' @ push @ calls @ [TSHttpTxnReenable], Some rctx))
       | SEND_REQUEST_HDR \<Rightarrow>
           Inr ((if rq_compress rctx then comp_remove_aenc ev else []) @ log ''send_request_hdr'' @ [TSHttpTxnReenable], Some rctx)
       | READ_RESPONSE_HDR \<Rightarrow>
           res_bind (if rq_comp_state rctx \<noteq> None then comp_check_response (ev_server_resp ev) rctx else Inr ([], rctx)) (\<lambda>(calls, rctx').
           Inr (log ''read_response_hdr'' @ (if rq_can_cache rctx then check_response_cache ev else []) @ push @ calls
             @ [TSHttpTxnReenable], Some rctx'))
       | SEND_RESPONSE_HDR \<Rightarrow>
           res_bind (if rq_compress_transform rctx then content_encoding_calls rctx else Inr []) (\<lambda>calls.
           Inr (set_headers myhostname via_name ev rctx
             @ (if rq_compress rctx then comp_set_compress_headers ev else [])
             @ calls
             @ (if rq_cache_enabled rctx then add_cache_status ev else [])
             @ log ''send_response_hdr'' @ [TSHttpTxnReenable], Some rctx))
       | TXN_CLOSE \<Rightarrow>
           Inr ((if rq_compress_transform rctx then [TSContDestroy] else []) @ [Request_Ctx_Free, TSContDestroy, TSHttpTxnReenable], None)
       | OTHER_TXN_EVENT \<Rightarrow> Inl Assert_Failed))"

subsection \<open>Publishing a new database\<close>

record 'c state =
  st_config :: k8s_config_t
  st_cluster :: cluster_t
  st_db :: "'c remap_db_t option"

definition rebuild_maps :: "('c, 'x, 'k) ext_ops \<Rightarrow> 'c state \<Rightarrow> 'c state res" where
  "rebuild_maps E st =
     res_bind (remap_db_from_cluster E (st_config st) (st_cluster st)) (\<lambda>(db, cs).
     Inr (st\<lparr>st_cluster := cs, st_db := Some db\<rparr>))"


subsection \<open>Lemmas on cookies\<close>

definition cookies_ok :: "remap_path_t \<Rightarrow> bool" where
  "cookies_ok rp \<longleftrightarrow> rp_ignore_cookies rp \<noteq> None \<and> patterns_ok (rp_ignore_cookies rp) \<and> patterns_ok (rp_whitelist_cookies rp)"

text \<open>
  The rule of \<^verbatim>\<open>docs/caching.md\<close> for the name of a cookie: it is permitted if it is not on the ignore list and, where there is
  a whitelist, is on that.  The code applies the rule only to a cookie with a \<^verbatim>\<open>=\<close>; one without is always kept.
\<close>

definition cookie_permitted :: "remap_path_t \<Rightarrow> string \<Rightarrow> bool" where
  "cookie_permitted rp name \<longleftrightarrow>
     (\<forall>ps. rp_ignore_cookies rp = Some ps \<longrightarrow> \<not> some_pattern ps name)
     \<and> (\<forall>ps. rp_whitelist_cookies rp = Some ps \<longrightarrow> some_pattern ps name)"

definition cookie_wanted :: "remap_path_t \<Rightarrow> string \<Rightarrow> bool" where
  "cookie_wanted rp c \<longleftrightarrow> CHR ''='' \<notin> set c \<or> cookie_permitted rp (param_name c)"

lemma should_ignore_cookie_eq:
  assumes "cookies_ok rp"
  shows "should_ignore_cookie rp c = Inr (\<not> cookie_wanted rp c)"
proof (cases "strchr c CHR ''=''")
  case None
  then have "CHR ''='' \<notin> set c" by simp
  with None show ?thesis by (simp add: should_ignore_cookie_def cookie_wanted_def del: strchr_None_iff)
next
  case (Some n)
  then have mem: "CHR ''='' \<in> set c" using strchr_None_iff [of c "CHR ''=''"] by fastforce
  from Some have n: "n = param_end c" by (simp add: param_end_def)
  obtain ps where ps: "rp_ignore_cookies rp = Some ps" "patterns_ok (Some ps)" using assms by (auto simp: cookies_ok_def)
  show ?thesis
    using assms Some mem ps any_match_table [OF ps(2), of c]
    by (cases "rp_whitelist_cookies rp")
      (simp_all add: should_ignore_cookie_def cookie_wanted_def cookie_permitted_def cookies_ok_def any_match_table n)
qed

text \<open>Appending cookies to a header line.\<close>

definition add_cookies :: "string \<Rightarrow> string list \<Rightarrow> string" where
  "add_cookies hdr cs = fold (\<lambda>c hdr. (if hdr \<noteq> [] then hdr @ ''; '' else hdr) @ c) cs hdr"

lemma kept_cookies_eq: "cookies_ok rp \<Longrightarrow> kept_cookies rp cs hdr = Inr (add_cookies hdr (filter (cookie_wanted rp) cs))"
  by (induction cs arbitrary: hdr) (auto simp: should_ignore_cookie_eq add_cookies_def)

lemma add_cookies_Nil_iff: "[] \<notin> set cs \<Longrightarrow> add_cookies hdr cs = [] \<longleftrightarrow> hdr = [] \<and> cs = []"
  by (induction cs arbitrary: hdr) (auto simp: add_cookies_def)

lemma check_cookies_eq:
  assumes "cookies_ok rp"
  shows "check_cookies rp cookie = Inr (case cookie of
      None \<Rightarrow> (True, [])
    | Some cs \<Rightarrow>
        (let kept = filter (cookie_wanted rp) (strtok_all '' ;'' (cstr cs))
         in if kept = [] then (True, [TSMimeHdrFieldRemove ''Cookie''])
            else (False, [TSMimeHdrFieldValueSet ''Cookie'' (add_cookies [] kept)])))"
proof (cases cookie)
  case (Some cs)
  have "[] \<notin> set (filter (cookie_wanted rp) (strtok_all '' ;'' (cstr cs)))"
    using strtok_all_tokens [of _ "'' ;''" "cstr cs"] by auto
  from add_cookies_Nil_iff [OF this, of "[]"] Some assms show ?thesis
    by (simp add: check_cookies_def kept_cookies_eq Let_def)
qed (simp add: check_cookies_def)

subsection \<open>Lemmas on the request hook\<close>

text \<open>The calls that decide where a transaction goes on.\<close>

fun flow :: "ts_call \<Rightarrow> bool" where
  "flow (TSHttpTxnServerAddrSet a) = True"
| "flow (TSHostLookup h) = True"
| "flow (TSHttpTxnIntercept r) = True"
| "flow TSHttpTxnReenable = True"
| "flow _ = False"

lemma flow_settings:
  "filter flow txn_hooks = []" "filter flow (debug_request res) = []" "filter flow (txn_settings rh rp) = []" "filter flow (set_host_field tx h) = []"
  "filter flow (add_xfp tx) = []" "\<not> flow (url_from_remap_result res)" "filter flow (send_to_target p4 c t) = send_to_target p4 c t"
  by (simp_all add: txn_hooks_def debug_request_def txn_settings_def set_host_field_def add_xfp_def url_from_remap_result_def send_to_target_def
      split: option.split)

text \<open>The port of a backend that is a name is not passed on.\<close>

lemma external_name_port_unused: "inet_pton4 (rt_host t) = None \<Longrightarrow> send_to_target inet_pton4 c (t\<lparr>rt_port := port\<rparr>) = send_to_target inet_pton4 c t"
  by (simp add: send_to_target_def)

lemma check_cookies_flow: "check_cookies rp cookie = Inr (can_cache, calls) \<Longrightarrow> filter flow calls = []"
  by (auto simp: check_cookies_def split: option.splits if_splits)

lemma cache_setup_flow:
  assumes "cache_setup tx req rp res = Inr (enabled, can_cache, calls)"
  shows "filter flow calls = []"
proof (cases "rp_cache rp")
  case True
  with assms obtain can calls' where c: "check_cookies rp (tx_cookie tx) = Inr (can, calls')"
    by (auto simp: cache_setup_def)
  from check_cookies_flow [OF this] assms True c show ?thesis by (cases can) (auto simp: cache_setup_def)
qed (use assms in \<open>simp add: cache_setup_def\<close>)

lemma remap_success_cases:
  assumes "remap_success p4 cfg tx req res rctx = Inr (calls, rctx')"
  obtains (no_url) "calls = [TSHttpTxnReenable]" "rctx' = rctx"
  | (url) rh rp t enabled can_cache cc where "rz_host res = Some rh" "rz_path res = Some rp" "rz_target res = Some t"
    "cache_setup tx req rp res = Inr (enabled, can_cache, cc)" "filter flow calls = send_to_target p4 (tx_cont_create tx) t"
    "rq_cache_enabled rctx' = enabled" "rq_can_cache rctx' = can_cache"
    "rq_comp_state rctx' = (if rp_compress rp then tsi_compress rp (tx_accept_encoding tx) else None)"
    "rq_compress_transform rctx' = rq_compress_transform rctx"
    "\<And>k v. TSHttpTxnConfigIntSet k v \<in> set cc \<Longrightarrow> TSHttpTxnConfigIntSet k v \<in> set calls"
    "TSHttpTxnConfigIntSet ''TS_CONFIG_HTTP_CACHE_HTTP'' 1 \<in> set calls \<Longrightarrow> TSHttpTxnConfigIntSet ''TS_CONFIG_HTTP_CACHE_HTTP'' 1 \<in> set cc"
proof (cases "tx_url_create tx")
  case False
  from assms have "calls = [TSHttpTxnReenable] \<and> rctx' = rctx"
    by (cases "rz_host res"; cases "rz_path res") (auto simp: remap_success_def False)
  then show thesis by (intro no_url) simp_all
next
  case True
  from assms obtain rh rp where hp: "rz_host res = Some rh" "rz_path res = Some rp"
    by (cases "rz_host res"; cases "rz_path res") (auto simp: remap_success_def)
  from assms obtain t where t: "rz_target res = Some t" by (cases "rz_target res") (auto simp: remap_success_def hp True)
  from assms obtain host where h: "(if rp_preserve_host rp then deref (rr_host req) else Inr (rt_host t)) = Inr host"
    by (auto simp: remap_success_def hp t True)
  from assms h obtain enabled can_cache cc where c: "cache_setup tx req rp res = Inr (enabled, can_cache, cc)"
    by (auto simp: remap_success_def hp t True split: if_splits)
  have calls: "calls = [url_from_remap_result res] @ txn_settings rh rp @ set_host_field tx host
      @ (if co_xfp cfg then add_xfp tx else []) @ [TSHttpTxnConfigIntSet ''TS_CONFIG_HTTP_CACHE_HTTP'' 0] @ cc
      @ [TSSkipRemappingSet] @ send_to_target p4 (tx_cont_create tx) t"
    and r: "rctx' = rctx\<lparr>rq_server_push := rp_server_push rp, rq_cache_enabled := enabled, rq_can_cache := can_cache,
      rq_compress := rp_compress rp, rq_comp_state := (if rp_compress rp then tsi_compress rp (tx_accept_encoding tx) else None)\<rparr>"
    using assms unfolding remap_success_def hp t by (simp_all add: h c True)
  have f: "filter flow calls = send_to_target p4 (tx_cont_create tx) t"
    unfolding calls using cache_setup_flow [OF c] by (simp add: flow_settings)
  have "TSHttpTxnConfigIntSet ''TS_CONFIG_HTTP_CACHE_HTTP'' 1 \<in> set cc"
    if "TSHttpTxnConfigIntSet ''TS_CONFIG_HTTP_CACHE_HTTP'' 1 \<in> set calls"
    using that unfolding calls
    by (auto simp: txn_settings_def set_host_field_def add_xfp_def url_from_remap_result_def send_to_target_def split: if_splits option.splits)
  with hp t c f r calls show thesis by (intro url [of rh rp t enabled can_cache cc]) simp_all
qed

lemma remap_error_flow:
  assumes "remap_error code res = Inr calls" and "code \<noteq> RR_OK"
  shows "filter (\<lambda>c. flow c \<and> (\<forall>r. c \<noteq> TSHttpTxnIntercept r)) calls = []"
  using assms by (cases code) (auto simp: remap_error_def text_response_def)

lemma handle_remap_cases:
  assumes "handle_remap regexec cc p4 rnd cfg (Some db) tx = Inr (calls, rctx)"
  obtains code res ec where "remap_run regexec cc rnd db (request_from_txn tx) = Inr (code, res)" "code \<noteq> RR_OK"
      "remap_error code res = Inr ec" "calls = txn_hooks @ debug_request res @ ec @ [TSHttpTxnReenable]"
  | res sc rctx0 rctx' where "remap_run regexec cc rnd db (request_from_txn tx) = Inr (RR_OK, res)"
      "remap_success p4 cfg tx (request_from_txn tx) res rctx0 = Inr (sc, rctx')" "calls = txn_hooks @ debug_request res @ sc" "rctx = Some rctx'"
      "\<not> rq_compress_transform rctx0" "\<not> rq_can_cache rctx0"
proof -
  from assms obtain code res where run: "remap_run regexec cc rnd db (request_from_txn tx) = Inr (code, res)"
    by (auto simp: handle_remap_def Let_def)
  show thesis
  proof (cases "code = RR_OK")
    case False
    with assms run that(1) show thesis by (auto simp: handle_remap_def Let_def)
  next
    case True
    with assms run that(2) show thesis by (auto simp: handle_remap_def Let_def)
  qed
qed

subsection \<open>Lemmas on the events\<close>

definition rctx_ok :: "request_ctx_t \<Rightarrow> bool" where
  "rctx_ok r \<longleftrightarrow> (rq_compress_transform r \<longrightarrow> rq_comp_state r \<noteq> None)"

text \<open>The calls that resume a transaction or free its state.\<close>

fun ends :: "ts_call \<Rightarrow> bool" where
  "ends TSHttpTxnReenable = True"
| "ends Request_Ctx_Free = True"
| "ends _ = False"

lemma ends_pieces:
  "filter ends (server_push event ev) = []" "filter ends (check_response_cache ev) = []" "filter ends (comp_remove_aenc ev) = []"
  "filter ends (comp_set_compress_headers ev) = []" "filter ends (add_cache_status ev) = []"
  "filter ends (set_headers h v ev rctx) = []"
  by (auto simp: server_push_def check_response_cache_def comp_remove_aenc_def comp_set_compress_headers_def
      add_cache_status_def set_headers_def next_hop_calls_def Let_def filter_empty_conv split: option.splits if_splits)

lemma comp_check_response_ok:
  assumes "rq_comp_state r \<noteq> None"
  shows "\<exists>calls r'. comp_check_response resp r = Inr (calls, r') \<and> filter ends calls = [] \<and> rctx_ok r'"
proof -
  obtain cs where "rq_comp_state r = Some cs" using assms by blast
  then show ?thesis by (cases resp; cases "response_can_compress cs (the resp)") (simp_all add: comp_check_response_def rctx_ok_def)
qed

lemma comp_check_cached_response_ok:
  assumes "rq_comp_state r \<noteq> None"
  shows "\<exists>calls r'. comp_check_cached_response ev r = Inr (calls, r') \<and> filter ends calls = [] \<and> rctx_ok r'"
  using assms comp_check_response_ok [OF assms] by (auto simp: comp_check_cached_response_def rctx_ok_def)

lemma content_encoding_calls_ok:
  assumes "rq_comp_state r \<noteq> None"
  shows "\<exists>calls. content_encoding_calls r = Inr calls \<and> filter ends calls = []"
proof -
  obtain cs where "rq_comp_state r = Some cs" using assms by blast
  then show ?thesis by (cases "cs_type cs") (simp_all add: content_encoding_calls_def comp_set_content_encoding_def)
qed

lemma tsi_event_step:
  assumes "rctx_ok r" and "event \<noteq> TXN_CLOSE" and "event \<noteq> OTHER_TXN_EVENT"
  shows "\<exists>calls r'. tsi_event h v (event, ev) r = Inr (calls, Some r') \<and> rctx_ok r' \<and> filter ends calls = [TSHttpTxnReenable]"
proof (cases event)
  case CACHE_LOOKUP_COMPLETE
  obtain calls r' where "(if rq_comp_state r \<noteq> None then comp_check_cached_response ev r else Inr ([], r)) = Inr (calls, r')"
    "filter ends calls = []" "rctx_ok r'"
    using comp_check_cached_response_ok [of r ev] assms(1) by (cases "rq_comp_state r") auto
  with CACHE_LOOKUP_COMPLETE show ?thesis by (simp add: tsi_event_def ends_pieces)
next
  case SEND_REQUEST_HDR
  with assms(1) show ?thesis by (simp add: tsi_event_def ends_pieces)
next
  case READ_RESPONSE_HDR
  obtain calls r' where "(if rq_comp_state r \<noteq> None then comp_check_response (ev_server_resp ev) r else Inr ([], r)) = Inr (calls, r')"
    "filter ends calls = []" "rctx_ok r'"
    using comp_check_response_ok [of r "ev_server_resp ev"] assms(1) by (cases "rq_comp_state r") auto
  with READ_RESPONSE_HDR show ?thesis by (simp add: tsi_event_def ends_pieces)
next
  case SEND_RESPONSE_HDR
  obtain calls where "(if rq_compress_transform r then content_encoding_calls r else Inr []) = Inr calls" "filter ends calls = []"
    using content_encoding_calls_ok [of r] assms(1) by (cases "rq_compress_transform r") (auto simp: rctx_ok_def)
  with SEND_RESPONSE_HDR assms(1) show ?thesis by (simp add: tsi_event_def ends_pieces)
qed (use assms in simp_all)

lemma handle_remap_rctx_ok:
  assumes "handle_remap regexec cc p4 rnd cfg db tx = Inr (calls, Some rctx)"
  shows "rctx_ok rctx"
proof (cases db)
  case None
  with assms show ?thesis by (simp add: handle_remap_def)
next
  case (Some d)
  from assms obtain code res where run: "remap_run regexec cc rnd d (request_from_txn tx) = Inr (code, res)"
    by (auto simp: handle_remap_def Let_def Some)
  show ?thesis
  proof (cases "code = RR_OK")
    case False
    with assms run Some show ?thesis by (auto simp: handle_remap_def Let_def rctx_ok_def)
  next
    case True
    from assms [unfolded Some] show ?thesis
    proof (cases rule: handle_remap_cases)
      case (2 res' sc rctx0 rctx')
      from 2(2) have "rq_compress_transform rctx' = rq_compress_transform rctx0" by (cases rule: remap_success_cases) simp_all
      with 2(4,5) show ?thesis by (simp add: rctx_ok_def)
    next
      case (1 code' res' ec)
      with run True show ?thesis by simp
    qed
  qed
qed

text \<open>A whole transaction after the request; an event after the state has been freed is a fault.\<close>

fun txn_events :: "string \<Rightarrow> string \<Rightarrow> (tsi_event_t \<times> event_data) list \<Rightarrow> request_ctx_t option \<Rightarrow> ts_call list res" where
  "txn_events h v [] r = Inr []"
| "txn_events h v (e # es) None = Inl Null_Pointer"
| "txn_events h v (e # es) (Some r) =
     res_bind (tsi_event h v e r) (\<lambda>(calls, r'). res_bind (txn_events h v es r') (\<lambda>rest. Inr (calls @ rest)))"

lemma txn_events_close:
  assumes "rctx_ok r" and "\<forall>e \<in> set es. fst e \<noteq> TXN_CLOSE \<and> fst e \<noteq> OTHER_TXN_EVENT"
  shows "\<exists>calls. txn_events h v (es @ [(TXN_CLOSE, ev)]) (Some r) = Inr calls
    \<and> filter ends calls = replicate (length es) TSHttpTxnReenable @ [Request_Ctx_Free, TSHttpTxnReenable]"
  using assms
proof (induction es arbitrary: r)
  case Nil
  then show ?case by (simp add: tsi_event_def)
next
  case (Cons e es)
  obtain event ev' where e: "e = (event, ev')" by (cases e)
  with Cons.prems tsi_event_step [of r event h v ev'] obtain calls r' where
    s: "tsi_event h v e r = Inr (calls, Some r')" "rctx_ok r'" "filter ends calls = [TSHttpTxnReenable]" by auto
  from Cons.IH [OF s(2)] Cons.prems(2) obtain rest where
    "txn_events h v (es @ [(TXN_CLOSE, ev)]) (Some r') = Inr rest"
    "filter ends rest = replicate (length es) TSHttpTxnReenable @ [Request_Ctx_Free, TSHttpTxnReenable]" by auto
  with s show ?case by simp
qed

fun resumes :: "ts_call \<Rightarrow> bool" where
  "resumes TSHttpTxnReenable = True"
| "resumes (TSHostLookup h) = True"
| "resumes _ = False"

lemma debug_request_only: "c \<in> set (debug_request res) \<Longrightarrow> c = Debug_Log ''read_request_hdr''"
  by (auto simp: debug_request_def split: option.splits if_splits)

lemma resumes_flow: "filter resumes calls = filter resumes (filter flow calls)"
proof -
  have "resumes c \<Longrightarrow> flow c" for c by (cases c) simp_all
  then show ?thesis by (auto intro!: filter_cong)
qed

lemma remap_error_resumes: "remap_error code res = Inr calls \<Longrightarrow> code \<noteq> RR_OK \<Longrightarrow> filter resumes calls = []"
  by (cases code) (auto simp: remap_error_def text_response_def)

lemma cache_setup_can_cache:
  assumes "cache_setup tx req rp res = Inr (enabled, can_cache, calls)"
  shows "TSHttpTxnConfigIntSet ''TS_CONFIG_HTTP_CACHE_HTTP'' 1 \<in> set calls \<Longrightarrow> can_cache"
    and "can_cache \<Longrightarrow> rp_cache rp \<and> (\<exists>cc. check_cookies rp (tx_cookie tx) = Inr (True, cc))"
proof -
  have cc: "TSHttpTxnConfigIntSet k v \<notin> set cs" if "check_cookies rp cookie = Inr (b, cs)" for cookie b cs k v
    using that by (auto simp: check_cookies_def split: option.splits if_splits)
  show "TSHttpTxnConfigIntSet ''TS_CONFIG_HTTP_CACHE_HTTP'' 1 \<in> set calls \<Longrightarrow> can_cache"
    and "can_cache \<Longrightarrow> rp_cache rp \<and> (\<exists>cc. check_cookies rp (tx_cookie tx) = Inr (True, cc))"
    using assms cc by (auto simp: cache_setup_def split: if_splits)
qed

lemma check_cookies_unwanted:
  assumes "check_cookies rp (Some cs) = Inr (True, cc)" and "cookies_ok rp"
  shows "\<forall>c \<in> set (strtok_all '' ;'' (cstr cs)). \<not> cookie_wanted rp c"
  using assms check_cookies_eq [OF assms(2), of "Some cs"] by (auto simp: Let_def filter_empty_conv split: if_splits)

lemma handle_remap_caching:
  assumes "handle_remap regexec crypt_check p4 rnd cfg (Some db) tx = Inr (calls, Some rctx)"
  shows "(TSHttpTxnConfigIntSet ''TS_CONFIG_HTTP_CACHE_HTTP'' 1 \<in> set calls \<longrightarrow> rq_can_cache rctx)
    \<and> (rq_can_cache rctx \<longrightarrow> (\<exists>res rp. remap_run regexec crypt_check rnd db (request_from_txn tx) = Inr (RR_OK, res)
         \<and> rz_path res = Some rp \<and> rp_cache rp
         \<and> (cookies_ok rp \<longrightarrow> (\<forall>cs. tx_cookie tx = Some cs \<longrightarrow> (\<forall>c \<in> set (strtok_all '' ;'' (cstr cs)). \<not> cookie_wanted rp c)))))"
proof -
  have hooks: "TSHttpTxnConfigIntSet ''TS_CONFIG_HTTP_CACHE_HTTP'' 1 \<notin> set txn_hooks" by (simp add: txn_hooks_def)
  show ?thesis
    using assms
  proof (cases rule: handle_remap_cases)
    case (1 code res ec)
    have "TSHttpTxnConfigIntSet ''TS_CONFIG_HTTP_CACHE_HTTP'' 1 \<notin> set ec"
      using 1(2,3) by (cases code) (auto simp: remap_error_def text_response_def)
    moreover have "\<not> rq_can_cache rctx" using assms 1(1,2,3) by (auto simp: handle_remap_def Let_def)
    ultimately show ?thesis using 1(4) hooks by (auto dest: debug_request_only)
  next
    case (2 res sc rctx0 rctx')
    have r: "rctx = rctx'" using 2(4) by simp
    show ?thesis
      using 2(2)
    proof (cases rule: remap_success_cases)
      case no_url
      with 2(3,6) r hooks show ?thesis by (auto dest: debug_request_only)
    next
      case (url rh rp t enabled can_cache cc)
      note s = url(2,4,7,11)
      have on: "TSHttpTxnConfigIntSet ''TS_CONFIG_HTTP_CACHE_HTTP'' 1 \<in> set calls \<longrightarrow> rq_can_cache rctx"
        using s(3,4) 2(3) hooks cache_setup_can_cache(1) [OF s(2)] r by (auto dest: debug_request_only)
      have "rp_cache rp \<and> (cookies_ok rp \<longrightarrow> (\<forall>cs. tx_cookie tx = Some cs \<longrightarrow> (\<forall>c \<in> set (strtok_all '' ;'' (cstr cs)). \<not> cookie_wanted rp c)))"
        if "rq_can_cache rctx"
        using cache_setup_can_cache(2) [OF s(2)] that s(3) r check_cookies_unwanted by auto
      with on 2(1) s(1) show ?thesis by blast
    qed
  qed
qed

subsection \<open>An example\<close>

definition example_tx :: txn where
  "example_tx = \<lparr>tx_method = ''GET'', tx_scheme = Some ''http'', tx_host = Some ''www.example.com:80'', tx_path = Some ''index.html'',
     tx_query = None, tx_addr = Some (Sockaddr_in 0), tx_fields = [], tx_has_host = True, tx_has_xfp = False, tx_cookie = None,
     tx_accept_encoding = Some [''gzip''], tx_tls = False, tx_url_create = True, tx_cont_create = True\<rparr>"

text \<open>\<^verbatim>\<open>inet_pton\<close> on the one address of the examples; every other text is a name.\<close>

definition example_pton4 :: "string \<Rightarrow> byte list option" where
  "example_pton4 s = (if s = ''10.0.0.1'' then Some [10, 0, 0, 1] else None)"

definition example_ev :: event_data where
  "example_ev = \<lparr>ev_hit_fresh = False,
     ev_server_resp = Some \<lparr>rs_content_encoding = False, rs_content_type = Some [''text/css''], rs_vary = False\<rparr>, ev_cached_resp = None,
     ev_links = [], ev_set_cookie = True, ev_has_aenc = False, ev_has_via = False, ev_has_server = False, ev_next_hop = None,
     ev_has_cc = False, ev_has_vary = False, ev_has_status = False, ev_protocol = None, ev_cache_status = 0, ev_cache_gen = 0, ev_tls = False\<rparr>"

lemma example_tx_request: "request_from_txn example_tx = example_req ''http''"
  by (simp add: request_from_txn_def example_tx_def example_req_def xstrndup_def strip_port_def cstr_def NUL_def)

lemma remap_run_result:
  assumes "remap_run regexec cc rnd db req = Inr (RR_OK, res)"
  obtains host rh rp n proto t where "rr_host req = Some host" "rr_proto req = Some proto" "remap_db_get_host db host = Some rh"
    "remap_host_find_path regexec rh (rr_path req) = Inr (rp, n)" "rz_host res = Some rh" "rz_path res = Some rp"
    "rz_target res = Some t" "t \<in> set (rp_addrs rp)" "access_granted cc req rp" "tls_satisfied req rh rp"
proof -
  from assms obtain host rh rp n proto where f: "rr_host req = Some host" "rr_proto req = Some proto"
    "remap_db_get_host db host = Some rh" "remap_host_find_path regexec rh (rr_path req) = Inr (rp, n)" "tls_satisfied req rh rp"
    "rr_after_tls cc rnd n req rp (rr_found rh rp) = Inr (RR_OK, res)"
    by (rule remap_run_found) simp_all
  from rr_after_tls_OK_D [OF f(6)] obtain r where r: "access_granted cc req rp" "rz_host r = Some rh" "rz_path r = Some rp"
    "rr_forward rnd n req rp r = Inr (RR_OK, res)" by blast
  from rr_forward_OK_D [OF r(4)] f r that show thesis by auto
qed

lemma remap_success_total:
  assumes "rz_host res = Some rh" and "rz_path res = Some rp" and "rz_target res = Some t" and "rr_host req = Some host"
    and "cache_setup tx req rp res = Inr (enabled, can_cache, cc)" and "tx_url_create tx"
  shows "\<exists>calls r'. remap_success p4 cfg tx req res rctx = Inr (calls, r') \<and> rq_can_cache r' = can_cache"
  by (cases "rp_preserve_host rp") (simp_all add: remap_success_def assms)

lemma handle_remap_no_cookie:
  assumes run: "remap_run regexec cc rnd db (request_from_txn tx) = Inr (RR_OK, res)" and "tx_cookie tx = None" and url: "tx_url_create tx"
  shows "\<exists>calls rctx rp t. handle_remap regexec cc p4 rnd cfg (Some db) tx = Inr (calls, Some rctx) \<and> rz_path res = Some rp
    \<and> rz_target res = Some t \<and> rq_can_cache rctx = rp_cache rp \<and> filter flow calls = send_to_target p4 (tx_cont_create tx) t"
proof -
  from run obtain host rh rp n proto t where r: "rr_host (request_from_txn tx) = Some host" "rr_proto (request_from_txn tx) = Some proto"
    "rz_host res = Some rh" "rz_path res = Some rp" "rz_target res = Some t" by (rule remap_run_result)
  obtain c where c: "cache_setup tx (request_from_txn tx) rp res = Inr (rp_cache rp, rp_cache rp, c)"
    by (cases "rp_cache rp") (auto simp: cache_setup_def check_cookies_def assms(2) remap_make_cache_key_def Let_def r(1,2))
  define rctx0 where "rctx0 = \<lparr>rq_compress = False, rq_comp_state = None, rq_compress_transform = False, rq_server_push = False,
     rq_cache_enabled = False, rq_can_cache = False, rq_debug_log = (case rz_path res of None \<Rightarrow> False | Some rp \<Rightarrow> rp_debug_log rp),
     rq_response_headers = rz_headers res\<rparr>"
  obtain calls r' where s: "remap_success p4 cfg tx (request_from_txn tx) res rctx0 = Inr (calls, r')" "rq_can_cache r' = rp_cache rp"
    using remap_success_total [OF r(3,4,5,1) c url] by blast
  have "filter flow calls = send_to_target p4 (tx_cont_create tx) t"
    using s(1)
  proof (cases rule: remap_success_cases)
    case no_url
    with s(1) url r show ?thesis by (auto simp: remap_success_def c url_from_remap_result_def split: if_splits)
  next
    case (url rh rp t)
    with r(5) show ?thesis by simp
  qed
  then have "filter flow (txn_hooks @ debug_request res @ calls) = send_to_target p4 (tx_cont_create tx) t" by (simp add: flow_settings)
  moreover have "handle_remap regexec cc p4 rnd cfg (Some db) tx = Inr (txn_hooks @ debug_request res @ calls, Some r')"
    by (simp add: handle_remap_def run Let_def rctx0_def [symmetric] s(1))
  ultimately show ?thesis using r(4,5) s(2) by blast
qed

lemma example_handle:
  "\<exists>calls rctx. handle_remap (\<lambda>_ _. None) (\<lambda>_ _. False) example_pton4 0 k8s_config_new (Some (example_db example_path)) example_tx
     = Inr (calls, Some rctx) \<and> rq_can_cache rctx"
proof -
  let ?req = "example_req ''http''"
  obtain res where run: "remap_run (\<lambda>_ _. None) (\<lambda>_ _. False) 0 (example_db example_path) ?req = Inr (RR_OK, res)"
    using example_run_OK by blast
  then obtain host rh rp n where r: "rr_host ?req = Some host" "remap_db_get_host (example_db example_path) host = Some rh"
    "remap_host_find_path (\<lambda>_ _. None) rh (rr_path ?req) = Inr (rp, n)" "rz_path res = Some rp" by (rule remap_run_result)
  have "rp = example_path"
    using r(1-3) by (auto simp: example_get_host remap_host_find_path_def remap_host_get_default_path_def example_host_def)
  then have cache: "rp_cache rp" by (simp add: example_path_def remap_path_add_address_def remap_path_default_def)
  have "tx_cookie example_tx = None" "tx_url_create example_tx" by (simp_all add: example_tx_def)
  from handle_remap_no_cookie [OF _ this, unfolded example_tx_request, OF run] r(4) cache show ?thesis by fastforce
qed

lemma handle_remap_forwards:
  assumes "handle_remap regexec cc p4 rnd cfg (Some db) tx = Inr (calls, rctx)"
    and c: "c \<in> set calls" "flow c" "c \<noteq> TSHttpTxnReenable" "\<And>r. c \<noteq> TSHttpTxnIntercept r"
  shows "\<exists>res t. remap_run regexec cc rnd db (request_from_txn tx) = Inr (RR_OK, res) \<and> rz_target res = Some t
    \<and> c \<in> set (send_to_target p4 (tx_cont_create tx) t)"
proof -
  have mem: "c \<in> set (filter flow calls)" using c(1,2) by simp
  show ?thesis
    using assms(1)
  proof (cases rule: handle_remap_cases)
    case (1 code res ec)
    from remap_error_flow [OF 1(3,2)] c(2,4) have "c \<notin> set ec" by (auto simp: filter_empty_conv)
    with mem c(3) 1(4) show ?thesis by (auto simp: flow_settings)
  next
    case (2 res sc rctx0 rctx')
    show ?thesis
      using 2(2)
    proof (cases rule: remap_success_cases)
      case no_url
      with mem 2(3) c(3) show ?thesis by (simp add: flow_settings)
    next
      case (url rh rp t)
      with mem 2(1,3) show ?thesis by (simp add: flow_settings)
    qed
  qed
qed

subsection \<open>Properties\<close>

text \<open>
  C7: Every request goes on exactly once.  Once there is a database, the hook either resumes the transaction itself or starts
  exactly one host lookup, whose end (the event \<^verbatim>\<open>TS_EVENT_HOST_LOOKUP\<close>) resumes it.  (Before there is a database the hook makes no call at all, and
  the transaction is never resumed.)
\<close>

theorem transaction_resumed_once:
  assumes "handle_remap regexec crypt_check inet_pton4 rnd cfg (Some (db :: 'c remap_db_t)) tx = Inr (calls, rctx)"
  shows "length (filter resumes calls) = 1
    \<and> (\<exists>calls'. external_lookup True data = Inr calls' \<and> filter resumes calls' = [TSHttpTxnReenable])
    \<and> handle_remap regexec crypt_check inet_pton4 rnd cfg (None :: 'c remap_db_t option) tx = Inr ([], None)"
proof -
  have "length (filter resumes calls) = 1"
    using assms
  proof (cases rule: handle_remap_cases)
    case (1 code res ec)
    moreover have "filter resumes (debug_request res) = []" by (simp add: debug_request_def split: option.split)
    ultimately show ?thesis by (simp add: remap_error_resumes txn_hooks_def)
  next
    case (2 res sc rctx0 rctx')
    show ?thesis
      using 2(2)
    proof (cases rule: remap_success_cases)
      case no_url
      then have "filter flow calls = [TSHttpTxnReenable]" unfolding 2(3) by (simp add: flow_settings)
      then show ?thesis unfolding resumes_flow [of calls] by simp
    next
      case (url rh rp t)
      then have "filter flow calls = send_to_target inet_pton4 (tx_cont_create tx) t" unfolding 2(3) by (simp add: flow_settings)
      then show ?thesis unfolding resumes_flow [of calls] by (simp add: send_to_target_def split: option.split)
    qed
  qed
  then show ?thesis by (auto simp: external_lookup_def handle_remap_def split: option.split)
qed

theorem transaction_resumed_once_witness:
  "\<exists>calls rctx. handle_remap (\<lambda>_ _. None) (\<lambda>_ _. False) example_pton4 0 k8s_config_new
      (Some (example_db example_path)) example_tx = Inr (calls, rctx) \<and> length (filter resumes calls) = 1"
proof -
  obtain calls rctx where h: "handle_remap (\<lambda>_ _. None) (\<lambda>_ _. False) example_pton4 0 k8s_config_new
      (Some (example_db example_path)) example_tx = Inr (calls, Some rctx)" "rq_can_cache rctx" using example_handle by blast
  from transaction_resumed_once [OF h(1)] h(1) show ?thesis by blast
qed

text \<open>
  C8: Nothing private gets into the cache.  Caching is switched on for a request only if its path allows it and none of its cookies
  is one that is sent on (a permitted one, or one without a \<^verbatim>\<open>=\<close>); and a response that sets a cookie is then not stored.
\<close>

theorem private_responses_not_cached:
  assumes "handle_remap regexec crypt_check inet_pton4 rnd cfg (Some db) tx = Inr (calls, Some rctx)"
  shows "(TSHttpTxnConfigIntSet ''TS_CONFIG_HTTP_CACHE_HTTP'' 1 \<in> set calls \<longrightarrow> rq_can_cache rctx)
    \<and> (rq_can_cache rctx \<longrightarrow> (\<exists>res rp. remap_run regexec crypt_check rnd db (request_from_txn tx) = Inr (RR_OK, res)
         \<and> rz_path res = Some rp \<and> rp_cache rp
         \<and> (cookies_ok rp \<longrightarrow> (\<forall>cs. tx_cookie tx = Some cs \<longrightarrow> (\<forall>c \<in> set (strtok_all '' ;'' (cstr cs)). \<not> cookie_wanted rp c)))))
    \<and> (rq_can_cache rctx \<and> ev_server_resp ev \<noteq> None \<and> ev_set_cookie ev \<longrightarrow>
         (\<exists>calls' r'. tsi_event h v (READ_RESPONSE_HDR, ev) rctx = Inr (calls', r') \<and> TSHttpTxnServerRespNoStoreSet \<in> set calls'))"
proof -
  have one: "(TSHttpTxnConfigIntSet ''TS_CONFIG_HTTP_CACHE_HTTP'' 1 \<in> set calls \<longrightarrow> rq_can_cache rctx)
    \<and> (rq_can_cache rctx \<longrightarrow> (\<exists>res rp. remap_run regexec crypt_check rnd db (request_from_txn tx) = Inr (RR_OK, res)
         \<and> rz_path res = Some rp \<and> rp_cache rp
         \<and> (cookies_ok rp \<longrightarrow> (\<forall>cs. tx_cookie tx = Some cs \<longrightarrow> (\<forall>c \<in> set (strtok_all '' ;'' (cstr cs)). \<not> cookie_wanted rp c)))))"
    using handle_remap_caching [OF assms] by blast
  have "\<exists>calls' r'. tsi_event h v (READ_RESPONSE_HDR, ev) rctx = Inr (calls', r') \<and> TSHttpTxnServerRespNoStoreSet \<in> set calls'"
    if "rq_can_cache rctx" "ev_server_resp ev \<noteq> None" "ev_set_cookie ev"
  proof -
    obtain cs r' where "(if rq_comp_state rctx \<noteq> None then comp_check_response (ev_server_resp ev) rctx else Inr ([], rctx)) = Inr (cs, r')"
      using comp_check_response_ok [of rctx "ev_server_resp ev"] by (cases "rq_comp_state rctx") auto
    with that show ?thesis by (simp add: tsi_event_def check_response_cache_def)
  qed
  with one show ?thesis by blast
qed

theorem private_responses_not_cached_witness:
  "\<exists>rctx calls' r'. rq_can_cache rctx \<and> tsi_event ''proxy'' ''ATS'' (READ_RESPONSE_HDR, example_ev) rctx = Inr (calls', r')
     \<and> TSHttpTxnServerRespNoStoreSet \<in> set calls'"
proof -
  obtain calls rctx where h: "handle_remap (\<lambda>_ _. None) (\<lambda>_ _. False) example_pton4 0 k8s_config_new
      (Some (example_db example_path)) example_tx = Inr (calls, Some rctx)" "rq_can_cache rctx" using example_handle by blast
  from private_responses_not_cached [OF h(1), of example_ev "''proxy''" "''ATS''"] h(2) show ?thesis by (auto simp: example_ev_def)
qed

text \<open>
  C12: The hooks of a transaction are safe.  From the state that the request hook leaves, every sequence of events that ends with the
  close of the transaction runs without a fault, resumes the transaction once per event, and frees the state exactly once, at
  the end.
\<close>

theorem txn_events_safe:
  assumes "handle_remap regexec crypt_check inet_pton4 rnd cfg db tx = Inr (calls, Some rctx)"
    and "\<forall>e \<in> set es. fst e \<noteq> TXN_CLOSE \<and> fst e \<noteq> OTHER_TXN_EVENT"
  shows "\<exists>calls'. txn_events h v (es @ [(TXN_CLOSE, ev)]) (Some rctx) = Inr calls'
    \<and> filter ends calls' = replicate (length es) TSHttpTxnReenable @ [Request_Ctx_Free, TSHttpTxnReenable]"
  by (rule txn_events_close [OF handle_remap_rctx_ok [OF assms(1)] assms(2)])

theorem txn_events_safe_witness:
  "\<exists>rctx calls'. txn_events ''proxy'' ''ATS'' [(SEND_REQUEST_HDR, example_ev), (READ_RESPONSE_HDR, example_ev),
      (SEND_RESPONSE_HDR, example_ev), (TXN_CLOSE, example_ev)] (Some rctx) = Inr calls'
    \<and> filter ends calls' = [TSHttpTxnReenable, TSHttpTxnReenable, TSHttpTxnReenable, Request_Ctx_Free, TSHttpTxnReenable]"
proof -
  obtain calls rctx where h: "handle_remap (\<lambda>_ _. None) (\<lambda>_ _. False) example_pton4 0 k8s_config_new
      (Some (example_db example_path)) example_tx = Inr (calls, Some rctx)" "rq_can_cache rctx" using example_handle by blast
  from txn_events_safe [OF h(1), of "[(SEND_REQUEST_HDR, example_ev), (READ_RESPONSE_HDR, example_ev), (SEND_RESPONSE_HDR, example_ev)]"
      "''proxy''" "''ATS''" example_ev]
  have "\<exists>calls'. txn_events ''proxy'' ''ATS'' [(SEND_REQUEST_HDR, example_ev), (READ_RESPONSE_HDR, example_ev),
      (SEND_RESPONSE_HDR, example_ev), (TXN_CLOSE, example_ev)] (Some rctx) = Inr calls'
    \<and> filter ends calls' = [TSHttpTxnReenable, TSHttpTxnReenable, TSHttpTxnReenable, Request_Ctx_Free, TSHttpTxnReenable]"
    by (simp del: txn_events.simps)
  then show ?thesis by blast
qed

text \<open>
  C24: Which cookies of a request are sent on.  With plain wildcard lists the Cookie header that is sent on has, in order, the cookies
  without a \<^verbatim>\<open>=\<close> and those whose name the documented rule permits; it is removed, and the request may be cached, exactly if none
  is left.  So the documented rule decides where every cookie has a \<^verbatim>\<open>=\<close>; a cookie without one (such as a bare \<^verbatim>\<open>has_js\<close>) is kept,
  and prevents caching, even if it is on the ignore list or missing from the whitelist, which \<^verbatim>\<open>docs/caching.md\<close> does not say.
\<close>

theorem cookies_filtered:
  assumes "cookies_ok rp"
  shows "check_cookies rp (Some cs) =
    (let kept = filter (\<lambda>c. CHR ''='' \<notin> set c \<or> cookie_permitted rp (param_name c)) (strtok_all '' ;'' (cstr cs))
     in Inr (if kept = [] then (True, [TSMimeHdrFieldRemove ''Cookie''])
             else (False, [TSMimeHdrFieldValueSet ''Cookie'' (add_cookies [] kept)])))"
  using check_cookies_eq [OF assms, of "Some cs"] by (simp add: Let_def cookie_wanted_def [abs_def])

theorem cookies_filtered_witness:
  "check_cookies (remap_path_default\<lparr>rp_ignore_cookies := Some (hash_set (hash_new 127 False) ''_ga'' ())\<rparr>) (Some ''_ga=1; id=2; _ga'')
     = Inr (False, [TSMimeHdrFieldValueSet ''Cookie'' ''id=2; _ga''])"
proof -
  let ?rp = "remap_path_default\<lparr>rp_ignore_cookies := Some (hash_set (hash_new 127 False) ''_ga'' ())\<rparr>"
  have get: "hash_get (hash_set (hash_new 127 False) ''_ga'' ()) k = Some () \<longleftrightarrow> k = ''_ga''" for k by simp
  have ok: "cookies_ok ?rp"
    by (simp add: cookies_ok_def patterns_ok_def remap_path_default_def plain_pattern_def NUL_def tolower_def)
  have tokens: "strtok_all '' ;'' (cstr ''_ga=1; id=2; _ga'') = [''_ga=1'', ''id=2'', ''_ga'']"
    by (simp add: cstr_def NUL_def strtok_all.simps strtok_r_def)
  have "\<not> cookie_permitted ?rp (param_name ''_ga=1'')" "cookie_permitted ?rp (param_name ''id=2'')"
    by (simp_all add: cookie_permitted_def some_pattern_def get param_name_def remap_path_default_def tolower_def)
  with cookies_filtered [OF ok, of "''_ga=1; id=2; _ga''"] show ?thesis by (simp add: tokens add_cookies_def)
qed

end
