(* ===== verification/Digest.thy ===== *)
theory Digest
  imports Bytes
begin

text \<open>
  The interface between the hash functions of \<^verbatim>\<open>crypt_sha256.c\<close> and \<^verbatim>\<open>crypt_sha512.c\<close> and the password
  scheme in the same files: a context that is initialised, given bytes in any number of pieces and
  finished.  The laws say that a context stands for the bytes it was given and that finishing it
  gives the hash of exactly these bytes.
\<close>

record 'ctx digest_ops =
  op_init :: "'ctx \<Rightarrow> 'ctx"
  op_process :: "nat \<Rightarrow> byte list \<Rightarrow> 'ctx \<Rightarrow> 'ctx res"
  op_finish :: "'ctx \<Rightarrow> ('ctx \<times> byte list) res"
  op_len :: nat
  op_align :: nat

definition op_pieces :: "'ctx digest_ops \<Rightarrow> (nat \<times> byte list) list \<Rightarrow> 'ctx \<Rightarrow> 'ctx res" where
  "op_pieces ops pieces ctx = res_fold (\<lambda>(p, bs). op_process ops p bs) pieces ctx"

text \<open>\<open>ctx_ok\<close>: the memory of the context exists.  \<open>rep ctx m\<close>: it has been given the bytes \<open>m\<close>.\<close>

locale digest =
  fixes ops :: "'ctx digest_ops" and hash :: "byte list \<Rightarrow> byte list"
    and ctx_ok :: "'ctx \<Rightarrow> bool" and rep :: "'ctx \<Rightarrow> byte list \<Rightarrow> bool"
  assumes init_rep: "ctx_ok ctx \<Longrightarrow> rep (op_init ops ctx) []"
    and process_rep: "rep ctx m \<Longrightarrow> length bs < 2 ^ 32 \<Longrightarrow>
      \<exists>ctx'. op_process ops p bs ctx = Inr ctx' \<and> rep ctx' (m @ bs)"
    and finish_rep: "rep ctx m \<Longrightarrow> \<exists>ctx'. op_finish ops ctx = Inr (ctx', hash m) \<and> ctx_ok ctx'"
    and hash_length: "length (hash m) = op_len ops"
    and len_pos: "0 < op_len ops" and len_bound: "op_len ops < 2 ^ 32"
begin

lemma pieces_rep:
  assumes "rep ctx m" and "\<forall>(p, bs) \<in> set pieces. length bs < 2 ^ 32"
  shows "\<exists>ctx'. op_pieces ops pieces ctx = Inr ctx' \<and> rep ctx' (m @ concat (map snd pieces))"
  using assms
proof (induction pieces arbitrary: ctx m)
  case (Cons x pieces)
  obtain p bs where x: "x = (p, bs)" by (cases x)
  with Cons.prems obtain ctx1 where c: "op_process ops p bs ctx = Inr ctx1" "rep ctx1 (m @ bs)"
    using process_rep [of ctx m bs p] by auto
  with Cons.IH [of ctx1 "m @ bs"] Cons.prems x show ?case by (simp add: op_pieces_def)
qed (simp add: op_pieces_def)

lemma hash_pieces:
  assumes "ctx_ok ctx" and "\<forall>(p, bs) \<in> set pieces. length bs < 2 ^ 32"
  shows "\<exists>ctx'. res_bind (op_pieces ops pieces (op_init ops ctx)) (op_finish ops) = Inr (ctx', hash (concat (map snd pieces)))
    \<and> ctx_ok ctx'"
  using pieces_rep [OF init_rep [OF assms(1)] assms(2)] finish_rep by fastforce

end

end
