(* ===== verification/Sha256.thy ===== *)
theory Sha256
  imports Digest
begin

text \<open>
  The SHA-256 of \<^verbatim>\<open>crypt/crypt_sha256.c\<close>: the context, the compression of whole blocks, the buffering
  of input that comes in pieces (\<^verbatim>\<open>sha256_process_bytes\<close>) and the padding (\<^verbatim>\<open>sha256_finish_ctx\<close>), for a
  little-endian machine.  A write outside of the context's buffer, or a block read past the end
  of its input, is the fault \<open>Out_Of_Bounds\<close>.  The address of an input matters to the code, which
  treats unaligned input differently, and is an argument.

  The lemmas show that the pieces are hashed as one message: whatever the pieces, their
  addresses and the initial contents of the buffer, the digest is \<open>sha256\<close> of their
  concatenation, where \<open>sha256\<close> is the function of FIPS 180-2, and no step faults.
\<close>

unbundle bit_operations_syntax

subsection \<open>The code\<close>

record sha256_ctx =
  sha256_H :: "32 word list"
  sha256_total0 :: "32 word"
  sha256_total1 :: "32 word"
  sha256_buflen :: nat
  sha256_buffer :: "byte list"

type_synonym sha256_vars =
  "32 word \<times> 32 word \<times> 32 word \<times> 32 word \<times> 32 word \<times> 32 word \<times> 32 word \<times> 32 word"

definition sha256_SWAP :: "32 word \<Rightarrow> 32 word" where
  "sha256_SWAP n = push_bit 24 n OR push_bit 8 (n AND 0xff00) OR (drop_bit 8 n AND 0xff00) OR drop_bit 24 n"

definition sha256_fillbuf :: "byte list" where
  "sha256_fillbuf = 0x80 # replicate 63 0"

definition sha256_K :: "32 word list" where
  "sha256_K =
    [0x428a2f98, 0x71374491, 0xb5c0fbcf, 0xe9b5dba5,
     0x3956c25b, 0x59f111f1, 0x923f82a4, 0xab1c5ed5,
     0xd807aa98, 0x12835b01, 0x243185be, 0x550c7dc3,
     0x72be5d74, 0x80deb1fe, 0x9bdc06a7, 0xc19bf174,
     0xe49b69c1, 0xefbe4786, 0x0fc19dc6, 0x240ca1cc,
     0x2de92c6f, 0x4a7484aa, 0x5cb0a9dc, 0x76f988da,
     0x983e5152, 0xa831c66d, 0xb00327c8, 0xbf597fc7,
     0xc6e00bf3, 0xd5a79147, 0x06ca6351, 0x14292967,
     0x27b70a85, 0x2e1b2138, 0x4d2c6dfc, 0x53380d13,
     0x650a7354, 0x766a0abb, 0x81c2c92e, 0x92722c85,
     0xa2bfe8a1, 0xa81a664b, 0xc24b8b70, 0xc76c51a3,
     0xd192e819, 0xd6990624, 0xf40e3585, 0x106aa070,
     0x19a4c116, 0x1e376c08, 0x2748774c, 0x34b0bcb5,
     0x391c0cb3, 0x4ed8aa4a, 0x5b9cca4f, 0x682e6ff3,
     0x748f82ee, 0x78a5636f, 0x84c87814, 0x8cc70208,
     0x90befffa, 0xa4506ceb, 0xbef9a3f7, 0xc67178f2]"

definition sha256_CYCLIC :: "32 word \<Rightarrow> nat \<Rightarrow> 32 word" where
  "sha256_CYCLIC w s = drop_bit s w OR push_bit (32 - s) w"

definition sha256_Ch :: "32 word \<Rightarrow> 32 word \<Rightarrow> 32 word \<Rightarrow> 32 word" where
  "sha256_Ch x y z = (x AND y) XOR (NOT x AND z)"

definition sha256_Maj :: "32 word \<Rightarrow> 32 word \<Rightarrow> 32 word \<Rightarrow> 32 word" where
  "sha256_Maj x y z = (x AND y) XOR (x AND z) XOR (y AND z)"

definition sha256_S0 :: "32 word \<Rightarrow> 32 word" where
  "sha256_S0 x = sha256_CYCLIC x 2 XOR sha256_CYCLIC x 13 XOR sha256_CYCLIC x 22"

definition sha256_S1 :: "32 word \<Rightarrow> 32 word" where
  "sha256_S1 x = sha256_CYCLIC x 6 XOR sha256_CYCLIC x 11 XOR sha256_CYCLIC x 25"

definition sha256_R0 :: "32 word \<Rightarrow> 32 word" where
  "sha256_R0 x = sha256_CYCLIC x 7 XOR sha256_CYCLIC x 18 XOR drop_bit 3 x"

definition sha256_R1 :: "32 word \<Rightarrow> 32 word" where
  "sha256_R1 x = sha256_CYCLIC x 17 XOR sha256_CYCLIC x 19 XOR drop_bit 10 x"

definition sha256_schedule :: "32 word list \<Rightarrow> 32 word list" where
  "sha256_schedule words =
     fold (\<lambda>t W. W @ [sha256_R1 (W ! (t - 2)) + W ! (t - 7) + sha256_R0 (W ! (t - 15)) + W ! (t - 16)])
       [16..<64] (map sha256_SWAP (take 16 words))"

fun sha256_round :: "32 word list \<Rightarrow> nat \<Rightarrow> sha256_vars \<Rightarrow> sha256_vars" where
  "sha256_round W t (a, b, c, d, e, f, g, h) =
     (let T1 = h + sha256_S1 e + sha256_Ch e f g + sha256_K ! t + W ! t;
          T2 = sha256_S0 a + sha256_Maj a b c
      in (T1 + T2, a, b, c, d + T1, e, f, g))"

fun sha256_add_vars :: "sha256_vars \<Rightarrow> sha256_vars \<Rightarrow> sha256_vars" where
  "sha256_add_vars (a, b, c, d, e, f, g, h) (a', b', c', d', e', f', g', h') =
     (a + a', b + b', c + c', d + d', e + e', f + f', g + g', h + h')"

definition sha256_one_block :: "32 word list \<Rightarrow> sha256_vars \<Rightarrow> sha256_vars" where
  "sha256_one_block words save =
     sha256_add_vars (fold (sha256_round (sha256_schedule words)) [0..<64] save) save"

text \<open>The loop over \<^verbatim>\<open>nwords\<close>: with fewer than 16 words left it reads past the end of the input.\<close>

fun sha256_blocks :: "32 word list \<Rightarrow> sha256_vars \<Rightarrow> sha256_vars res" where
  "sha256_blocks words vars =
     (if words = [] then Inr vars
      else if length words < 16 then Inl Out_Of_Bounds
      else sha256_blocks (drop 16 words) (sha256_one_block words vars))"

declare sha256_blocks.simps [simp del]

definition sha256_vars_of :: "32 word list \<Rightarrow> sha256_vars" where
  "sha256_vars_of H = (H ! 0, H ! 1, H ! 2, H ! 3, H ! 4, H ! 5, H ! 6, H ! 7)"

fun sha256_H_of :: "sha256_vars \<Rightarrow> 32 word list" where
  "sha256_H_of (a, b, c, d, e, f, g, h) = [a, b, c, d, e, f, g, h]"

definition sha256_count :: "nat \<Rightarrow> sha256_ctx \<Rightarrow> sha256_ctx" where
  "sha256_count len ctx =
     (let total0 = sha256_total0 ctx + word_of_nat len
      in ctx\<lparr>sha256_total0 := total0,
             sha256_total1 := sha256_total1 ctx + (if unat total0 < len then 1 else 0)\<rparr>)"

definition sha256_process_block :: "byte list \<Rightarrow> sha256_ctx \<Rightarrow> sha256_ctx res" where
  "sha256_process_block buffer ctx =
     (let nwords = length buffer div 4;
          words = map load_le (chunks 4 (take (4 * nwords) buffer))
      in res_bind (sha256_blocks words (sha256_vars_of (sha256_H ctx))) (\<lambda>vars.
           Inr ((sha256_count (length buffer) ctx)\<lparr>sha256_H := sha256_H_of vars\<rparr>)))"

definition sha256_init_ctx :: "sha256_ctx \<Rightarrow> sha256_ctx" where
  "sha256_init_ctx ctx =
     ctx\<lparr>sha256_H := [0x6a09e667, 0xbb67ae85, 0x3c6ef372, 0xa54ff53a, 0x510e527f, 0x9b05688c, 0x1f83d9ab, 0x5be0cd19],
         sha256_total0 := 0, sha256_total1 := 0, sha256_buflen := 0\<rparr>"

definition sha256_finish_ctx :: "sha256_ctx \<Rightarrow> (sha256_ctx \<times> byte list) res" where
  "sha256_finish_ctx ctx0 =
     (let bytes = sha256_buflen ctx0;
          ctx = sha256_count bytes ctx0;
          pad = (if bytes \<ge> 56 then 64 + 56 - bytes else 56 - bytes)
      in res_bind (memcpy_at bytes (take pad sha256_fillbuf) (sha256_buffer ctx)) (\<lambda>b1.
         res_bind (memcpy_at (bytes + pad + 4) (store_le 4 (sha256_SWAP (push_bit 3 (sha256_total0 ctx)))) b1) (\<lambda>b2.
         res_bind (memcpy_at (bytes + pad) (store_le 4 (sha256_SWAP (push_bit 3 (sha256_total1 ctx) OR drop_bit 29 (sha256_total0 ctx)))) b2) (\<lambda>b3.
         res_bind (sha256_process_block (take (bytes + pad + 8) b3) (ctx\<lparr>sha256_buffer := b3\<rparr>)) (\<lambda>ctx'.
         Inr (ctx', concat (map (\<lambda>i. store_le 4 (sha256_SWAP (sha256_H ctx' ! i))) [0..<8])))))))"

text \<open>\<^verbatim>\<open>sha256_process_bytes\<close>: the bytes that top up the buffer, then whole blocks, then the rest.\<close>

definition sha256_fill :: "nat \<Rightarrow> byte list \<Rightarrow> sha256_ctx \<Rightarrow> (nat \<times> byte list \<times> sha256_ctx) res" where
  "sha256_fill p buffer ctx =
     (if sha256_buflen ctx = 0 then Inr (p, buffer, ctx)
      else (let left_over = sha256_buflen ctx;
                add = (if 128 - left_over > length buffer then length buffer else 128 - left_over)
            in res_bind (memcpy_at left_over (take add buffer) (sha256_buffer ctx)) (\<lambda>b1.
               let ctx1 = ctx\<lparr>sha256_buffer := b1, sha256_buflen := left_over + add\<rparr> in
               if sha256_buflen ctx1 > 64
               then res_bind (sha256_process_block (take (64 * (sha256_buflen ctx1 div 64)) b1) ctx1) (\<lambda>ctx2.
                    let buflen = sha256_buflen ctx2 mod 64 in
                    res_bind (memcpy_at 0 (take buflen (drop (64 * ((left_over + add) div 64)) b1)) b1) (\<lambda>b2.
                    Inr (p + add, drop add buffer, ctx2\<lparr>sha256_buffer := b2, sha256_buflen := buflen\<rparr>)))
               else Inr (p + add, drop add buffer, ctx1))))"

fun sha256_unaligned :: "byte list \<Rightarrow> sha256_ctx \<Rightarrow> (byte list \<times> sha256_ctx) res" where
  "sha256_unaligned buffer ctx =
     (if length buffer > 64
      then res_bind (memcpy_at 0 (take 64 buffer) (sha256_buffer ctx)) (\<lambda>b1.
           res_bind (sha256_process_block (take 64 b1) (ctx\<lparr>sha256_buffer := b1\<rparr>)) (\<lambda>ctx1.
           sha256_unaligned (drop 64 buffer) ctx1))
      else Inr (buffer, ctx))"

declare sha256_unaligned.simps [simp del]

definition sha256_whole :: "nat \<Rightarrow> byte list \<Rightarrow> sha256_ctx \<Rightarrow> (byte list \<times> sha256_ctx) res" where
  "sha256_whole p buffer ctx =
     (if length buffer \<ge> 64
      then if p mod 4 \<noteq> 0 then sha256_unaligned buffer ctx
           else (let n = 64 * (length buffer div 64) in
             res_bind (sha256_process_block (take n buffer) ctx) (\<lambda>ctx1. Inr (drop n buffer, ctx1)))
      else Inr (buffer, ctx))"

definition sha256_rest :: "byte list \<Rightarrow> sha256_ctx \<Rightarrow> sha256_ctx res" where
  "sha256_rest buffer ctx =
     (if length buffer > 0
      then res_bind (memcpy_at (sha256_buflen ctx) buffer (sha256_buffer ctx)) (\<lambda>b1.
           let left_over = sha256_buflen ctx + length buffer; ctx1 = ctx\<lparr>sha256_buffer := b1\<rparr> in
           if left_over \<ge> 64
           then res_bind (sha256_process_block (take 64 b1) ctx1) (\<lambda>ctx2.
                res_bind (memcpy_at 0 (take (left_over - 64) (drop 64 b1)) b1) (\<lambda>b2.
                Inr (ctx2\<lparr>sha256_buffer := b2, sha256_buflen := left_over - 64\<rparr>)))
           else Inr (ctx1\<lparr>sha256_buflen := left_over\<rparr>))
      else Inr ctx)"

definition sha256_process_bytes :: "nat \<Rightarrow> byte list \<Rightarrow> sha256_ctx \<Rightarrow> sha256_ctx res" where
  "sha256_process_bytes p buffer ctx =
     res_bind (sha256_fill p buffer ctx) (\<lambda>(p1, buffer1, ctx1).
     res_bind (sha256_whole p1 buffer1 ctx1) (\<lambda>(buffer2, ctx2).
     sha256_rest buffer2 ctx2))"


subsection \<open>The function of FIPS 180-2\<close>

definition sha256_pad :: "byte list \<Rightarrow> byte list" where
  "sha256_pad m =
     m @ 0x80 # replicate (md_zeros 64 8 (length m)) 0 @ store_be 8 (word_of_nat (8 * length m) :: 64 word)"

fun sha256_W :: "32 word list \<Rightarrow> nat \<Rightarrow> 32 word" where
  "sha256_W M t =
     (if t < 16 then M ! t
      else sha256_R1 (sha256_W M (t - 2)) + sha256_W M (t - 7) + sha256_R0 (sha256_W M (t - 15)) + sha256_W M (t - 16))"

declare sha256_W.simps [simp del]

definition sha256_compress :: "sha256_vars \<Rightarrow> byte list \<Rightarrow> sha256_vars" where
  "sha256_compress H block =
     (let W = map (sha256_W (map load_be (chunks 4 block))) [0..<64]
      in sha256_add_vars (fold (sha256_round W) [0..<64] H) H)"

definition sha256_IV :: sha256_vars where
  "sha256_IV = (0x6a09e667, 0xbb67ae85, 0x3c6ef372, 0xa54ff53a, 0x510e527f, 0x9b05688c, 0x1f83d9ab, 0x5be0cd19)"

definition sha256 :: "byte list \<Rightarrow> byte list" where
  "sha256 m = concat (map (store_be 4) (sha256_H_of (foldl sha256_compress sha256_IV (chunks 64 (sha256_pad m)))))"

subsection \<open>Blocks\<close>

lemma sha256_SWAP_masks:
  "sha256_SWAP w = push_bit 24 w OR push_bit 8 (w AND push_bit 8 (mask 8)) OR
     (drop_bit 8 w AND push_bit 8 (mask 8)) OR drop_bit 24 w"
  by (simp add: sha256_SWAP_def mask_eq_exp_minus_1 push_bit_eq_mult)

lemma bit_sha256_SWAP:
  assumes "r < 8"
  shows "bit (sha256_SWAP w) r \<longleftrightarrow> bit w (24 + r)" "bit (sha256_SWAP w) (8 + r) \<longleftrightarrow> bit w (16 + r)"
    "bit (sha256_SWAP w) (16 + r) \<longleftrightarrow> bit w (8 + r)" "bit (sha256_SWAP w) (24 + r) \<longleftrightarrow> bit w r"
  using assms
  by (simp_all add: sha256_SWAP_masks bit_or_iff bit_and_iff bit_push_bit_iff bit_drop_bit_eq bit_mask_iff bit_word_high)

lemma sha256_SWAP_eq: "sha256_SWAP w = load_be (store_le 4 w)"
  by (rule byte_reverse_eqI) (simp_all add: bit_sha256_SWAP)

lemma sha256_SWAP_load: "length bs = 4 \<Longrightarrow> sha256_SWAP (load_le bs) = load_be bs"
  by (simp add: sha256_SWAP_eq store_load_le)

lemma sha256_SWAP_store: "store_le 4 (sha256_SWAP w) = store_be 4 w"
  by (simp add: sha256_SWAP_eq load_be_def store_be_def store_load_le)

lemma sha256_schedule_eq:
  assumes "length M = 16" and "map sha256_SWAP (take 16 words) = M"
  shows "sha256_schedule words = map (sha256_W M) [0..<64]"
  unfolding sha256_schedule_def assms(2)
proof (rule fold_snoc_eq_map)
  show "M = map (sha256_W M) [0..<16]"
    by (rule nth_equalityI) (simp_all add: assms(1) sha256_W.simps)
next
  fix t W assume t: "16 \<le> t" "t < 64" and W: "W = map (sha256_W M) [0..<t]"
  show "sha256_R1 (W ! (t - 2)) + W ! (t - 7) + sha256_R0 (W ! (t - 15)) + W ! (t - 16) = sha256_W M t"
    using t by (subst sha256_W.simps) (simp add: W)
qed simp

lemma sha256_one_block_eq:
  assumes "length block = 64"
  shows "sha256_one_block (map load_le (chunks 4 block) @ rest) H = sha256_compress H block"
proof -
  have len: "length (chunks 4 block) = 16" using assms by (subst length_chunks) simp_all
  have "map sha256_SWAP (take 16 (map load_le (chunks 4 block) @ rest)) = map load_be (chunks 4 block)"
    using len chunks_length [of 4 block] assms by (simp add: sha256_SWAP_load)
  then show ?thesis
    using sha256_schedule_eq [of "map load_be (chunks 4 block)"] len
    by (simp add: sha256_one_block_def sha256_compress_def)
qed

lemma sha256_blocks_eq:
  "64 dvd length bs \<Longrightarrow> sha256_blocks (map load_le (chunks 4 bs)) H = Inr (foldl sha256_compress H (chunks 64 bs))"
proof (induction "64 :: nat" bs arbitrary: H rule: chunks.induct)
  case (1 bs)
  show ?case
  proof (cases "bs = []")
    case True
    then show ?thesis by (simp add: sha256_blocks.simps)
  next
    case False
    with "1.prems" have len: "64 \<le> length bs" by (auto intro: dvd_imp_le)
    have split: "chunks 4 bs = chunks 4 (take 64 bs) @ chunks 4 (drop 64 bs)"
      using chunks_append_aligned [of 4 "take 64 bs" "drop 64 bs"] len by simp
    have len16: "length (chunks 4 (take 64 bs)) = 16" using len by (subst length_chunks) simp_all
    then have ne: "chunks 4 (take 64 bs) \<noteq> []" by auto
    have "sha256_blocks (map load_le (chunks 4 bs)) H
        = sha256_blocks (map load_le (chunks 4 (drop 64 bs))) (sha256_compress H (take 64 bs))"
      using len len16 ne by (subst sha256_blocks.simps) (simp add: split sha256_one_block_eq)
    also have "\<dots> = Inr (foldl sha256_compress (sha256_compress H (take 64 bs)) (chunks 64 (drop 64 bs)))"
      using "1.hyps" False "1.prems" by simp
    also have "\<dots> = Inr (foldl sha256_compress H (chunks 64 bs))"
      using False by (subst (2) chunks.simps) simp
    finally show ?thesis .
  qed
qed

text \<open>The state after the blocks \<open>bs\<close>, and the two words of the byte count read as one number.\<close>

definition sha256_state :: "byte list \<Rightarrow> sha256_vars" where
  "sha256_state bs = foldl sha256_compress sha256_IV (chunks 64 bs)"

definition sha256_total :: "sha256_ctx \<Rightarrow> nat" where
  "sha256_total ctx = unat (sha256_total1 ctx) * 2 ^ 32 + unat (sha256_total0 ctx)"

lemma sha256_state_append:
  "64 dvd length as \<Longrightarrow> foldl sha256_compress (sha256_state as) (chunks 64 bs) = sha256_state (as @ bs)"
  by (simp add: sha256_state_def chunks_append_aligned)

lemma sha256_vars_H [simp]: "sha256_vars_of (sha256_H_of v) = v"
  by (cases v rule: sha256_H_of.cases) (simp add: sha256_vars_of_def)

lemma sha256_count_simps [simp]:
  "sha256_H (sha256_count n ctx) = sha256_H ctx"
  "sha256_buflen (sha256_count n ctx) = sha256_buflen ctx"
  "sha256_buffer (sha256_count n ctx) = sha256_buffer ctx"
  by (simp_all add: sha256_count_def Let_def)

lemma sha256_total_count:
  "len < 2 ^ 32 \<Longrightarrow> sha256_total (sha256_count len ctx) = (sha256_total ctx + len) mod 2 ^ 64"
  using two_word_count [of len "sha256_total1 ctx" "sha256_total0 ctx"]
  by (simp add: sha256_total_def sha256_count_def Let_def)


subsection \<open>A context stands for the bytes it was given\<close>

text \<open>
  \<open>sha256_at ctx as\<close>: the blocks \<open>as\<close> have been compressed.  \<open>sha256_rep ctx m\<close>: the context has
  been given the message \<open>m\<close>, of which the last bytes may still be in its buffer.
\<close>

definition sha256_at :: "sha256_ctx \<Rightarrow> byte list \<Rightarrow> bool" where
  "sha256_at ctx as \<longleftrightarrow> 64 dvd length as \<and> sha256_H ctx = sha256_H_of (sha256_state as) \<and>
     sha256_total ctx = length as mod 2 ^ 64"

definition sha256_rep :: "sha256_ctx \<Rightarrow> byte list \<Rightarrow> bool" where
  "sha256_rep ctx m \<longleftrightarrow> length (sha256_buffer ctx) = 128 \<and> sha256_buflen ctx \<le> 64 \<and>
     (\<exists>as. sha256_at ctx as \<and> m = as @ take (sha256_buflen ctx) (sha256_buffer ctx))"

lemma sha256_at_update [simp]:
  "sha256_at (ctx\<lparr>sha256_buffer := b\<rparr>) as = sha256_at ctx as"
  "sha256_at (ctx\<lparr>sha256_buflen := n\<rparr>) as = sha256_at ctx as"
  by (simp_all add: sha256_at_def sha256_total_def)

lemma sha256_repI:
  "sha256_at ctx as \<Longrightarrow> m = as @ take (sha256_buflen ctx) (sha256_buffer ctx) \<Longrightarrow>
   sha256_buflen ctx \<le> 64 \<Longrightarrow> length (sha256_buffer ctx) = 128 \<Longrightarrow> sha256_rep ctx m"
  by (auto simp: sha256_rep_def)

lemma sha256_process_block_H:
  assumes "sha256_H ctx = sha256_H_of (sha256_state as)" and "64 dvd length as" and "64 dvd length bs"
  obtains ctx' where "sha256_process_block bs ctx = Inr ctx'" "sha256_H ctx' = sha256_H_of (sha256_state (as @ bs))"
    "sha256_buffer ctx' = sha256_buffer ctx" "sha256_buflen ctx' = sha256_buflen ctx"
    "sha256_total ctx' = sha256_total (sha256_count (length bs) ctx)"
proof -
  define ctx' where "ctx' = (sha256_count (length bs) ctx)\<lparr>sha256_H := sha256_H_of (sha256_state (as @ bs))\<rparr>"
  have "4 dvd length bs" using assms(3) dvd_trans [of 4 64 "length bs"] by simp
  then have "sha256_process_block bs ctx = Inr ctx'"
    using assms(1,2) sha256_blocks_eq [OF assms(3)]
    by (simp add: sha256_process_block_def Let_def sha256_state_append ctx'_def)
  then show thesis by (rule that) (simp_all add: ctx'_def sha256_total_def)
qed

lemma sha256_process_block_at:
  assumes "sha256_at ctx as" and "64 dvd length bs" and "length bs < 2 ^ 32"
  obtains ctx' where "sha256_process_block bs ctx = Inr ctx'" "sha256_at ctx' (as @ bs)"
    "sha256_buflen ctx' = sha256_buflen ctx" "sha256_buffer ctx' = sha256_buffer ctx"
proof -
  have H: "sha256_H ctx = sha256_H_of (sha256_state as)" "64 dvd length as" using assms(1) by (simp_all add: sha256_at_def)
  obtain ctx' where c: "sha256_process_block bs ctx = Inr ctx'" "sha256_H ctx' = sha256_H_of (sha256_state (as @ bs))"
    "sha256_buffer ctx' = sha256_buffer ctx" "sha256_buflen ctx' = sha256_buflen ctx"
    "sha256_total ctx' = sha256_total (sha256_count (length bs) ctx)"
    by (rule sha256_process_block_H [OF H assms(2)])
  have "sha256_total ctx' = length (as @ bs) mod 2 ^ 64"
    using assms(1) sha256_total_count [OF assms(3), of ctx] c(5) by (simp add: sha256_at_def mod_add_left_eq)
  with c assms(2) H(2) have "sha256_at ctx' (as @ bs)" by (simp add: sha256_at_def)
  with c show thesis by (intro that)
qed

lemma sha256_rep_init:
  assumes "length (sha256_buffer ctx) = 128"
  shows "sha256_rep (sha256_init_ctx ctx) []"
proof (rule sha256_repI)
  show "sha256_at (sha256_init_ctx ctx) []"
    by (simp add: sha256_at_def sha256_init_ctx_def sha256_state_def sha256_IV_def sha256_total_def)
qed (simp_all add: sha256_init_ctx_def assms)

lemma sha256_fill_rep:
  assumes "sha256_rep ctx m"
  obtains p' bs' ctx' m' where "sha256_fill p bs ctx = Inr (p', bs', ctx')" "sha256_rep ctx' m'" "m @ bs = m' @ bs'"
    "bs' = [] \<or> sha256_buflen ctx' = 0" "length bs' \<le> length bs"
proof (cases "sha256_buflen ctx = 0")
  case True
  show thesis by (rule that [of p bs ctx m]) (use True assms in \<open>simp_all add: sha256_fill_def\<close>)
next
  case False
  from assms obtain as where at: "sha256_at ctx as" and m: "m = as @ take (sha256_buflen ctx) (sha256_buffer ctx)"
    and len: "length (sha256_buffer ctx) = 128" "sha256_buflen ctx \<le> 64" by (auto simp: sha256_rep_def)
  define left_over where "left_over = sha256_buflen ctx"
  define add where "add = (if 128 - left_over > length bs then length bs else 128 - left_over)"
  define b1 where "b1 = take left_over (sha256_buffer ctx) @ take add bs @ drop (left_over + add) (sha256_buffer ctx)"
  define ctx1 where "ctx1 = ctx\<lparr>sha256_buffer := b1, sha256_buflen := left_over + add\<rparr>"
  have lo: "0 < left_over" "left_over \<le> 64" using False len by (simp_all add: left_over_def)
  have add: "add \<le> length bs" "left_over + add \<le> 128" "add < length bs \<Longrightarrow> left_over + add = 128"
    using lo by (auto simp: add_def)
  have lb1: "length b1 = 128" using add len lo by (simp add: b1_def)
  have tb1: "take (left_over + add) b1 = take left_over (sha256_buffer ctx) @ take add bs"
    using add len lo by (simp add: b1_def)
  have cpy: "memcpy_at left_over (take add bs) (sha256_buffer ctx) = Inr b1"
    using add len by (simp add: b1_def min_absorb2)
  have mbs: "m @ bs = as @ take (left_over + add) b1 @ drop add bs" unfolding tb1 by (simp add: m left_over_def)
  have at1: "sha256_at ctx1 as" using at by (simp add: ctx1_def)
  show thesis
  proof (cases "left_over + add > 64")
    case True
    define n where "n = 64 * ((left_over + add) div 64)"
    define r where "r = (left_over + add) mod 64"
    have nr: "n + r = left_over + add" "r < 64" "64 dvd n" "n \<le> 128" using add by (simp_all add: n_def r_def)
    have ln: "length (take n b1) = n" using nr lb1 by simp
    obtain ctx2 where pb: "sha256_process_block (take n b1) ctx1 = Inr ctx2" "sha256_at ctx2 (as @ take n b1)"
      "sha256_buflen ctx2 = left_over + add" "sha256_buffer ctx2 = b1"
      by (rule sha256_process_block_at [OF at1, of "take n b1"]) (use nr ln in \<open>simp_all add: ctx1_def\<close>)
    define b2 where "b2 = take r (drop n b1) @ drop r b1"
    have lr: "length (take r (drop n b1)) = r" using nr add lb1 by simp
    have cpy2: "memcpy_at 0 (take r (drop n b1)) b1 = Inr b2" using lr nr lb1 by (simp add: b2_def)
    have fill: "sha256_fill p bs ctx = Inr (p + add, drop add bs, ctx2\<lparr>sha256_buffer := b2, sha256_buflen := r\<rparr>)"
      using False True cpy pb cpy2
      by (simp add: sha256_fill_def Let_def flip: left_over_def add_def ctx1_def n_def r_def)
    have "take n b1 @ take r b2 = take (left_over + add) b1"
      using lr by (simp add: b2_def nr(1) [symmetric] take_add)
    then have "m @ bs = (as @ take n b1 @ take r b2) @ drop add bs" using mbs by simp
    moreover have "sha256_rep (ctx2\<lparr>sha256_buffer := b2, sha256_buflen := r\<rparr>) (as @ take n b1 @ take r b2)"
      by (rule sha256_repI [of _ "as @ take n b1"]) (use pb nr lr lb1 in \<open>simp_all add: b2_def\<close>)
    moreover have "drop add bs = [] \<or> r = 0" using add by (cases "add < length bs") (simp_all add: r_def)
    ultimately show thesis by (intro that [OF fill]) simp_all
  next
    case le: False
    then have all: "add = length bs" using add by linarith
    have fill: "sha256_fill p bs ctx = Inr (p + add, drop add bs, ctx1)"
      using False le cpy by (simp add: sha256_fill_def Let_def flip: left_over_def add_def ctx1_def)
    have "sha256_rep ctx1 (as @ take (left_over + add) b1)"
      by (rule sha256_repI [OF at1]) (use le lb1 in \<open>simp_all add: ctx1_def\<close>)
    then show thesis using mbs all by (intro that [OF fill]) simp_all
  qed
qed


lemma sha256_unaligned_rep:
  assumes "sha256_rep ctx m" and "sha256_buflen ctx = 0"
  shows "\<exists>bs' ctx' m'. sha256_unaligned bs ctx = Inr (bs', ctx') \<and> sha256_rep ctx' m' \<and> m @ bs = m' @ bs' \<and>
    sha256_buflen ctx' = 0 \<and> length bs' \<le> 64"
  using assms
proof (induction bs arbitrary: ctx m rule: length_induct)
  case (1 bs)
  show ?case
  proof (cases "length bs > 64")
    case False
    then have "sha256_unaligned bs ctx = Inr (bs, ctx)" by (subst sha256_unaligned.simps) simp
    with False "1.prems" show ?thesis by (intro exI [of _ bs] exI [of _ ctx] exI [of _ m]) simp
  next
    case True
    from "1.prems" have at: "sha256_at ctx m" and len: "length (sha256_buffer ctx) = 128" by (auto simp: sha256_rep_def)
    define b1 where "b1 = take 64 bs @ drop 64 (sha256_buffer ctx)"
    have b1: "length b1 = 128" "take 64 b1 = take 64 bs" using True len by (simp_all add: b1_def)
    have cpy: "memcpy_at 0 (take 64 bs) (sha256_buffer ctx) = Inr b1" using True len by (simp add: b1_def min_absorb2)
    obtain ctx1 where pb: "sha256_process_block (take 64 b1) (ctx\<lparr>sha256_buffer := b1\<rparr>) = Inr ctx1"
      "sha256_at ctx1 (m @ take 64 b1)" "sha256_buflen ctx1 = 0" "sha256_buffer ctx1 = b1"
      by (rule sha256_process_block_at [of "ctx\<lparr>sha256_buffer := b1\<rparr>" m "take 64 b1"])
        (use at b1 True "1.prems" in simp_all)
    have rep1: "sha256_rep ctx1 (m @ take 64 bs)"
      by (rule sha256_repI [OF pb(2)]) (use pb b1 in simp_all)
    have "sha256_unaligned bs ctx = sha256_unaligned (drop 64 bs) ctx1"
      using True cpy pb(1) by (subst sha256_unaligned.simps) simp
    moreover have "\<exists>bs' ctx' m'. sha256_unaligned (drop 64 bs) ctx1 = Inr (bs', ctx') \<and> sha256_rep ctx' m' \<and>
        (m @ take 64 bs) @ drop 64 bs = m' @ bs' \<and> sha256_buflen ctx' = 0 \<and> length bs' \<le> 64"
      by (rule "1.IH" [rule_format, OF _ rep1 pb(3)]) (use True in simp)
    ultimately show ?thesis by simp
  qed
qed

lemma sha256_whole_rep:
  assumes "sha256_rep ctx m" and "bs = [] \<or> sha256_buflen ctx = 0" and "length bs < 2 ^ 32"
  obtains bs' ctx' m' where "sha256_whole p bs ctx = Inr (bs', ctx')" "sha256_rep ctx' m'" "m @ bs = m' @ bs'"
    "bs' = [] \<or> sha256_buflen ctx' = 0" "length bs' \<le> 64"
proof (cases "length bs \<ge> 64")
  case False
  then show thesis using assms by (intro that [of bs ctx m]) (simp_all add: sha256_whole_def)
next
  case True
  then have b0: "sha256_buflen ctx = 0" using assms(2) by auto
  show thesis
  proof (cases "p mod 4 = 0")
    case False
    then show thesis using sha256_unaligned_rep [OF assms(1) b0, of bs] True that
      by (auto simp: sha256_whole_def)
  next
    case aligned: True
    from assms(1) b0 have at: "sha256_at ctx m" and len: "length (sha256_buffer ctx) = 128" by (auto simp: sha256_rep_def)
    define n where "n = 64 * (length bs div 64)"
    have n: "64 dvd n" "n \<le> length bs" by (simp_all add: n_def)
    obtain ctx1 where pb: "sha256_process_block (take n bs) ctx = Inr ctx1" "sha256_at ctx1 (m @ take n bs)"
      "sha256_buflen ctx1 = sha256_buflen ctx" "sha256_buffer ctx1 = sha256_buffer ctx"
      by (rule sha256_process_block_at [OF at, of "take n bs"]) (use n assms(3) in \<open>simp_all add: min_absorb2\<close>)
    have "sha256_whole p bs ctx = Inr (drop n bs, ctx1)"
      using aligned True pb by (simp add: sha256_whole_def Let_def flip: n_def)
    moreover have "sha256_rep ctx1 (m @ take n bs)"
      by (rule sha256_repI [OF pb(2)]) (use pb b0 len in simp_all)
    moreover have "length (drop n bs) \<le> 64"
    proof -
      have "length bs - n = length bs mod 64" by (simp add: n_def minus_mult_div_eq_mod)
      moreover have "length bs mod 64 < 64" by simp
      ultimately show ?thesis by simp
    qed
    ultimately show thesis using pb(3) b0 by (intro that [of "drop n bs" ctx1 "m @ take n bs"]) simp_all
  qed
qed

lemma sha256_rest_rep:
  assumes "sha256_rep ctx m" and "bs = [] \<or> sha256_buflen ctx = 0" and "length bs \<le> 64"
  shows "\<exists>ctx'. sha256_rest bs ctx = Inr ctx' \<and> sha256_rep ctx' (m @ bs)"
proof (cases "bs = []")
  case True
  then show ?thesis using assms(1) by (simp add: sha256_rest_def)
next
  case False
  then have b0: "sha256_buflen ctx = 0" using assms(2) by simp
  from assms(1) b0 have at: "sha256_at ctx m" and len: "length (sha256_buffer ctx) = 128" by (auto simp: sha256_rep_def)
  define b1 where "b1 = bs @ drop (length bs) (sha256_buffer ctx)"
  have b1: "length b1 = 128" using assms(3) len by (simp add: b1_def)
  have cpy: "memcpy_at 0 bs (sha256_buffer ctx) = Inr b1" using assms(3) len by (simp add: b1_def)
  show ?thesis
  proof (cases "length bs = 64")
    case full: True
    have t64: "take 64 b1 = bs" using full by (simp add: b1_def)
    obtain ctx2 where pb: "sha256_process_block (take 64 b1) (ctx\<lparr>sha256_buffer := b1\<rparr>) = Inr ctx2"
      "sha256_at ctx2 (m @ take 64 b1)" "sha256_buflen ctx2 = 0" "sha256_buffer ctx2 = b1"
      by (rule sha256_process_block_at [of "ctx\<lparr>sha256_buffer := b1\<rparr>" m "take 64 b1"])
        (use at b1 b0 in simp_all)
    have "sha256_rest bs ctx = Inr (ctx2\<lparr>sha256_buffer := b1, sha256_buflen := 0\<rparr>)"
      using False full b0 cpy pb(1) b1 by (simp add: sha256_rest_def Let_def)
    moreover have "sha256_rep (ctx2\<lparr>sha256_buffer := b1, sha256_buflen := 0\<rparr>) (m @ bs)"
      by (rule sha256_repI [of _ "m @ bs"]) (use pb t64 b1 in simp_all)
    ultimately show ?thesis by blast
  next
    case part: False
    have "sha256_rest bs ctx = Inr (ctx\<lparr>sha256_buffer := b1, sha256_buflen := length bs\<rparr>)"
      using False part assms(3) b0 cpy by (simp add: sha256_rest_def Let_def)
    moreover have "sha256_rep (ctx\<lparr>sha256_buffer := b1, sha256_buflen := length bs\<rparr>) (m @ bs)"
      by (rule sha256_repI [of _ m]) (use at b1 assms(3) in \<open>simp_all add: b1_def\<close>)
    ultimately show ?thesis by blast
  qed
qed

lemma sha256_process_bytes_rep:
  assumes "sha256_rep ctx m" and "length bs < 2 ^ 32"
  shows "\<exists>ctx'. sha256_process_bytes p bs ctx = Inr ctx' \<and> sha256_rep ctx' (m @ bs)"
proof -
  obtain p1 bs1 ctx1 m1 where 1: "sha256_fill p bs ctx = Inr (p1, bs1, ctx1)" "sha256_rep ctx1 m1"
    "m @ bs = m1 @ bs1" "bs1 = [] \<or> sha256_buflen ctx1 = 0" "length bs1 \<le> length bs"
    by (rule sha256_fill_rep [OF assms(1)])
  have "length bs1 < 2 ^ 32" using 1(5) assms(2) by linarith
  then obtain bs2 ctx2 m2 where 2: "sha256_whole p1 bs1 ctx1 = Inr (bs2, ctx2)" "sha256_rep ctx2 m2"
    "m1 @ bs1 = m2 @ bs2" "bs2 = [] \<or> sha256_buflen ctx2 = 0" "length bs2 \<le> 64"
    by (rule sha256_whole_rep [OF 1(2,4)])
  from sha256_rest_rep [OF 2(2,4,5)] 1 2 show ?thesis by (simp add: sha256_process_bytes_def)
qed

lemma sha256_finish_pad:
  fixes t0 t1 :: "32 word"
  assumes "64 dvd k" and "length m = k + bytes" and "bytes \<le> 64"
    and "unat t1 * 2 ^ 32 + unat t0 = length m mod 2 ^ 64"
    and "pad = (if bytes \<ge> 56 then 64 + 56 - bytes else 56 - bytes)"
  shows "m @ take pad sha256_fillbuf @ store_be 4 (push_bit 3 t1 OR drop_bit 29 t0) @ store_be 4 (push_bit 3 t0) = sha256_pad m"
proof -
  have pad: "1 \<le> pad" "pad \<le> 64" using assms(3,5) by auto
  have "md_zeros 64 8 (length m) = pad - 1"
  proof (cases "bytes \<ge> 56")
    case True
    then show ?thesis using md_zeros_long [OF assms(1), of bytes 8] assms by simp
  next
    case False
    then show ?thesis using md_zeros_short [OF assms(1), of bytes 8] assms by simp
  qed
  moreover have "take pad sha256_fillbuf = 0x80 # replicate (pad - 1) 0"
    using pad by (simp add: sha256_fillbuf_def take_Cons' min_def)
  moreover have "store_be 4 (push_bit 3 t1 OR drop_bit 29 t0) @ store_be 4 (push_bit 3 t0) = store_be 8 (word_of_nat (8 * length m) :: 64 word)"
    using store_be_bits [where 'b = 64, of t1 t0 "length m" 4] assms(4) by simp
  ultimately show ?thesis by (simp add: sha256_pad_def)
qed

lemma sha256_digest_eq:
  "sha256_H ctx = sha256_H_of (sha256_state (sha256_pad m)) \<Longrightarrow>
   concat (map (\<lambda>i. store_le 4 (sha256_SWAP (sha256_H ctx ! i))) [0..<8]) = sha256 m"
  by (cases "sha256_state (sha256_pad m)" rule: sha256_H_of.cases)
    (simp add: sha256_SWAP_store sha256_def upt_rec flip: sha256_state_def)

lemma sha256_finish_rep:
  assumes "sha256_rep ctx m"
  shows "\<exists>ctx'. sha256_finish_ctx ctx = Inr (ctx', sha256 m) \<and> length (sha256_buffer ctx') = 128"
proof -
  from assms obtain as where at: "sha256_at ctx as" and m: "m = as @ take (sha256_buflen ctx) (sha256_buffer ctx)"
    and len: "length (sha256_buffer ctx) = 128" "sha256_buflen ctx \<le> 64" by (auto simp: sha256_rep_def)
  define bytes where "bytes = sha256_buflen ctx"
  define ctx1 where "ctx1 = sha256_count bytes ctx"
  define pad where "pad = (if bytes \<ge> 56 then 64 + 56 - bytes else 56 - bytes)"
  define hi where "hi = push_bit 3 (sha256_total1 ctx1) OR drop_bit 29 (sha256_total0 ctx1)"
  define lo where "lo = push_bit 3 (sha256_total0 ctx1)"
  have bytes: "bytes \<le> 64" using len by (simp add: bytes_def)
  have pad: "pad \<le> 64" "bytes + pad + 8 \<le> 128" "64 dvd bytes + pad + 8" using bytes by (auto simp: pad_def)
  have lm: "length m = length as + bytes" using len by (simp add: m bytes_def)
  have "unat (sha256_total1 ctx1) * 2 ^ 32 + unat (sha256_total0 ctx1) = length m mod 2 ^ 64"
    unfolding sha256_total_def [symmetric] ctx1_def
    using sha256_total_count [of bytes ctx] bytes at by (simp add: sha256_at_def lm mod_add_left_eq)
  then have tail: "m @ take pad sha256_fillbuf @ store_be 4 hi @ store_be 4 lo = sha256_pad m"
    unfolding hi_def lo_def using at lm bytes pad_def
    by (intro sha256_finish_pad [of "length as" m bytes]) (simp_all add: sha256_at_def)
  have lfill: "length (take pad sha256_fillbuf) = pad" using pad by (simp add: sha256_fillbuf_def)
  obtain b3 where b3: "\<And>F. res_bind (memcpy_at bytes (take pad sha256_fillbuf) (sha256_buffer ctx)) (\<lambda>b1.
         res_bind (memcpy_at (bytes + pad + 4) (store_be 4 lo) b1) (\<lambda>b2.
         res_bind (memcpy_at (bytes + pad) (store_be 4 hi) b2) F)) = (F b3 :: (sha256_ctx \<times> byte list) res)"
    and l3: "length b3 = 128"
    and t3: "take (bytes + pad + 8) b3 = take bytes (sha256_buffer ctx) @ take pad sha256_fillbuf @ store_be 4 hi @ store_be 4 lo"
    using memcpy_tail [of bytes "take pad sha256_fillbuf" "store_be 4 hi" "store_be 4 lo" "sha256_buffer ctx"] pad len lfill
    by (simp add: add.assoc)
  have l8: "length (take (bytes + pad + 8) b3) = bytes + pad + 8" using l3 pad by simp
  have at1: "sha256_H (ctx1\<lparr>sha256_buffer := b3\<rparr>) = sha256_H_of (sha256_state as)" "64 dvd length as"
    using at by (simp_all add: ctx1_def sha256_at_def)
  obtain ctx2 where pb: "sha256_process_block (take (bytes + pad + 8) b3) (ctx1\<lparr>sha256_buffer := b3\<rparr>) = Inr ctx2"
    and H2: "sha256_H ctx2 = sha256_H_of (sha256_state (as @ take (bytes + pad + 8) b3))" and b2: "sha256_buffer ctx2 = b3"
    by (rule sha256_process_block_H [OF at1, of "take (bytes + pad + 8) b3"]) (use pad l8 in simp_all)
  have "as @ take (bytes + pad + 8) b3 = sha256_pad m" unfolding t3 using tail by (simp add: m bytes_def)
  then have dig: "concat (map (\<lambda>i. store_le 4 (sha256_SWAP (sha256_H ctx2 ! i))) [0..<8]) = sha256 m"
    by (intro sha256_digest_eq) (simp add: H2)
  have "sha256_finish_ctx ctx = Inr (ctx2, sha256 m)"
    using b3 pb dig
    by (simp add: sha256_finish_ctx_def Let_def sha256_SWAP_store flip: bytes_def ctx1_def pad_def lo_def hi_def)
  then show ?thesis using b2 l3 by simp
qed


subsection \<open>The digest interface\<close>

definition sha256_ops :: "sha256_ctx digest_ops" where
  "sha256_ops = \<lparr>op_init = sha256_init_ctx, op_process = sha256_process_bytes, op_finish = sha256_finish_ctx,
     op_len = 32, op_align = 4\<rparr>"

definition sha256_ctx_ok :: "sha256_ctx \<Rightarrow> bool" where
  "sha256_ctx_ok ctx \<longleftrightarrow> length (sha256_buffer ctx) = 128"

lemma length_sha256: "length (sha256 m) = 32"
  by (cases "foldl sha256_compress sha256_IV (chunks 64 (sha256_pad m))" rule: sha256_H_of.cases)
    (simp add: sha256_def)

interpretation d256: digest sha256_ops sha256 sha256_ctx_ok sha256_rep
  by unfold_locales
    (simp_all add: sha256_ops_def sha256_ctx_ok_def sha256_rep_init sha256_process_bytes_rep sha256_finish_rep length_sha256)

text \<open>
  However a message is cut into pieces and wherever the pieces lie in memory, the SHA-256 of the
  program never faults and yields the SHA-256 of FIPS 180-2 of the whole message.
\<close>

theorem sha256_pieces:
  assumes "length (sha256_buffer ctx) = 128" and "\<forall>(p, bs) \<in> set pieces. length bs < 2 ^ 32"
  shows "\<exists>ctx'. res_bind (res_fold (\<lambda>(p, bs). sha256_process_bytes p bs) pieces (sha256_init_ctx ctx)) sha256_finish_ctx
    = Inr (ctx', sha256 (concat (map snd pieces)))"
  using d256.hash_pieces [of ctx pieces] assms
  by (auto simp: op_pieces_def sha256_ops_def sha256_ctx_ok_def)

end
