(* ===== verification/Sha512.thy ===== *)
theory Sha512
  imports Digest
begin

text \<open>
  The SHA-512 of \<^verbatim>\<open>crypt/crypt_sha512.c\<close>: the context, the compression of whole blocks, the buffering
  of input that comes in pieces (\<^verbatim>\<open>sha512_process_bytes\<close>) and the padding (\<^verbatim>\<open>sha512_finish_ctx\<close>), for a
  little-endian machine.  A write outside of the context's buffer, or a block read past the end
  of its input, is the fault \<open>Out_Of_Bounds\<close>.  The address of an input matters to the code, which
  treats unaligned input differently, and is an argument.

  The lemmas show that the pieces are hashed as one message: whatever the pieces, their
  addresses and the initial contents of the buffer, the digest is \<open>sha512\<close> of their
  concatenation, where \<open>sha512\<close> is the function of FIPS 180-2, and no step faults.
\<close>

unbundle bit_operations_syntax

subsection \<open>The code\<close>

record sha512_ctx =
  sha512_H :: "64 word list"
  sha512_total0 :: "64 word"
  sha512_total1 :: "64 word"
  sha512_buflen :: nat
  sha512_buffer :: "byte list"

type_synonym sha512_vars =
  "64 word \<times> 64 word \<times> 64 word \<times> 64 word \<times> 64 word \<times> 64 word \<times> 64 word \<times> 64 word"

definition sha512_SWAP :: "64 word \<Rightarrow> 64 word" where
  "sha512_SWAP n = push_bit 56 n
     OR push_bit 40 (n AND 0xff00) OR push_bit 24 (n AND 0xff0000) OR push_bit 8 (n AND 0xff000000)
     OR (drop_bit 8 n AND 0xff000000) OR (drop_bit 24 n AND 0xff0000) OR (drop_bit 40 n AND 0xff00)
     OR drop_bit 56 n"

definition sha512_fillbuf :: "byte list" where
  "sha512_fillbuf = 0x80 # replicate 127 0"

definition sha512_K :: "64 word list" where
  "sha512_K =
    [0x428a2f98d728ae22, 0x7137449123ef65cd,
     0xb5c0fbcfec4d3b2f, 0xe9b5dba58189dbbc,
     0x3956c25bf348b538, 0x59f111f1b605d019,
     0x923f82a4af194f9b, 0xab1c5ed5da6d8118,
     0xd807aa98a3030242, 0x12835b0145706fbe,
     0x243185be4ee4b28c, 0x550c7dc3d5ffb4e2,
     0x72be5d74f27b896f, 0x80deb1fe3b1696b1,
     0x9bdc06a725c71235, 0xc19bf174cf692694,
     0xe49b69c19ef14ad2, 0xefbe4786384f25e3,
     0x0fc19dc68b8cd5b5, 0x240ca1cc77ac9c65,
     0x2de92c6f592b0275, 0x4a7484aa6ea6e483,
     0x5cb0a9dcbd41fbd4, 0x76f988da831153b5,
     0x983e5152ee66dfab, 0xa831c66d2db43210,
     0xb00327c898fb213f, 0xbf597fc7beef0ee4,
     0xc6e00bf33da88fc2, 0xd5a79147930aa725,
     0x06ca6351e003826f, 0x142929670a0e6e70,
     0x27b70a8546d22ffc, 0x2e1b21385c26c926,
     0x4d2c6dfc5ac42aed, 0x53380d139d95b3df,
     0x650a73548baf63de, 0x766a0abb3c77b2a8,
     0x81c2c92e47edaee6, 0x92722c851482353b,
     0xa2bfe8a14cf10364, 0xa81a664bbc423001,
     0xc24b8b70d0f89791, 0xc76c51a30654be30,
     0xd192e819d6ef5218, 0xd69906245565a910,
     0xf40e35855771202a, 0x106aa07032bbd1b8,
     0x19a4c116b8d2d0c8, 0x1e376c085141ab53,
     0x2748774cdf8eeb99, 0x34b0bcb5e19b48a8,
     0x391c0cb3c5c95a63, 0x4ed8aa4ae3418acb,
     0x5b9cca4f7763e373, 0x682e6ff3d6b2b8a3,
     0x748f82ee5defb2fc, 0x78a5636f43172f60,
     0x84c87814a1f0ab72, 0x8cc702081a6439ec,
     0x90befffa23631e28, 0xa4506cebde82bde9,
     0xbef9a3f7b2c67915, 0xc67178f2e372532b,
     0xca273eceea26619c, 0xd186b8c721c0c207,
     0xeada7dd6cde0eb1e, 0xf57d4f7fee6ed178,
     0x06f067aa72176fba, 0x0a637dc5a2c898a6,
     0x113f9804bef90dae, 0x1b710b35131c471b,
     0x28db77f523047d84, 0x32caab7b40c72493,
     0x3c9ebe0a15c9bebc, 0x431d67c49c100d4c,
     0x4cc5d4becb3e42b6, 0x597f299cfc657e2a,
     0x5fcb6fab3ad6faec, 0x6c44198c4a475817]"

definition sha512_CYCLIC :: "64 word \<Rightarrow> nat \<Rightarrow> 64 word" where
  "sha512_CYCLIC w s = drop_bit s w OR push_bit (64 - s) w"

definition sha512_Ch :: "64 word \<Rightarrow> 64 word \<Rightarrow> 64 word \<Rightarrow> 64 word" where
  "sha512_Ch x y z = (x AND y) XOR (NOT x AND z)"

definition sha512_Maj :: "64 word \<Rightarrow> 64 word \<Rightarrow> 64 word \<Rightarrow> 64 word" where
  "sha512_Maj x y z = (x AND y) XOR (x AND z) XOR (y AND z)"

definition sha512_S0 :: "64 word \<Rightarrow> 64 word" where
  "sha512_S0 x = sha512_CYCLIC x 28 XOR sha512_CYCLIC x 34 XOR sha512_CYCLIC x 39"

definition sha512_S1 :: "64 word \<Rightarrow> 64 word" where
  "sha512_S1 x = sha512_CYCLIC x 14 XOR sha512_CYCLIC x 18 XOR sha512_CYCLIC x 41"

definition sha512_R0 :: "64 word \<Rightarrow> 64 word" where
  "sha512_R0 x = sha512_CYCLIC x 1 XOR sha512_CYCLIC x 8 XOR drop_bit 7 x"

definition sha512_R1 :: "64 word \<Rightarrow> 64 word" where
  "sha512_R1 x = sha512_CYCLIC x 19 XOR sha512_CYCLIC x 61 XOR drop_bit 6 x"

definition sha512_schedule :: "64 word list \<Rightarrow> 64 word list" where
  "sha512_schedule words =
     fold (\<lambda>t W. W @ [sha512_R1 (W ! (t - 2)) + W ! (t - 7) + sha512_R0 (W ! (t - 15)) + W ! (t - 16)])
       [16..<80] (map sha512_SWAP (take 16 words))"

fun sha512_round :: "64 word list \<Rightarrow> nat \<Rightarrow> sha512_vars \<Rightarrow> sha512_vars" where
  "sha512_round W t (a, b, c, d, e, f, g, h) =
     (let T1 = h + sha512_S1 e + sha512_Ch e f g + sha512_K ! t + W ! t;
          T2 = sha512_S0 a + sha512_Maj a b c
      in (T1 + T2, a, b, c, d + T1, e, f, g))"

fun sha512_add_vars :: "sha512_vars \<Rightarrow> sha512_vars \<Rightarrow> sha512_vars" where
  "sha512_add_vars (a, b, c, d, e, f, g, h) (a', b', c', d', e', f', g', h') =
     (a + a', b + b', c + c', d + d', e + e', f + f', g + g', h + h')"

definition sha512_one_block :: "64 word list \<Rightarrow> sha512_vars \<Rightarrow> sha512_vars" where
  "sha512_one_block words save =
     sha512_add_vars (fold (sha512_round (sha512_schedule words)) [0..<80] save) save"

text \<open>The loop over \<^verbatim>\<open>nwords\<close>: with fewer than 16 words left it reads past the end of the input.\<close>

fun sha512_blocks :: "64 word list \<Rightarrow> sha512_vars \<Rightarrow> sha512_vars res" where
  "sha512_blocks words vars =
     (if words = [] then Inr vars
      else if length words < 16 then Inl Out_Of_Bounds
      else sha512_blocks (drop 16 words) (sha512_one_block words vars))"

declare sha512_blocks.simps [simp del]

definition sha512_vars_of :: "64 word list \<Rightarrow> sha512_vars" where
  "sha512_vars_of H = (H ! 0, H ! 1, H ! 2, H ! 3, H ! 4, H ! 5, H ! 6, H ! 7)"

fun sha512_H_of :: "sha512_vars \<Rightarrow> 64 word list" where
  "sha512_H_of (a, b, c, d, e, f, g, h) = [a, b, c, d, e, f, g, h]"

definition sha512_count :: "nat \<Rightarrow> sha512_ctx \<Rightarrow> sha512_ctx" where
  "sha512_count len ctx =
     (let total0 = sha512_total0 ctx + word_of_nat len
      in ctx\<lparr>sha512_total0 := total0,
             sha512_total1 := sha512_total1 ctx + (if unat total0 < len then 1 else 0)\<rparr>)"

definition sha512_process_block :: "byte list \<Rightarrow> sha512_ctx \<Rightarrow> sha512_ctx res" where
  "sha512_process_block buffer ctx =
     (let nwords = length buffer div 8;
          words = map load_le (chunks 8 (take (8 * nwords) buffer))
      in res_bind (sha512_blocks words (sha512_vars_of (sha512_H ctx))) (\<lambda>vars.
           Inr ((sha512_count (length buffer) ctx)\<lparr>sha512_H := sha512_H_of vars\<rparr>)))"

definition sha512_init_ctx :: "sha512_ctx \<Rightarrow> sha512_ctx" where
  "sha512_init_ctx ctx =
     ctx\<lparr>sha512_H := [0x6a09e667f3bcc908, 0xbb67ae8584caa73b, 0x3c6ef372fe94f82b, 0xa54ff53a5f1d36f1,
           0x510e527fade682d1, 0x9b05688c2b3e6c1f, 0x1f83d9abfb41bd6b, 0x5be0cd19137e2179],
         sha512_total0 := 0, sha512_total1 := 0, sha512_buflen := 0\<rparr>"

definition sha512_finish_ctx :: "sha512_ctx \<Rightarrow> (sha512_ctx \<times> byte list) res" where
  "sha512_finish_ctx ctx0 =
     (let bytes = sha512_buflen ctx0;
          ctx = sha512_count bytes ctx0;
          pad = (if bytes \<ge> 112 then 128 + 112 - bytes else 112 - bytes)
      in res_bind (memcpy_at bytes (take pad sha512_fillbuf) (sha512_buffer ctx)) (\<lambda>b1.
         res_bind (memcpy_at (bytes + pad + 8) (store_le 8 (sha512_SWAP (push_bit 3 (sha512_total0 ctx)))) b1) (\<lambda>b2.
         res_bind (memcpy_at (bytes + pad) (store_le 8 (sha512_SWAP (push_bit 3 (sha512_total1 ctx) OR drop_bit 61 (sha512_total0 ctx)))) b2) (\<lambda>b3.
         res_bind (sha512_process_block (take (bytes + pad + 16) b3) (ctx\<lparr>sha512_buffer := b3\<rparr>)) (\<lambda>ctx'.
         Inr (ctx', concat (map (\<lambda>i. store_le 8 (sha512_SWAP (sha512_H ctx' ! i))) [0..<8])))))))"

text \<open>\<^verbatim>\<open>sha512_process_bytes\<close>: the bytes that top up the buffer, then whole blocks, then the rest.\<close>

definition sha512_fill :: "nat \<Rightarrow> byte list \<Rightarrow> sha512_ctx \<Rightarrow> (nat \<times> byte list \<times> sha512_ctx) res" where
  "sha512_fill p buffer ctx =
     (if sha512_buflen ctx = 0 then Inr (p, buffer, ctx)
      else (let left_over = sha512_buflen ctx;
                add = (if 256 - left_over > length buffer then length buffer else 256 - left_over)
            in res_bind (memcpy_at left_over (take add buffer) (sha512_buffer ctx)) (\<lambda>b1.
               let ctx1 = ctx\<lparr>sha512_buffer := b1, sha512_buflen := left_over + add\<rparr> in
               if sha512_buflen ctx1 > 128
               then res_bind (sha512_process_block (take (128 * (sha512_buflen ctx1 div 128)) b1) ctx1) (\<lambda>ctx2.
                    let buflen = sha512_buflen ctx2 mod 128 in
                    res_bind (memcpy_at 0 (take buflen (drop (128 * ((left_over + add) div 128)) b1)) b1) (\<lambda>b2.
                    Inr (p + add, drop add buffer, ctx2\<lparr>sha512_buffer := b2, sha512_buflen := buflen\<rparr>)))
               else Inr (p + add, drop add buffer, ctx1))))"

fun sha512_unaligned :: "byte list \<Rightarrow> sha512_ctx \<Rightarrow> (byte list \<times> sha512_ctx) res" where
  "sha512_unaligned buffer ctx =
     (if length buffer > 128
      then res_bind (memcpy_at 0 (take 128 buffer) (sha512_buffer ctx)) (\<lambda>b1.
           res_bind (sha512_process_block (take 128 b1) (ctx\<lparr>sha512_buffer := b1\<rparr>)) (\<lambda>ctx1.
           sha512_unaligned (drop 128 buffer) ctx1))
      else Inr (buffer, ctx))"

declare sha512_unaligned.simps [simp del]

definition sha512_whole :: "nat \<Rightarrow> byte list \<Rightarrow> sha512_ctx \<Rightarrow> (byte list \<times> sha512_ctx) res" where
  "sha512_whole p buffer ctx =
     (if length buffer \<ge> 128
      then if p mod 8 \<noteq> 0 then sha512_unaligned buffer ctx
           else (let n = 128 * (length buffer div 128) in
             res_bind (sha512_process_block (take n buffer) ctx) (\<lambda>ctx1. Inr (drop n buffer, ctx1)))
      else Inr (buffer, ctx))"

definition sha512_rest :: "byte list \<Rightarrow> sha512_ctx \<Rightarrow> sha512_ctx res" where
  "sha512_rest buffer ctx =
     (if length buffer > 0
      then res_bind (memcpy_at (sha512_buflen ctx) buffer (sha512_buffer ctx)) (\<lambda>b1.
           let left_over = sha512_buflen ctx + length buffer; ctx1 = ctx\<lparr>sha512_buffer := b1\<rparr> in
           if left_over \<ge> 128
           then res_bind (sha512_process_block (take 128 b1) ctx1) (\<lambda>ctx2.
                res_bind (memcpy_at 0 (take (left_over - 128) (drop 128 b1)) b1) (\<lambda>b2.
                Inr (ctx2\<lparr>sha512_buffer := b2, sha512_buflen := left_over - 128\<rparr>)))
           else Inr (ctx1\<lparr>sha512_buflen := left_over\<rparr>))
      else Inr ctx)"

definition sha512_process_bytes :: "nat \<Rightarrow> byte list \<Rightarrow> sha512_ctx \<Rightarrow> sha512_ctx res" where
  "sha512_process_bytes p buffer ctx =
     res_bind (sha512_fill p buffer ctx) (\<lambda>(p1, buffer1, ctx1).
     res_bind (sha512_whole p1 buffer1 ctx1) (\<lambda>(buffer2, ctx2).
     sha512_rest buffer2 ctx2))"


subsection \<open>The function of FIPS 180-2\<close>

definition sha512_pad :: "byte list \<Rightarrow> byte list" where
  "sha512_pad m =
     m @ 0x80 # replicate (md_zeros 128 16 (length m)) 0 @ store_be 16 (word_of_nat (8 * length m) :: 128 word)"

fun sha512_W :: "64 word list \<Rightarrow> nat \<Rightarrow> 64 word" where
  "sha512_W M t =
     (if t < 16 then M ! t
      else sha512_R1 (sha512_W M (t - 2)) + sha512_W M (t - 7) + sha512_R0 (sha512_W M (t - 15)) + sha512_W M (t - 16))"

declare sha512_W.simps [simp del]

definition sha512_compress :: "sha512_vars \<Rightarrow> byte list \<Rightarrow> sha512_vars" where
  "sha512_compress H block =
     (let W = map (sha512_W (map load_be (chunks 8 block))) [0..<80]
      in sha512_add_vars (fold (sha512_round W) [0..<80] H) H)"

definition sha512_IV :: sha512_vars where
  "sha512_IV = (0x6a09e667f3bcc908, 0xbb67ae8584caa73b, 0x3c6ef372fe94f82b, 0xa54ff53a5f1d36f1,
     0x510e527fade682d1, 0x9b05688c2b3e6c1f, 0x1f83d9abfb41bd6b, 0x5be0cd19137e2179)"

definition sha512 :: "byte list \<Rightarrow> byte list" where
  "sha512 m = concat (map (store_be 8) (sha512_H_of (foldl sha512_compress sha512_IV (chunks 128 (sha512_pad m)))))"

subsection \<open>Blocks\<close>

lemma sha512_SWAP_masks:
  "sha512_SWAP w = push_bit 56 w
     OR push_bit 40 (w AND push_bit 8 (mask 8)) OR push_bit 24 (w AND push_bit 16 (mask 8)) OR push_bit 8 (w AND push_bit 24 (mask 8))
     OR (drop_bit 8 w AND push_bit 24 (mask 8)) OR (drop_bit 24 w AND push_bit 16 (mask 8)) OR (drop_bit 40 w AND push_bit 8 (mask 8))
     OR drop_bit 56 w"
  by (simp add: sha512_SWAP_def mask_eq_exp_minus_1 push_bit_eq_mult)

lemma bit_sha512_SWAP_low:
  assumes "r < 8"
  shows "bit (sha512_SWAP w) r \<longleftrightarrow> bit w (56 + r)" "bit (sha512_SWAP w) (8 + r) \<longleftrightarrow> bit w (48 + r)"
    "bit (sha512_SWAP w) (16 + r) \<longleftrightarrow> bit w (40 + r)" "bit (sha512_SWAP w) (24 + r) \<longleftrightarrow> bit w (32 + r)"
  using assms
  by (simp_all add: sha512_SWAP_masks bit_or_iff bit_and_iff bit_push_bit_iff bit_drop_bit_eq bit_mask_iff bit_word_high)

lemma bit_sha512_SWAP_high:
  assumes "r < 8"
  shows "bit (sha512_SWAP w) (32 + r) \<longleftrightarrow> bit w (24 + r)" "bit (sha512_SWAP w) (40 + r) \<longleftrightarrow> bit w (16 + r)"
    "bit (sha512_SWAP w) (48 + r) \<longleftrightarrow> bit w (8 + r)" "bit (sha512_SWAP w) (56 + r) \<longleftrightarrow> bit w r"
  using assms
  by (simp_all add: sha512_SWAP_masks bit_or_iff bit_and_iff bit_push_bit_iff bit_drop_bit_eq bit_mask_iff bit_word_high)

lemma sha512_SWAP_eq: "sha512_SWAP w = load_be (store_le 8 w)"
proof (rule bit_word_eqI)
  fix i assume "i < LENGTH(64)"
  then have i: "i < 64" by simp
  define k r where "k = i div 8" and "r = i mod 8"
  have ikr: "i = 8 * k + r" "r < 8" "k < 8" using i by (auto simp: k_def r_def)
  have "bit (load_be (store_le 8 w) :: 64 word) i = bit w (8 * (7 - k) + r)"
    unfolding ikr(1) using ikr(2,3) by (simp add: bit_load_be_byte bit_store_le)
  moreover have "k = 0 \<or> k = 1 \<or> k = 2 \<or> k = 3 \<or> k = 4 \<or> k = 5 \<or> k = 6 \<or> k = 7" using ikr(3) by linarith
  then have "bit (sha512_SWAP w) i = bit w (8 * (7 - k) + r)"
    unfolding ikr(1) using ikr(2) by (elim disjE) (simp_all add: bit_sha512_SWAP_low bit_sha512_SWAP_high)
  ultimately show "bit (sha512_SWAP w) i = bit (load_be (store_le 8 w) :: 64 word) i" by simp
qed

lemma sha512_SWAP_load: "length bs = 8 \<Longrightarrow> sha512_SWAP (load_le bs) = load_be bs"
  by (simp add: sha512_SWAP_eq store_load_le)

lemma sha512_SWAP_store: "store_le 8 (sha512_SWAP w) = store_be 8 w"
  by (simp add: sha512_SWAP_eq load_be_def store_be_def store_load_le)

lemma sha512_schedule_eq:
  assumes "length M = 16" and "map sha512_SWAP (take 16 words) = M"
  shows "sha512_schedule words = map (sha512_W M) [0..<80]"
  unfolding sha512_schedule_def assms(2)
proof (rule fold_snoc_eq_map)
  show "M = map (sha512_W M) [0..<16]"
    by (rule nth_equalityI) (simp_all add: assms(1) sha512_W.simps)
next
  fix t W assume t: "16 \<le> t" "t < 80" and W: "W = map (sha512_W M) [0..<t]"
  show "sha512_R1 (W ! (t - 2)) + W ! (t - 7) + sha512_R0 (W ! (t - 15)) + W ! (t - 16) = sha512_W M t"
    using t by (subst sha512_W.simps) (simp add: W)
qed simp

lemma sha512_one_block_eq:
  assumes "length block = 128"
  shows "sha512_one_block (map load_le (chunks 8 block) @ rest) H = sha512_compress H block"
proof -
  have len: "length (chunks 8 block) = 16" using assms by (subst length_chunks) simp_all
  have "map sha512_SWAP (take 16 (map load_le (chunks 8 block) @ rest)) = map load_be (chunks 8 block)"
    using len chunks_length [of 8 block] assms by (simp add: sha512_SWAP_load)
  then show ?thesis
    using sha512_schedule_eq [of "map load_be (chunks 8 block)"] len
    by (simp add: sha512_one_block_def sha512_compress_def)
qed

lemma sha512_blocks_eq:
  "128 dvd length bs \<Longrightarrow> sha512_blocks (map load_le (chunks 8 bs)) H = Inr (foldl sha512_compress H (chunks 128 bs))"
proof (induction "128 :: nat" bs arbitrary: H rule: chunks.induct)
  case (1 bs)
  show ?case
  proof (cases "bs = []")
    case True
    then show ?thesis by (simp add: sha512_blocks.simps)
  next
    case False
    with "1.prems" have len: "128 \<le> length bs" by (auto intro: dvd_imp_le)
    have split: "chunks 8 bs = chunks 8 (take 128 bs) @ chunks 8 (drop 128 bs)"
      using chunks_append_aligned [of 8 "take 128 bs" "drop 128 bs"] len by simp
    have len16: "length (chunks 8 (take 128 bs)) = 16" using len by (subst length_chunks) simp_all
    then have ne: "chunks 8 (take 128 bs) \<noteq> []" by auto
    have "sha512_blocks (map load_le (chunks 8 bs)) H
        = sha512_blocks (map load_le (chunks 8 (drop 128 bs))) (sha512_compress H (take 128 bs))"
      using len len16 ne by (subst sha512_blocks.simps) (simp add: split sha512_one_block_eq)
    also have "\<dots> = Inr (foldl sha512_compress (sha512_compress H (take 128 bs)) (chunks 128 (drop 128 bs)))"
      using "1.hyps" False "1.prems" by simp
    also have "\<dots> = Inr (foldl sha512_compress H (chunks 128 bs))"
      using False by (subst (2) chunks.simps) simp
    finally show ?thesis .
  qed
qed

text \<open>The state after the blocks \<open>bs\<close>, and the two words of the byte count read as one number.\<close>

definition sha512_state :: "byte list \<Rightarrow> sha512_vars" where
  "sha512_state bs = foldl sha512_compress sha512_IV (chunks 128 bs)"

definition sha512_total :: "sha512_ctx \<Rightarrow> nat" where
  "sha512_total ctx = unat (sha512_total1 ctx) * 2 ^ 64 + unat (sha512_total0 ctx)"

lemma sha512_state_append:
  "128 dvd length as \<Longrightarrow> foldl sha512_compress (sha512_state as) (chunks 128 bs) = sha512_state (as @ bs)"
  by (simp add: sha512_state_def chunks_append_aligned)

lemma sha512_vars_H [simp]: "sha512_vars_of (sha512_H_of v) = v"
  by (cases v rule: sha512_H_of.cases) (simp add: sha512_vars_of_def)

lemma sha512_count_simps [simp]:
  "sha512_H (sha512_count n ctx) = sha512_H ctx"
  "sha512_buflen (sha512_count n ctx) = sha512_buflen ctx"
  "sha512_buffer (sha512_count n ctx) = sha512_buffer ctx"
  by (simp_all add: sha512_count_def Let_def)

lemma sha512_total_count:
  "len < 2 ^ 64 \<Longrightarrow> sha512_total (sha512_count len ctx) = (sha512_total ctx + len) mod 2 ^ 128"
  using two_word_count [of len "sha512_total1 ctx" "sha512_total0 ctx"]
  by (simp add: sha512_total_def sha512_count_def Let_def)


subsection \<open>A context stands for the bytes it was given\<close>

text \<open>
  \<open>sha512_at ctx as\<close>: the blocks \<open>as\<close> have been compressed.  \<open>sha512_rep ctx m\<close>: the context has
  been given the message \<open>m\<close>, of which the last bytes may still be in its buffer.
\<close>

definition sha512_at :: "sha512_ctx \<Rightarrow> byte list \<Rightarrow> bool" where
  "sha512_at ctx as \<longleftrightarrow> 128 dvd length as \<and> sha512_H ctx = sha512_H_of (sha512_state as) \<and>
     sha512_total ctx = length as mod 2 ^ 128"

definition sha512_rep :: "sha512_ctx \<Rightarrow> byte list \<Rightarrow> bool" where
  "sha512_rep ctx m \<longleftrightarrow> length (sha512_buffer ctx) = 256 \<and> sha512_buflen ctx \<le> 128 \<and>
     (\<exists>as. sha512_at ctx as \<and> m = as @ take (sha512_buflen ctx) (sha512_buffer ctx))"

lemma sha512_at_update [simp]:
  "sha512_at (ctx\<lparr>sha512_buffer := b\<rparr>) as = sha512_at ctx as"
  "sha512_at (ctx\<lparr>sha512_buflen := n\<rparr>) as = sha512_at ctx as"
  by (simp_all add: sha512_at_def sha512_total_def)

lemma sha512_repI:
  "sha512_at ctx as \<Longrightarrow> m = as @ take (sha512_buflen ctx) (sha512_buffer ctx) \<Longrightarrow>
   sha512_buflen ctx \<le> 128 \<Longrightarrow> length (sha512_buffer ctx) = 256 \<Longrightarrow> sha512_rep ctx m"
  by (auto simp: sha512_rep_def)

lemma sha512_process_block_H:
  assumes "sha512_H ctx = sha512_H_of (sha512_state as)" and "128 dvd length as" and "128 dvd length bs"
  obtains ctx' where "sha512_process_block bs ctx = Inr ctx'" "sha512_H ctx' = sha512_H_of (sha512_state (as @ bs))"
    "sha512_buffer ctx' = sha512_buffer ctx" "sha512_buflen ctx' = sha512_buflen ctx"
    "sha512_total ctx' = sha512_total (sha512_count (length bs) ctx)"
proof -
  define ctx' where "ctx' = (sha512_count (length bs) ctx)\<lparr>sha512_H := sha512_H_of (sha512_state (as @ bs))\<rparr>"
  have "8 dvd length bs" using assms(3) dvd_trans [of 8 128 "length bs"] by simp
  then have "sha512_process_block bs ctx = Inr ctx'"
    using assms(1,2) sha512_blocks_eq [OF assms(3)]
    by (simp add: sha512_process_block_def Let_def sha512_state_append ctx'_def)
  then show thesis by (rule that) (simp_all add: ctx'_def sha512_total_def)
qed

lemma sha512_process_block_at:
  assumes "sha512_at ctx as" and "128 dvd length bs" and "length bs < 2 ^ 64"
  obtains ctx' where "sha512_process_block bs ctx = Inr ctx'" "sha512_at ctx' (as @ bs)"
    "sha512_buflen ctx' = sha512_buflen ctx" "sha512_buffer ctx' = sha512_buffer ctx"
proof -
  have H: "sha512_H ctx = sha512_H_of (sha512_state as)" "128 dvd length as" using assms(1) by (simp_all add: sha512_at_def)
  obtain ctx' where c: "sha512_process_block bs ctx = Inr ctx'" "sha512_H ctx' = sha512_H_of (sha512_state (as @ bs))"
    "sha512_buffer ctx' = sha512_buffer ctx" "sha512_buflen ctx' = sha512_buflen ctx"
    "sha512_total ctx' = sha512_total (sha512_count (length bs) ctx)"
    by (rule sha512_process_block_H [OF H assms(2)])
  have "sha512_total ctx' = length (as @ bs) mod 2 ^ 128"
    using assms(1) sha512_total_count [OF assms(3), of ctx] c(5) by (simp add: sha512_at_def mod_add_left_eq)
  with c assms(2) H(2) have "sha512_at ctx' (as @ bs)" by (simp add: sha512_at_def)
  with c show thesis by (intro that)
qed

lemma sha512_rep_init:
  assumes "length (sha512_buffer ctx) = 256"
  shows "sha512_rep (sha512_init_ctx ctx) []"
proof (rule sha512_repI)
  show "sha512_at (sha512_init_ctx ctx) []"
    by (simp add: sha512_at_def sha512_init_ctx_def sha512_state_def sha512_IV_def sha512_total_def)
qed (simp_all add: sha512_init_ctx_def assms)

lemma sha512_fill_rep:
  assumes "sha512_rep ctx m"
  obtains p' bs' ctx' m' where "sha512_fill p bs ctx = Inr (p', bs', ctx')" "sha512_rep ctx' m'" "m @ bs = m' @ bs'"
    "bs' = [] \<or> sha512_buflen ctx' = 0" "length bs' \<le> length bs"
proof (cases "sha512_buflen ctx = 0")
  case True
  show thesis by (rule that [of p bs ctx m]) (use True assms in \<open>simp_all add: sha512_fill_def\<close>)
next
  case False
  from assms obtain as where at: "sha512_at ctx as" and m: "m = as @ take (sha512_buflen ctx) (sha512_buffer ctx)"
    and len: "length (sha512_buffer ctx) = 256" "sha512_buflen ctx \<le> 128" by (auto simp: sha512_rep_def)
  define left_over where "left_over = sha512_buflen ctx"
  define add where "add = (if 256 - left_over > length bs then length bs else 256 - left_over)"
  define b1 where "b1 = take left_over (sha512_buffer ctx) @ take add bs @ drop (left_over + add) (sha512_buffer ctx)"
  define ctx1 where "ctx1 = ctx\<lparr>sha512_buffer := b1, sha512_buflen := left_over + add\<rparr>"
  have lo: "0 < left_over" "left_over \<le> 128" using False len by (simp_all add: left_over_def)
  have add: "add \<le> length bs" "left_over + add \<le> 256" "add < length bs \<Longrightarrow> left_over + add = 256"
    using lo by (auto simp: add_def)
  have lb1: "length b1 = 256" using add len lo by (simp add: b1_def)
  have tb1: "take (left_over + add) b1 = take left_over (sha512_buffer ctx) @ take add bs"
    using add len lo by (simp add: b1_def)
  have cpy: "memcpy_at left_over (take add bs) (sha512_buffer ctx) = Inr b1"
    using add len by (simp add: b1_def min_absorb2)
  have mbs: "m @ bs = as @ take (left_over + add) b1 @ drop add bs" unfolding tb1 by (simp add: m left_over_def)
  have at1: "sha512_at ctx1 as" using at by (simp add: ctx1_def)
  show thesis
  proof (cases "left_over + add > 128")
    case True
    define n where "n = 128 * ((left_over + add) div 128)"
    define r where "r = (left_over + add) mod 128"
    have nr: "n + r = left_over + add" "r < 128" "128 dvd n" "n \<le> 256" using add by (simp_all add: n_def r_def)
    have ln: "length (take n b1) = n" using nr lb1 by simp
    obtain ctx2 where pb: "sha512_process_block (take n b1) ctx1 = Inr ctx2" "sha512_at ctx2 (as @ take n b1)"
      "sha512_buflen ctx2 = left_over + add" "sha512_buffer ctx2 = b1"
      by (rule sha512_process_block_at [OF at1, of "take n b1"]) (use nr ln in \<open>simp_all add: ctx1_def\<close>)
    define b2 where "b2 = take r (drop n b1) @ drop r b1"
    have lr: "length (take r (drop n b1)) = r" using nr add lb1 by simp
    have cpy2: "memcpy_at 0 (take r (drop n b1)) b1 = Inr b2" using lr nr lb1 by (simp add: b2_def)
    have fill: "sha512_fill p bs ctx = Inr (p + add, drop add bs, ctx2\<lparr>sha512_buffer := b2, sha512_buflen := r\<rparr>)"
      using False True cpy pb cpy2
      by (simp add: sha512_fill_def Let_def flip: left_over_def add_def ctx1_def n_def r_def)
    have "take n b1 @ take r b2 = take (left_over + add) b1"
      using lr by (simp add: b2_def nr(1) [symmetric] take_add)
    then have "m @ bs = (as @ take n b1 @ take r b2) @ drop add bs" using mbs by simp
    moreover have "sha512_rep (ctx2\<lparr>sha512_buffer := b2, sha512_buflen := r\<rparr>) (as @ take n b1 @ take r b2)"
      by (rule sha512_repI [of _ "as @ take n b1"]) (use pb nr lr lb1 in \<open>simp_all add: b2_def\<close>)
    moreover have "drop add bs = [] \<or> r = 0" using add by (cases "add < length bs") (simp_all add: r_def)
    ultimately show thesis by (intro that [OF fill]) simp_all
  next
    case le: False
    then have all: "add = length bs" using add by linarith
    have fill: "sha512_fill p bs ctx = Inr (p + add, drop add bs, ctx1)"
      using False le cpy by (simp add: sha512_fill_def Let_def flip: left_over_def add_def ctx1_def)
    have "sha512_rep ctx1 (as @ take (left_over + add) b1)"
      by (rule sha512_repI [OF at1]) (use le lb1 in \<open>simp_all add: ctx1_def\<close>)
    then show thesis using mbs all by (intro that [OF fill]) simp_all
  qed
qed


lemma sha512_unaligned_rep:
  assumes "sha512_rep ctx m" and "sha512_buflen ctx = 0"
  shows "\<exists>bs' ctx' m'. sha512_unaligned bs ctx = Inr (bs', ctx') \<and> sha512_rep ctx' m' \<and> m @ bs = m' @ bs' \<and>
    sha512_buflen ctx' = 0 \<and> length bs' \<le> 128"
  using assms
proof (induction bs arbitrary: ctx m rule: length_induct)
  case (1 bs)
  show ?case
  proof (cases "length bs > 128")
    case False
    then have "sha512_unaligned bs ctx = Inr (bs, ctx)" by (subst sha512_unaligned.simps) simp
    with False "1.prems" show ?thesis by (intro exI [of _ bs] exI [of _ ctx] exI [of _ m]) simp
  next
    case True
    from "1.prems" have at: "sha512_at ctx m" and len: "length (sha512_buffer ctx) = 256" by (auto simp: sha512_rep_def)
    define b1 where "b1 = take 128 bs @ drop 128 (sha512_buffer ctx)"
    have b1: "length b1 = 256" "take 128 b1 = take 128 bs" using True len by (simp_all add: b1_def)
    have cpy: "memcpy_at 0 (take 128 bs) (sha512_buffer ctx) = Inr b1" using True len by (simp add: b1_def min_absorb2)
    obtain ctx1 where pb: "sha512_process_block (take 128 b1) (ctx\<lparr>sha512_buffer := b1\<rparr>) = Inr ctx1"
      "sha512_at ctx1 (m @ take 128 b1)" "sha512_buflen ctx1 = 0" "sha512_buffer ctx1 = b1"
      by (rule sha512_process_block_at [of "ctx\<lparr>sha512_buffer := b1\<rparr>" m "take 128 b1"])
        (use at b1 True "1.prems" in simp_all)
    have rep1: "sha512_rep ctx1 (m @ take 128 bs)"
      by (rule sha512_repI [OF pb(2)]) (use pb b1 in simp_all)
    have "sha512_unaligned bs ctx = sha512_unaligned (drop 128 bs) ctx1"
      using True cpy pb(1) by (subst sha512_unaligned.simps) simp
    moreover have "\<exists>bs' ctx' m'. sha512_unaligned (drop 128 bs) ctx1 = Inr (bs', ctx') \<and> sha512_rep ctx' m' \<and>
        (m @ take 128 bs) @ drop 128 bs = m' @ bs' \<and> sha512_buflen ctx' = 0 \<and> length bs' \<le> 128"
      by (rule "1.IH" [rule_format, OF _ rep1 pb(3)]) (use True in simp)
    ultimately show ?thesis by simp
  qed
qed

lemma sha512_whole_rep:
  assumes "sha512_rep ctx m" and "bs = [] \<or> sha512_buflen ctx = 0" and "length bs < 2 ^ 64"
  obtains bs' ctx' m' where "sha512_whole p bs ctx = Inr (bs', ctx')" "sha512_rep ctx' m'" "m @ bs = m' @ bs'"
    "bs' = [] \<or> sha512_buflen ctx' = 0" "length bs' \<le> 128"
proof (cases "length bs \<ge> 128")
  case False
  then show thesis using assms by (intro that [of bs ctx m]) (simp_all add: sha512_whole_def)
next
  case True
  then have b0: "sha512_buflen ctx = 0" using assms(2) by auto
  show thesis
  proof (cases "p mod 8 = 0")
    case False
    then show thesis using sha512_unaligned_rep [OF assms(1) b0, of bs] True that
      by (auto simp: sha512_whole_def)
  next
    case aligned: True
    from assms(1) b0 have at: "sha512_at ctx m" and len: "length (sha512_buffer ctx) = 256" by (auto simp: sha512_rep_def)
    define n where "n = 128 * (length bs div 128)"
    have n: "128 dvd n" "n \<le> length bs" by (simp_all add: n_def)
    obtain ctx1 where pb: "sha512_process_block (take n bs) ctx = Inr ctx1" "sha512_at ctx1 (m @ take n bs)"
      "sha512_buflen ctx1 = sha512_buflen ctx" "sha512_buffer ctx1 = sha512_buffer ctx"
      by (rule sha512_process_block_at [OF at, of "take n bs"]) (use n assms(3) in \<open>simp_all add: min_absorb2\<close>)
    have "sha512_whole p bs ctx = Inr (drop n bs, ctx1)"
      using aligned True pb by (simp add: sha512_whole_def Let_def flip: n_def)
    moreover have "sha512_rep ctx1 (m @ take n bs)"
      by (rule sha512_repI [OF pb(2)]) (use pb b0 len in simp_all)
    moreover have "length (drop n bs) \<le> 128"
    proof -
      have "length bs - n = length bs mod 128" by (simp add: n_def minus_mult_div_eq_mod)
      moreover have "length bs mod 128 < 128" by simp
      ultimately show ?thesis by simp
    qed
    ultimately show thesis using pb(3) b0 by (intro that [of "drop n bs" ctx1 "m @ take n bs"]) simp_all
  qed
qed

lemma sha512_rest_rep:
  assumes "sha512_rep ctx m" and "bs = [] \<or> sha512_buflen ctx = 0" and "length bs \<le> 128"
  shows "\<exists>ctx'. sha512_rest bs ctx = Inr ctx' \<and> sha512_rep ctx' (m @ bs)"
proof (cases "bs = []")
  case True
  then show ?thesis using assms(1) by (simp add: sha512_rest_def)
next
  case False
  then have b0: "sha512_buflen ctx = 0" using assms(2) by simp
  from assms(1) b0 have at: "sha512_at ctx m" and len: "length (sha512_buffer ctx) = 256" by (auto simp: sha512_rep_def)
  define b1 where "b1 = bs @ drop (length bs) (sha512_buffer ctx)"
  have b1: "length b1 = 256" using assms(3) len by (simp add: b1_def)
  have cpy: "memcpy_at 0 bs (sha512_buffer ctx) = Inr b1" using assms(3) len by (simp add: b1_def)
  show ?thesis
  proof (cases "length bs = 128")
    case full: True
    have t64: "take 128 b1 = bs" using full by (simp add: b1_def)
    obtain ctx2 where pb: "sha512_process_block (take 128 b1) (ctx\<lparr>sha512_buffer := b1\<rparr>) = Inr ctx2"
      "sha512_at ctx2 (m @ take 128 b1)" "sha512_buflen ctx2 = 0" "sha512_buffer ctx2 = b1"
      by (rule sha512_process_block_at [of "ctx\<lparr>sha512_buffer := b1\<rparr>" m "take 128 b1"])
        (use at b1 b0 in simp_all)
    have "sha512_rest bs ctx = Inr (ctx2\<lparr>sha512_buffer := b1, sha512_buflen := 0\<rparr>)"
      using False full b0 cpy pb(1) b1 by (simp add: sha512_rest_def Let_def)
    moreover have "sha512_rep (ctx2\<lparr>sha512_buffer := b1, sha512_buflen := 0\<rparr>) (m @ bs)"
      by (rule sha512_repI [of _ "m @ bs"]) (use pb t64 b1 in simp_all)
    ultimately show ?thesis by blast
  next
    case part: False
    have "sha512_rest bs ctx = Inr (ctx\<lparr>sha512_buffer := b1, sha512_buflen := length bs\<rparr>)"
      using False part assms(3) b0 cpy by (simp add: sha512_rest_def Let_def)
    moreover have "sha512_rep (ctx\<lparr>sha512_buffer := b1, sha512_buflen := length bs\<rparr>) (m @ bs)"
      by (rule sha512_repI [of _ m]) (use at b1 assms(3) in \<open>simp_all add: b1_def\<close>)
    ultimately show ?thesis by blast
  qed
qed

lemma sha512_process_bytes_rep:
  assumes "sha512_rep ctx m" and "length bs < 2 ^ 64"
  shows "\<exists>ctx'. sha512_process_bytes p bs ctx = Inr ctx' \<and> sha512_rep ctx' (m @ bs)"
proof -
  obtain p1 bs1 ctx1 m1 where 1: "sha512_fill p bs ctx = Inr (p1, bs1, ctx1)" "sha512_rep ctx1 m1"
    "m @ bs = m1 @ bs1" "bs1 = [] \<or> sha512_buflen ctx1 = 0" "length bs1 \<le> length bs"
    by (rule sha512_fill_rep [OF assms(1)])
  have "length bs1 < 2 ^ 64" using 1(5) assms(2) by linarith
  then obtain bs2 ctx2 m2 where 2: "sha512_whole p1 bs1 ctx1 = Inr (bs2, ctx2)" "sha512_rep ctx2 m2"
    "m1 @ bs1 = m2 @ bs2" "bs2 = [] \<or> sha512_buflen ctx2 = 0" "length bs2 \<le> 128"
    by (rule sha512_whole_rep [OF 1(2,4)])
  from sha512_rest_rep [OF 2(2,4,5)] 1 2 show ?thesis by (simp add: sha512_process_bytes_def)
qed

lemma sha512_finish_pad:
  fixes t0 t1 :: "64 word"
  assumes "128 dvd k" and "length m = k + bytes" and "bytes \<le> 128"
    and "unat t1 * 2 ^ 64 + unat t0 = length m mod 2 ^ 128"
    and "pad = (if bytes \<ge> 112 then 128 + 112 - bytes else 112 - bytes)"
  shows "m @ take pad sha512_fillbuf @ store_be 8 (push_bit 3 t1 OR drop_bit 61 t0) @ store_be 8 (push_bit 3 t0) = sha512_pad m"
proof -
  have pad: "1 \<le> pad" "pad \<le> 128" using assms(3,5) by auto
  have "md_zeros 128 16 (length m) = pad - 1"
  proof (cases "bytes \<ge> 112")
    case True
    then show ?thesis using md_zeros_long [OF assms(1), of bytes 16] assms by simp
  next
    case False
    then show ?thesis using md_zeros_short [OF assms(1), of bytes 16] assms by simp
  qed
  moreover have "take pad sha512_fillbuf = 0x80 # replicate (pad - 1) 0"
    using pad by (simp add: sha512_fillbuf_def take_Cons' min_def)
  moreover have "store_be 8 (push_bit 3 t1 OR drop_bit 61 t0) @ store_be 8 (push_bit 3 t0) = store_be 16 (word_of_nat (8 * length m) :: 128 word)"
    using store_be_bits [where 'b = 128, of t1 t0 "length m" 8] assms(4) by simp
  ultimately show ?thesis by (simp add: sha512_pad_def)
qed

lemma sha512_digest_eq:
  "sha512_H ctx = sha512_H_of (sha512_state (sha512_pad m)) \<Longrightarrow>
   concat (map (\<lambda>i. store_le 8 (sha512_SWAP (sha512_H ctx ! i))) [0..<8]) = sha512 m"
  by (cases "sha512_state (sha512_pad m)" rule: sha512_H_of.cases)
    (simp add: sha512_SWAP_store sha512_def upt_rec flip: sha512_state_def)

lemma sha512_finish_rep:
  assumes "sha512_rep ctx m"
  shows "\<exists>ctx'. sha512_finish_ctx ctx = Inr (ctx', sha512 m) \<and> length (sha512_buffer ctx') = 256"
proof -
  from assms obtain as where at: "sha512_at ctx as" and m: "m = as @ take (sha512_buflen ctx) (sha512_buffer ctx)"
    and len: "length (sha512_buffer ctx) = 256" "sha512_buflen ctx \<le> 128" by (auto simp: sha512_rep_def)
  define bytes where "bytes = sha512_buflen ctx"
  define ctx1 where "ctx1 = sha512_count bytes ctx"
  define pad where "pad = (if bytes \<ge> 112 then 128 + 112 - bytes else 112 - bytes)"
  define hi where "hi = push_bit 3 (sha512_total1 ctx1) OR drop_bit 61 (sha512_total0 ctx1)"
  define lo where "lo = push_bit 3 (sha512_total0 ctx1)"
  have bytes: "bytes \<le> 128" using len by (simp add: bytes_def)
  have pad: "pad \<le> 128" "bytes + pad + 16 \<le> 256" "128 dvd bytes + pad + 16" using bytes by (auto simp: pad_def)
  have lm: "length m = length as + bytes" using len by (simp add: m bytes_def)
  have "unat (sha512_total1 ctx1) * 2 ^ 64 + unat (sha512_total0 ctx1) = length m mod 2 ^ 128"
    unfolding sha512_total_def [symmetric] ctx1_def
    using sha512_total_count [of bytes ctx] bytes at by (simp add: sha512_at_def lm mod_add_left_eq)
  then have tail: "m @ take pad sha512_fillbuf @ store_be 8 hi @ store_be 8 lo = sha512_pad m"
    unfolding hi_def lo_def using at lm bytes pad_def
    by (intro sha512_finish_pad [of "length as" m bytes]) (simp_all add: sha512_at_def)
  have lfill: "length (take pad sha512_fillbuf) = pad" using pad by (simp add: sha512_fillbuf_def)
  obtain b3 where b3: "\<And>F. res_bind (memcpy_at bytes (take pad sha512_fillbuf) (sha512_buffer ctx)) (\<lambda>b1.
         res_bind (memcpy_at (bytes + pad + 8) (store_be 8 lo) b1) (\<lambda>b2.
         res_bind (memcpy_at (bytes + pad) (store_be 8 hi) b2) F)) = (F b3 :: (sha512_ctx \<times> byte list) res)"
    and l3: "length b3 = 256"
    and t3: "take (bytes + pad + 16) b3 = take bytes (sha512_buffer ctx) @ take pad sha512_fillbuf @ store_be 8 hi @ store_be 8 lo"
    using memcpy_tail [of bytes "take pad sha512_fillbuf" "store_be 8 hi" "store_be 8 lo" "sha512_buffer ctx"] pad len lfill
    by (simp add: add.assoc)
  have l8: "length (take (bytes + pad + 16) b3) = bytes + pad + 16" using l3 pad by simp
  have at1: "sha512_H (ctx1\<lparr>sha512_buffer := b3\<rparr>) = sha512_H_of (sha512_state as)" "128 dvd length as"
    using at by (simp_all add: ctx1_def sha512_at_def)
  obtain ctx2 where pb: "sha512_process_block (take (bytes + pad + 16) b3) (ctx1\<lparr>sha512_buffer := b3\<rparr>) = Inr ctx2"
    and H2: "sha512_H ctx2 = sha512_H_of (sha512_state (as @ take (bytes + pad + 16) b3))" and b2: "sha512_buffer ctx2 = b3"
    by (rule sha512_process_block_H [OF at1, of "take (bytes + pad + 16) b3"]) (use pad l8 in simp_all)
  have "as @ take (bytes + pad + 16) b3 = sha512_pad m" unfolding t3 using tail by (simp add: m bytes_def)
  then have dig: "concat (map (\<lambda>i. store_le 8 (sha512_SWAP (sha512_H ctx2 ! i))) [0..<8]) = sha512 m"
    by (intro sha512_digest_eq) (simp add: H2)
  have "sha512_finish_ctx ctx = Inr (ctx2, sha512 m)"
    using b3 pb dig
    by (simp add: sha512_finish_ctx_def Let_def sha512_SWAP_store flip: bytes_def ctx1_def pad_def lo_def hi_def)
  then show ?thesis using b2 l3 by simp
qed


subsection \<open>The digest interface\<close>

definition sha512_ops :: "sha512_ctx digest_ops" where
  "sha512_ops = \<lparr>op_init = sha512_init_ctx, op_process = sha512_process_bytes, op_finish = sha512_finish_ctx,
     op_len = 64, op_align = 8\<rparr>"

definition sha512_ctx_ok :: "sha512_ctx \<Rightarrow> bool" where
  "sha512_ctx_ok ctx \<longleftrightarrow> length (sha512_buffer ctx) = 256"

lemma length_sha512: "length (sha512 m) = 64"
  by (cases "foldl sha512_compress sha512_IV (chunks 128 (sha512_pad m))" rule: sha512_H_of.cases)
    (simp add: sha512_def)

interpretation d512: digest sha512_ops sha512 sha512_ctx_ok sha512_rep
  by unfold_locales
    (simp_all add: sha512_ops_def sha512_ctx_ok_def sha512_rep_init sha512_process_bytes_rep sha512_finish_rep length_sha512)

text \<open>
  However a message is cut into pieces and wherever the pieces lie in memory, the SHA-512 of the
  program never faults and yields the SHA-512 of FIPS 180-2 of the whole message.
\<close>

theorem sha512_pieces:
  assumes "length (sha512_buffer ctx) = 256" and "\<forall>(p, bs) \<in> set pieces. length bs < 2 ^ 32"
  shows "\<exists>ctx'. res_bind (res_fold (\<lambda>(p, bs). sha512_process_bytes p bs) pieces (sha512_init_ctx ctx)) sha512_finish_ctx
    = Inr (ctx', sha512 (concat (map snd pieces)))"
  using d512.hash_pieces [of ctx pieces] assms
  by (auto simp: op_pieces_def sha512_ops_def sha512_ctx_ok_def)

end
