(* ===== verification/Itoa64.thy ===== *)
theory Itoa64
  imports Bytes
begin

text \<open>
  The printable form of digests that the password schemes share: an alphabet of 64 characters, and
  groups of three bytes written as up to four characters, the lowest six bits first.  A group can
  be read back, so a text determines the digest it was made from.
\<close>

unbundle bit_operations_syntax

definition itoa64 :: string where
  "itoa64 = ''./0123456789ABCDEFGHIJKLMNOPQRSTUVWXYZabcdefghijklmnopqrstuvwxyz''"

fun b64_chars :: "nat \<Rightarrow> 32 word \<Rightarrow> string" where
  "b64_chars 0 w = []"
| "b64_chars (Suc n) w = itoa64 ! unat (w AND 0x3f) # b64_chars n (drop_bit 6 w)"

definition b64_word :: "byte \<Rightarrow> byte \<Rightarrow> byte \<Rightarrow> 32 word" where
  "b64_word B2 B1 B0 = push_bit 16 (ucast B2) OR push_bit 8 (ucast B1) OR ucast B0"

definition b64_group :: "byte \<times> byte \<times> byte \<times> nat \<Rightarrow> string" where
  "b64_group = (\<lambda>(B2, B1, B0, N). b64_chars N (b64_word B2 B1 B0))"

lemma length_b64_chars [simp]: "length (b64_chars n w) = n"
  by (induction n arbitrary: w) simp_all

lemma length_b64_group: "length (b64_group g) = snd (snd (snd g))"
  by (cases g) (simp add: b64_group_def)

lemma unat_and_63: "unat (w AND 0x3f :: 32 word) < 64"
proof -
  have "unat (w AND 0x3f) \<le> unat (0x3f :: 32 word)"
    by (rule word_and_le1 [THEN word_le_nat_alt [THEN iffD1]])
  then show ?thesis by simp
qed

lemma length_itoa64: "length itoa64 = 64"
  by (simp add: itoa64_def)

lemma set_b64_chars: "set (b64_chars n w) \<subseteq> set itoa64"
proof (induction n arbitrary: w)
  case (Suc n)
  have "itoa64 ! unat (w AND 0x3f) \<in> set itoa64" using unat_and_63 length_itoa64 by (simp del: nth_mem add: nth_mem)
  with Suc show ?case by simp
qed simp

lemma b64t_not_NUL: "NUL \<notin> set itoa64"
  by (simp add: itoa64_def NUL_def)

lemma NUL_b64_group: "NUL \<notin> set (b64_group g)"
  using set_b64_chars b64t_not_NUL by (cases g) (auto simp: b64_group_def)

lemma distinct_itoa64: "distinct itoa64"
  by (simp add: itoa64_def)

lemma b64_chars_inj: "b64_chars n w = b64_chars n v \<Longrightarrow> i < 6 * n \<Longrightarrow> bit w i = bit v i"
proof (induction n arbitrary: w v i)
  case (Suc n)
  from Suc.prems(1) have hd: "itoa64 ! unat (w AND 0x3f) = itoa64 ! unat (v AND 0x3f)"
    and tl: "b64_chars n (drop_bit 6 w) = b64_chars n (drop_bit 6 v)" by simp_all
  from hd have "unat (w AND 0x3f) = unat (v AND 0x3f)"
    using distinct_itoa64 unat_and_63 length_itoa64 by (simp add: nth_eq_iff_index_eq)
  then have "w AND 0x3f = v AND 0x3f" by (rule word_unat_eq_iff [THEN iffD2])
  then have "take_bit 6 w = take_bit 6 v" by (simp add: take_bit_eq_mask mask_eq_exp_minus_1)
  then have low: "bit w j = bit v j" if "j < 6" for j
    using that by (metis bit_take_bit_iff)
  show ?case
  proof (cases "i < 6")
    case False
    then have "bit (drop_bit 6 w) (i - 6) = bit (drop_bit 6 v) (i - 6)" using Suc.IH [OF tl, of "i - 6"] Suc.prems(2) by simp
    with False show ?thesis by (simp add: bit_drop_bit_eq)
  qed (rule low)
qed simp

lemma bit_b64_word:
  assumes "r < 8"
  shows "bit (b64_word a b c) r \<longleftrightarrow> bit c r" "bit (b64_word a b c) (8 + r) \<longleftrightarrow> bit b r"
    "bit (b64_word a b c) (16 + r) \<longleftrightarrow> bit a r"
  using assms by (simp_all add: b64_word_def bit_or_iff bit_push_bit_iff bit_ucast_iff bit_word_high)

lemma b64_group_inj:
  "b64_group (a, b, c, 4) = b64_group (a', b', c', 4) \<longleftrightarrow> a = a' \<and> b = b' \<and> c = c'"
  "b64_group (0, b, c, 3) = b64_group (0, b', c', 3) \<longleftrightarrow> b = b' \<and> c = c'"
  "b64_group (0, 0, c, 2) = b64_group (0, 0, c', 2) \<longleftrightarrow> c = c'"
proof -
  have bits: "bit (b64_word a b c) i = bit (b64_word a' b' c') i"
    if "b64_group (a, b, c, n) = b64_group (a', b', c', n)" "i < 6 * n" for a b c a' b' c' n i
    using b64_chars_inj [of n "b64_word a b c" "b64_word a' b' c'" i] that by (simp add: b64_group_def)
  have c: "c = c'" if "b64_group (a, b, c, n) = b64_group (a', b', c', n)" "2 \<le> n" for a b c a' b' c' n
  proof -
    have "bit c r = bit c' r" if "r < 8" for r
      using bits [OF \<open>b64_group (a, b, c, n) = b64_group (a', b', c', n)\<close>, of r] \<open>2 \<le> n\<close> that by (simp add: bit_b64_word)
    then show ?thesis by (simp add: byte_eq_iff)
  qed
  have b: "b = b'" if "b64_group (a, b, c, n) = b64_group (a', b', c', n)" "3 \<le> n" for a b c a' b' c' n
  proof -
    have "bit b r = bit b' r" if "r < 8" for r
      using bits [OF \<open>b64_group (a, b, c, n) = b64_group (a', b', c', n)\<close>, of "8 + r"] \<open>3 \<le> n\<close> that by (simp add: bit_b64_word)
    then show ?thesis by (simp add: byte_eq_iff)
  qed
  have a: "a = a'" if "b64_group (a, b, c, 4) = b64_group (a', b', c', 4)" for a b c a' b' c'
  proof -
    have "bit a r = bit a' r" if "r < 8" for r
      using bits [OF \<open>b64_group (a, b, c, 4) = b64_group (a', b', c', 4)\<close>, of "16 + r"] that by (simp add: bit_b64_word)
    then show ?thesis by (simp add: byte_eq_iff)
  qed
  show "b64_group (a, b, c, 4) = b64_group (a', b', c', 4) \<longleftrightarrow> a = a' \<and> b = b' \<and> c = c'"
    using a b [of a b c 4] c [of a b c 4] by auto
  show "b64_group (0, b, c, 3) = b64_group (0, b', c', 3) \<longleftrightarrow> b = b' \<and> c = c'"
    using b [of 0 b c 3] c [of 0 b c 3] by auto
  show "b64_group (0, 0, c, 2) = b64_group (0, 0, c', 2) \<longleftrightarrow> c = c'" using c [of 0 0 c 2] by auto
qed

lemma concat_groups_eq:
  "map (\<lambda>g. snd (snd (snd g))) gs = map (\<lambda>g. snd (snd (snd g))) gs' \<Longrightarrow>
   concat (map b64_group gs) = concat (map b64_group gs') \<longleftrightarrow> map b64_group gs = map b64_group gs'"
proof (induction gs arbitrary: gs')
  case (Cons g gs)
  then obtain g' gs1 where gs': "gs' = g' # gs1" by (cases gs') auto
  with Cons.prems have "length (b64_group g) = length (b64_group g')" by (simp add: length_b64_group)
  with Cons gs' show ?case by simp
qed simp

lemma list_eq_indices:
  assumes "length d = n" and "length d' = n" and "\<forall>i \<in> set idx. d ! i = d' ! i" and "\<forall>i \<in> set [0..<n]. i \<in> set idx"
  shows "d = d'"
  using assms by (intro nth_equalityI) auto

end
