(* ===== verification/Crypt_Sha.thy ===== *)
theory Crypt_Sha
  imports Sha256 Sha512 Itoa64
begin

text \<open>
  The password scheme of \<^verbatim>\<open>crypt/crypt_sha256.c\<close> and \<^verbatim>\<open>crypt/crypt_sha512.c\<close>.  The two functions
  \<^verbatim>\<open>crypt_sha256\<close> and \<^verbatim>\<open>crypt_sha512\<close> are the same text but for the hash function, the prefix of the
  result and the order in which the digest is written, so their steps are defined once over
  \<open>digest_ops\<close> and the two functions are their instances.

  Addresses of the arguments, of the arrays on the stack and what \<^verbatim>\<open>alloca\<close> returns are the record
  \<open>sha_places\<close>.  The output buffer is an array; every write to it is checked.
\<close>

unbundle bit_operations_syntax

subsection \<open>The code\<close>

record sha_places =
  pl_key :: nat
  pl_salt :: nat
  pl_key_tmp :: nat
  pl_salt_tmp :: nat
  pl_alt_result :: nat
  pl_p_bytes :: nat
  pl_s_bytes :: nat
  pl_alloca :: "nat \<Rightarrow> byte list"

definition sha_setting :: "string \<Rightarrow> string \<Rightarrow> nat \<times> bool \<times> string" where
  "sha_setting prefix salt0 =
     (let salt = (if take (length prefix) salt0 = prefix then drop (length prefix) salt0 else salt0) in
      if take 7 salt = ''rounds=''
      then (let (srounds, endp) = strtoul10 (drop 7 salt) in
            if endp \<noteq> [] \<and> hd endp = CHR ''$''
            then (max 1000 (min srounds 999999999), True, tl endp)
            else (5000, False, salt))
      else (5000, False, salt))"

definition sha_salt :: "string \<Rightarrow> string" where
  "sha_salt salt = take 16 (takeWhile (\<lambda>c. c \<noteq> CHR ''$'') salt)"

text \<open>The address of a string, or of the aligned copy the code makes of it.\<close>

definition sha_align :: "nat \<Rightarrow> nat \<Rightarrow> nat \<Rightarrow> nat" where
  "sha_align align p tmp = (if p mod align \<noteq> 0 then tmp + align - tmp mod align else p)"

fun sha_add_alt :: "'ctx digest_ops \<Rightarrow> nat \<Rightarrow> byte list \<Rightarrow> nat \<Rightarrow> 'ctx \<Rightarrow> 'ctx res" where
  "sha_add_alt ops p alt cnt ctx =
     (if op_len ops = 0 then Inl Diverges
      else if cnt > op_len ops
      then res_bind (op_process ops p alt ctx) (sha_add_alt ops p alt (cnt - op_len ops))
      else op_process ops p (take cnt alt) ctx)"

declare sha_add_alt.simps [simp del]

fun sha_add_bits :: "'ctx digest_ops \<Rightarrow> nat \<Rightarrow> byte list \<Rightarrow> nat \<Rightarrow> byte list \<Rightarrow> nat \<Rightarrow> 'ctx \<Rightarrow> 'ctx res" where
  "sha_add_bits ops ap alt kp key cnt ctx =
     (if cnt > 0
      then res_bind (if odd cnt then op_process ops ap alt ctx else op_process ops kp key ctx)
             (sha_add_bits ops ap alt kp key (cnt div 2))
      else Inr ctx)"

declare sha_add_bits.simps [simp del]

definition sha_times :: "'ctx digest_ops \<Rightarrow> nat \<Rightarrow> nat \<Rightarrow> byte list \<Rightarrow> 'ctx \<Rightarrow> 'ctx res" where
  "sha_times ops n p bs ctx = res_fold (\<lambda>_. op_process ops p bs) [0..<n] ctx"

fun sha_fill_bytes :: "nat \<Rightarrow> byte list \<Rightarrow> nat \<Rightarrow> nat \<Rightarrow> byte list \<Rightarrow> byte list res" where
  "sha_fill_bytes n temp cnt cp mem =
     (if n = 0 then Inl Diverges
      else if cnt \<ge> n
      then res_bind (memcpy_at cp temp mem) (sha_fill_bytes n temp (cnt - n) (cp + n))
      else memcpy_at cp (take cnt temp) mem)"

declare sha_fill_bytes.simps [simp del]

text \<open>The intermediate result, from both contexts.\<close>

definition sha_intermediate ::
    "'ctx digest_ops \<Rightarrow> nat \<Rightarrow> nat \<Rightarrow> nat \<Rightarrow> byte list \<Rightarrow> byte list \<Rightarrow> 'ctx \<Rightarrow> 'ctx \<Rightarrow> ('ctx \<times> 'ctx \<times> byte list) res" where
  "sha_intermediate ops kp sp ap key salt ctx alt_ctx =
     res_bind (op_pieces ops [(kp, key), (sp, salt)] (op_init ops ctx)) (\<lambda>ctx1.
     res_bind (op_pieces ops [(kp, key), (sp, salt), (kp, key)] (op_init ops alt_ctx)) (\<lambda>alt_ctx1.
     res_bind (op_finish ops alt_ctx1) (\<lambda>(alt_ctx2, alt_result).
     res_bind (sha_add_alt ops ap alt_result (length key) ctx1) (\<lambda>ctx2.
     res_bind (sha_add_bits ops ap alt_result kp key (length key) ctx2) (\<lambda>ctx3.
     res_bind (op_finish ops ctx3) (\<lambda>(ctx4, alt_result').
     Inr (ctx4, alt_ctx2, alt_result')))))))"

text \<open>The sequences P and S: the digest of the repeated input, repeated to the length of the input.\<close>

definition sha_sequence ::
    "'ctx digest_ops \<Rightarrow> (nat \<Rightarrow> byte list) \<Rightarrow> nat \<Rightarrow> nat \<Rightarrow> byte list \<Rightarrow> 'ctx \<Rightarrow> ('ctx \<times> byte list) res" where
  "sha_sequence ops alloca n p bs alt_ctx =
     res_bind (sha_times ops n p bs (op_init ops alt_ctx)) (\<lambda>alt_ctx1.
     res_bind (op_finish ops alt_ctx1) (\<lambda>(alt_ctx2, temp_result).
     res_bind (sha_fill_bytes (op_len ops) temp_result (length bs) 0 (alloca (length bs))) (\<lambda>bytes.
     Inr (alt_ctx2, bytes))))"

definition sha_round ::
    "'ctx digest_ops \<Rightarrow> nat \<Rightarrow> nat \<Rightarrow> nat \<Rightarrow> byte list \<Rightarrow> byte list \<Rightarrow> nat \<Rightarrow> 'ctx \<times> byte list \<Rightarrow> ('ctx \<times> byte list) res" where
  "sha_round ops pp sp ap p_bytes s_bytes cnt = (\<lambda>(ctx, alt_result).
     res_bind (op_pieces ops
       ([if odd cnt then (pp, p_bytes) else (ap, alt_result)]
        @ (if cnt mod 3 \<noteq> 0 then [(sp, s_bytes)] else [])
        @ (if cnt mod 7 \<noteq> 0 then [(pp, p_bytes)] else [])
        @ [if odd cnt then (ap, alt_result) else (pp, p_bytes)]) (op_init ops ctx)) (op_finish ops))"

definition sha_digest ::
    "'ctx digest_ops \<Rightarrow> sha_places \<Rightarrow> byte list \<Rightarrow> byte list \<Rightarrow> nat \<Rightarrow> 'ctx \<Rightarrow> 'ctx \<Rightarrow> ('ctx \<times> byte list) res" where
  "sha_digest ops pl key salt rounds ctx alt_ctx =
     (let kp = sha_align (op_align ops) (pl_key pl) (pl_key_tmp pl);
          sp = sha_align (op_align ops) (pl_salt pl) (pl_salt_tmp pl);
          ap = pl_alt_result pl
      in res_bind (sha_intermediate ops kp sp ap key salt ctx alt_ctx) (\<lambda>(ctx1, alt_ctx1, alt_result).
         res_bind (sha_sequence ops (pl_alloca pl) (length key) kp key alt_ctx1) (\<lambda>(alt_ctx2, p_bytes).
         res_bind (sha_sequence ops (pl_alloca pl) (16 + unat (alt_result ! 0)) sp salt alt_ctx2) (\<lambda>(alt_ctx3, s_bytes).
         res_fold (sha_round ops (pl_p_bytes pl) (pl_s_bytes pl) ap p_bytes s_bytes) [0..<rounds] (ctx1, alt_result)))))"

subsection \<open>Writing the result\<close>

record sha_out =
  so_buffer :: string
  so_cp :: nat
  so_buflen :: int

text \<open>\<^verbatim>\<open>stpncpy(cp, s, n)\<close> writes \<open>n\<close> characters, filling up with NUL; \<^verbatim>\<open>snprintf\<close> at most \<open>n\<close>.\<close>

definition out_stpncpy :: "string \<Rightarrow> nat \<Rightarrow> sha_out \<Rightarrow> sha_out res" where
  "out_stpncpy s n out =
     res_bind (memcpy_at (so_cp out) (take n s @ replicate (n - length s) NUL) (so_buffer out)) (\<lambda>b.
     Inr (out\<lparr>so_buffer := b, so_cp := so_cp out + min n (length s)\<rparr>))"

definition out_snprintf :: "string \<Rightarrow> sha_out \<Rightarrow> sha_out res" where
  "out_snprintf s out =
     (let size = nat (max 0 (so_buflen out)) in
      res_bind (if size = 0 then Inr (so_buffer out)
                else memcpy_at (so_cp out) (take (size - 1) s @ [NUL]) (so_buffer out)) (\<lambda>b.
      Inr (out\<lparr>so_buffer := b, so_cp := so_cp out + length s, so_buflen := so_buflen out - int (length s)\<rparr>)))"

definition out_char :: "char \<Rightarrow> sha_out \<Rightarrow> sha_out res" where
  "out_char c out =
     (if so_buflen out > 0
      then res_bind (memcpy_at (so_cp out) [c] (so_buffer out)) (\<lambda>b.
           Inr (out\<lparr>so_buffer := b, so_cp := so_cp out + 1, so_buflen := so_buflen out - 1\<rparr>))
      else Inr out)"

text \<open>The loop of \<^verbatim>\<open>b64_from_24bit\<close>; once \<^verbatim>\<open>buflen\<close> is 0 \<open>out_char\<close> writes nothing, as the loop then ends.\<close>

fun out_b64 :: "nat \<Rightarrow> 32 word \<Rightarrow> sha_out \<Rightarrow> sha_out res" where
  "out_b64 0 w out = Inr out"
| "out_b64 (Suc n) w out =
     res_bind (out_char (itoa64 ! unat (w AND 0x3f)) out) (out_b64 n (drop_bit 6 w))"

definition b64_from_24bit :: "byte \<times> byte \<times> byte \<times> nat \<Rightarrow> sha_out \<Rightarrow> sha_out res" where
  "b64_from_24bit = (\<lambda>(B2, B1, B0, N). out_b64 N (b64_word B2 B1 B0))"

definition sha_output ::
    "string \<Rightarrow> (byte list \<Rightarrow> (byte \<times> byte \<times> byte \<times> nat) list) \<Rightarrow> nat \<Rightarrow> bool \<Rightarrow> string \<Rightarrow> byte list \<Rightarrow> string \<Rightarrow> int \<Rightarrow> string res" where
  "sha_output prefix groups rounds rounds_custom salt alt_result buffer buflen =
     res_bind (out_stpncpy prefix (nat (max 0 buflen)) \<lparr>so_buffer = buffer, so_cp = 0, so_buflen = buflen\<rparr>) (\<lambda>out0.
     let out1 = out0\<lparr>so_buflen := so_buflen out0 - int (length prefix)\<rparr> in
     res_bind (if rounds_custom then out_snprintf (''rounds='' @ print_nat rounds @ ''$'') out1 else Inr out1) (\<lambda>out2.
     let n = min (nat (max 0 (so_buflen out2))) (length salt) in
     res_bind (out_stpncpy salt n out2) (\<lambda>out3.
     res_bind (out_char CHR ''$'' (out3\<lparr>so_buflen := so_buflen out3 - int n\<rparr>)) (\<lambda>out4.
     res_bind (res_fold b64_from_24bit (groups alt_result) out4) (\<lambda>out5.
     if so_buflen out5 \<le> 0 then Inr (so_buffer out5)
     else memcpy_at (so_cp out5) [NUL] (so_buffer out5))))))"

definition sha_crypt ::
    "'ctx digest_ops \<Rightarrow> string \<Rightarrow> (byte list \<Rightarrow> (byte \<times> byte \<times> byte \<times> nat) list) \<Rightarrow> sha_places \<Rightarrow> 'ctx \<Rightarrow> 'ctx \<Rightarrow>
     string \<Rightarrow> string \<Rightarrow> string \<Rightarrow> int \<Rightarrow> string res" where
  "sha_crypt ops prefix groups pl ctx alt_ctx key salt0 buffer buflen =
     (let (rounds, rounds_custom, salt1) = sha_setting prefix salt0; salt = sha_salt salt1 in
      res_bind (sha_digest ops pl (map byte_of_char key) (map byte_of_char salt) rounds ctx alt_ctx) (\<lambda>(ctx1, alt_result).
      res_bind (sha_output prefix groups rounds rounds_custom salt alt_result buffer buflen) (\<lambda>buffer1.
      res_bind (op_finish ops (op_init ops ctx1)) (\<lambda>_.
      Inr buffer1))))"

definition sha256_groups :: "byte list \<Rightarrow> (byte \<times> byte \<times> byte \<times> nat) list" where
  "sha256_groups alt_result =
     [(alt_result ! 0, alt_result ! 10, alt_result ! 20, 4),
      (alt_result ! 21, alt_result ! 1, alt_result ! 11, 4),
      (alt_result ! 12, alt_result ! 22, alt_result ! 2, 4),
      (alt_result ! 3, alt_result ! 13, alt_result ! 23, 4),
      (alt_result ! 24, alt_result ! 4, alt_result ! 14, 4),
      (alt_result ! 15, alt_result ! 25, alt_result ! 5, 4),
      (alt_result ! 6, alt_result ! 16, alt_result ! 26, 4),
      (alt_result ! 27, alt_result ! 7, alt_result ! 17, 4),
      (alt_result ! 18, alt_result ! 28, alt_result ! 8, 4),
      (alt_result ! 9, alt_result ! 19, alt_result ! 29, 4),
      (0, alt_result ! 31, alt_result ! 30, 3)]"

definition sha512_groups :: "byte list \<Rightarrow> (byte \<times> byte \<times> byte \<times> nat) list" where
  "sha512_groups alt_result =
     [(alt_result ! 0, alt_result ! 21, alt_result ! 42, 4),
      (alt_result ! 22, alt_result ! 43, alt_result ! 1, 4),
      (alt_result ! 44, alt_result ! 2, alt_result ! 23, 4),
      (alt_result ! 3, alt_result ! 24, alt_result ! 45, 4),
      (alt_result ! 25, alt_result ! 46, alt_result ! 4, 4),
      (alt_result ! 47, alt_result ! 5, alt_result ! 26, 4),
      (alt_result ! 6, alt_result ! 27, alt_result ! 48, 4),
      (alt_result ! 28, alt_result ! 49, alt_result ! 7, 4),
      (alt_result ! 50, alt_result ! 8, alt_result ! 29, 4),
      (alt_result ! 9, alt_result ! 30, alt_result ! 51, 4),
      (alt_result ! 31, alt_result ! 52, alt_result ! 10, 4),
      (alt_result ! 53, alt_result ! 11, alt_result ! 32, 4),
      (alt_result ! 12, alt_result ! 33, alt_result ! 54, 4),
      (alt_result ! 34, alt_result ! 55, alt_result ! 13, 4),
      (alt_result ! 56, alt_result ! 14, alt_result ! 35, 4),
      (alt_result ! 15, alt_result ! 36, alt_result ! 57, 4),
      (alt_result ! 37, alt_result ! 58, alt_result ! 16, 4),
      (alt_result ! 59, alt_result ! 17, alt_result ! 38, 4),
      (alt_result ! 18, alt_result ! 39, alt_result ! 60, 4),
      (alt_result ! 40, alt_result ! 61, alt_result ! 19, 4),
      (alt_result ! 62, alt_result ! 20, alt_result ! 41, 4),
      (0, 0, alt_result ! 63, 2)]"

definition crypt_sha256 :: "sha_places \<Rightarrow> sha256_ctx \<Rightarrow> sha256_ctx \<Rightarrow> string \<Rightarrow> string \<Rightarrow> string \<Rightarrow> int \<Rightarrow> string res" where
  "crypt_sha256 = sha_crypt sha256_ops ''$5$'' sha256_groups"

definition crypt_sha512 :: "sha_places \<Rightarrow> sha512_ctx \<Rightarrow> sha512_ctx \<Rightarrow> string \<Rightarrow> string \<Rightarrow> string \<Rightarrow> int \<Rightarrow> string res" where
  "crypt_sha512 = sha_crypt sha512_ops ''$6$'' sha512_groups"


subsection \<open>The scheme as a function of its inputs\<close>

definition sha_cycle :: "byte list \<Rightarrow> nat \<Rightarrow> byte list" where
  "sha_cycle d n = map (\<lambda>i. d ! (i mod length d)) [0..<n]"

fun sha_bits :: "byte list \<Rightarrow> byte list \<Rightarrow> nat \<Rightarrow> byte list" where
  "sha_bits alt key cnt = (if cnt > 0 then (if odd cnt then alt else key) @ sha_bits alt key (cnt div 2) else [])"

declare sha_bits.simps [simp del]

definition sha_spec_intermediate :: "(byte list \<Rightarrow> byte list) \<Rightarrow> byte list \<Rightarrow> byte list \<Rightarrow> byte list" where
  "sha_spec_intermediate hash key salt =
     (let B = hash (key @ salt @ key)
      in hash (key @ salt @ sha_cycle B (length key) @ sha_bits B key (length key)))"

definition sha_spec_sequence :: "(byte list \<Rightarrow> byte list) \<Rightarrow> nat \<Rightarrow> byte list \<Rightarrow> byte list" where
  "sha_spec_sequence hash n bs = sha_cycle (hash (concat (replicate n bs))) (length bs)"

definition sha_spec_round ::
    "(byte list \<Rightarrow> byte list) \<Rightarrow> byte list \<Rightarrow> byte list \<Rightarrow> nat \<Rightarrow> byte list \<Rightarrow> byte list" where
  "sha_spec_round hash P S cnt C =
     hash ((if odd cnt then P else C) @ (if cnt mod 3 \<noteq> 0 then S else [])
       @ (if cnt mod 7 \<noteq> 0 then P else []) @ (if odd cnt then C else P))"

definition sha_spec :: "(byte list \<Rightarrow> byte list) \<Rightarrow> byte list \<Rightarrow> byte list \<Rightarrow> nat \<Rightarrow> byte list" where
  "sha_spec hash key salt rounds =
     (let A = sha_spec_intermediate hash key salt;
          P = sha_spec_sequence hash (length key) key;
          S = sha_spec_sequence hash (16 + unat (A ! 0)) salt
      in fold (sha_spec_round hash P S) [0..<rounds] A)"

subsection \<open>Repeating a digest\<close>

lemma length_sha_cycle [simp]: "length (sha_cycle d n) = n"
  by (simp add: sha_cycle_def)

lemma sha_cycle_take: "cnt \<le> length d \<Longrightarrow> sha_cycle d cnt = take cnt d"
  by (rule nth_equalityI) (simp_all add: sha_cycle_def)

lemma sha_cycle_step:
  assumes "length d \<le> cnt" and "0 < length d"
  shows "sha_cycle d cnt = d @ sha_cycle d (cnt - length d)"
proof (rule nth_equalityI)
  fix i assume "i < length (sha_cycle d cnt)"
  then have i: "i < cnt" by simp
  show "sha_cycle d cnt ! i = (d @ sha_cycle d (cnt - length d)) ! i"
  proof (cases "i < length d")
    case False
    then have "i mod length d = (i - length d) mod length d" by (simp add: le_mod_geq)
    with False i assms show ?thesis by (simp add: sha_cycle_def nth_append)
  qed (use i assms in \<open>simp add: sha_cycle_def nth_append\<close>)
qed (use assms in simp)

lemma sha_fill_bytes_eq:
  assumes "length temp = n" and "0 < n" and "cp + cnt \<le> length mem"
  shows "sha_fill_bytes n temp cnt cp mem = Inr (take cp mem @ sha_cycle temp cnt @ drop (cp + cnt) mem)"
  using assms(3)
proof (induction cnt arbitrary: cp mem rule: less_induct)
  case (less cnt)
  show ?case
  proof (cases "cnt \<ge> n")
    case False
    then show ?thesis using less.prems assms
      by (subst sha_fill_bytes.simps) (simp add: sha_cycle_take min_absorb2)
  next
    case True
    define mem' where "mem' = take cp mem @ temp @ drop (cp + n) mem"
    have len: "length mem' = length mem" using True less.prems assms by (simp add: mem'_def)
    have "sha_fill_bytes n temp cnt cp mem = sha_fill_bytes n temp (cnt - n) (cp + n) mem'"
      using True less.prems assms by (subst sha_fill_bytes.simps) (simp add: mem'_def)
    also have "\<dots> = Inr (take (cp + n) mem' @ sha_cycle temp (cnt - n) @ drop (cp + n + (cnt - n)) mem')"
      using True less.prems assms len by (intro less.IH) simp_all
    also have "take (cp + n) mem' = take cp mem @ temp"
      using True less.prems assms by (simp add: mem'_def)
    also have "drop (cp + n + (cnt - n)) mem' = drop (cp + cnt) mem"
      using True less.prems assms by (simp add: mem'_def add.commute)
    finally show ?thesis
      using sha_cycle_step [of temp cnt] True assms by simp
  qed
qed

subsection \<open>The code computes it\<close>

context digest
begin

lemma process_repE:
  assumes "rep ctx m" and "length bs < 2 ^ 32"
  obtains ctx' where "op_process ops p bs ctx = Inr ctx'" "rep ctx' (m @ bs)"
  using process_rep [OF assms, of p] by blast

lemma finish_repE:
  assumes "rep ctx m"
  obtains ctx' where "op_finish ops ctx = Inr (ctx', hash m)" "ctx_ok ctx'"
  using finish_rep [OF assms] by blast

lemma pieces_repE:
  assumes "rep ctx m" and "\<forall>(p, bs) \<in> set pieces. length bs < 2 ^ 32"
  obtains ctx' where "op_pieces ops pieces ctx = Inr ctx'" "rep ctx' (m @ concat (map snd pieces))"
  using pieces_rep [OF assms] by blast

lemma add_alt_rep:
  assumes "rep ctx m" and "length alt = op_len ops"
  obtains ctx' where "sha_add_alt ops p alt cnt ctx = Inr ctx'" "rep ctx' (m @ sha_cycle alt cnt)"
proof -
  have "\<exists>ctx'. sha_add_alt ops p alt cnt ctx = Inr ctx' \<and> rep ctx' (m @ sha_cycle alt cnt)"
    using assms(1)
  proof (induction cnt arbitrary: ctx m rule: less_induct)
    case (less cnt)
    show ?case
    proof (cases "cnt > op_len ops")
      case True
      obtain ctx1 where 1: "op_process ops p alt ctx = Inr ctx1" "rep ctx1 (m @ alt)"
        using process_repE [OF less.prems, of alt p] assms(2) len_bound by auto
      have "sha_add_alt ops p alt cnt ctx = sha_add_alt ops p alt (cnt - op_len ops) ctx1"
        using True len_pos 1(1) by (subst sha_add_alt.simps) simp
      moreover have "sha_cycle alt cnt = alt @ sha_cycle alt (cnt - op_len ops)"
        using True assms(2) len_pos sha_cycle_step [of alt cnt] by simp
      ultimately show ?thesis using less.IH [OF _ 1(2)] True len_pos by simp
    next
      case False
      then have "sha_add_alt ops p alt cnt ctx = op_process ops p (sha_cycle alt cnt) ctx"
        using assms(2) len_pos by (subst sha_add_alt.simps) (simp add: sha_cycle_take)
      moreover have "length (sha_cycle alt cnt) < 2 ^ 32" using False len_bound by simp
      ultimately show ?thesis using process_rep [OF less.prems] by simp
    qed
  qed
  then show thesis using that by blast
qed

lemma add_bits_rep:
  assumes "rep ctx m" and "length alt < 2 ^ 32" and "length key < 2 ^ 32"
  obtains ctx' where "sha_add_bits ops ap alt kp key cnt ctx = Inr ctx'" "rep ctx' (m @ sha_bits alt key cnt)"
proof -
  have "\<exists>ctx'. sha_add_bits ops ap alt kp key cnt ctx = Inr ctx' \<and> rep ctx' (m @ sha_bits alt key cnt)"
    using assms(1)
  proof (induction cnt arbitrary: ctx m rule: less_induct)
    case (less cnt)
    show ?case
    proof (cases "cnt > 0")
      case True
      obtain ctx1 where 1: "(if odd cnt then op_process ops ap alt ctx else op_process ops kp key ctx) = Inr ctx1"
        "rep ctx1 (m @ (if odd cnt then alt else key))"
        using process_rep [OF less.prems assms(2), of ap] process_rep [OF less.prems assms(3), of kp]
        by (cases "odd cnt") auto
      have "sha_add_bits ops ap alt kp key cnt ctx = sha_add_bits ops ap alt kp key (cnt div 2) ctx1"
        using True 1(1) by (subst sha_add_bits.simps) (simp split: if_splits)
      moreover have "sha_bits alt key cnt = (if odd cnt then alt else key) @ sha_bits alt key (cnt div 2)"
        using True by (subst sha_bits.simps) simp
      ultimately show ?thesis using less.IH [OF _ 1(2)] True by simp
    qed (use less.prems in \<open>simp add: sha_add_bits.simps sha_bits.simps\<close>)
  qed
  then show thesis using that by blast
qed

lemma times_rep:
  assumes "rep ctx m" and "length bs < 2 ^ 32"
  obtains ctx' where "sha_times ops n p bs ctx = Inr ctx'" "rep ctx' (m @ concat (replicate n bs))"
proof -
  have "\<exists>ctx'. sha_times ops n p bs ctx = Inr ctx' \<and> rep ctx' (m @ concat (replicate n bs))"
  proof (induction n)
    case (Suc n)
    then obtain ctx1 where 1: "sha_times ops n p bs ctx = Inr ctx1" "rep ctx1 (m @ concat (replicate n bs))" by blast
    obtain ctx2 where "op_process ops p bs ctx1 = Inr ctx2" "rep ctx2 ((m @ concat (replicate n bs)) @ bs)"
      by (rule process_repE [OF 1(2) assms(2), of p])
    moreover have "concat (replicate (Suc n) bs) = concat (replicate n bs) @ bs"
      by (simp flip: replicate_append_same)
    ultimately show ?case using 1 by (simp add: sha_times_def res_fold_append del: replicate_Suc)
  qed (use assms in \<open>simp add: sha_times_def\<close>)
  then show thesis using that by blast
qed

lemma intermediate_eq:
  assumes "ctx_ok ctx" and "ctx_ok alt_ctx" and "length key < 2 ^ 32" and "length salt < 2 ^ 32"
  obtains ctx' alt_ctx' where
    "sha_intermediate ops kp sp ap key salt ctx alt_ctx = Inr (ctx', alt_ctx', sha_spec_intermediate hash key salt)"
    "ctx_ok ctx'" "ctx_ok alt_ctx'"
proof -
  define B where "B = hash (key @ salt @ key)"
  have lB: "length B = op_len ops" by (simp add: B_def hash_length)
  obtain ctx1 where 1: "op_pieces ops [(kp, key), (sp, salt)] (op_init ops ctx) = Inr ctx1" "rep ctx1 (key @ salt)"
    using pieces_rep [OF init_rep [OF assms(1)], of "[(kp, key), (sp, salt)]"] assms(3,4) by auto
  obtain alt1 where 2: "op_pieces ops [(kp, key), (sp, salt), (kp, key)] (op_init ops alt_ctx) = Inr alt1"
    "rep alt1 (key @ salt @ key)"
    using pieces_rep [OF init_rep [OF assms(2)], of "[(kp, key), (sp, salt), (kp, key)]"] assms(3,4) by auto
  obtain alt2 where 3: "op_finish ops alt1 = Inr (alt2, B)" "ctx_ok alt2"
    unfolding B_def by (rule finish_repE [OF 2(2)])
  obtain ctx2 where 4: "sha_add_alt ops ap B (length key) ctx1 = Inr ctx2"
    "rep ctx2 ((key @ salt) @ sha_cycle B (length key))" by (rule add_alt_rep [OF 1(2) lB])
  have lB32: "length B < 2 ^ 32" using lB len_bound by simp
  obtain ctx3 where 5: "sha_add_bits ops ap B kp key (length key) ctx2 = Inr ctx3"
    "rep ctx3 (((key @ salt) @ sha_cycle B (length key)) @ sha_bits B key (length key))"
    by (rule add_bits_rep [OF 4(2) lB32 assms(3)])
  obtain ctx4 where 6: "op_finish ops ctx3 = Inr (ctx4, hash (((key @ salt) @ sha_cycle B (length key)) @ sha_bits B key (length key)))"
    "ctx_ok ctx4" by (rule finish_repE [OF 5(2)])
  show thesis
  proof (rule that [of ctx4 alt2])
    show "sha_intermediate ops kp sp ap key salt ctx alt_ctx = Inr (ctx4, alt2, sha_spec_intermediate hash key salt)"
      by (simp add: sha_intermediate_def 1 2 3 4 5 6 sha_spec_intermediate_def Let_def flip: B_def)
  qed (rule 6(2) 3(2))+
qed

lemma sequence_eq:
  assumes "ctx_ok alt_ctx" and "length bs < 2 ^ 32" and "\<And>k. length (alloca k) = k"
  obtains alt_ctx' where "sha_sequence ops alloca n p bs alt_ctx = Inr (alt_ctx', sha_spec_sequence hash n bs)"
    "ctx_ok alt_ctx'"
proof -
  obtain alt1 where 1: "sha_times ops n p bs (op_init ops alt_ctx) = Inr alt1" "rep alt1 ([] @ concat (replicate n bs))"
    by (rule times_rep [OF init_rep [OF assms(1)] assms(2)])
  obtain alt2 where 2: "op_finish ops alt1 = Inr (alt2, hash ([] @ concat (replicate n bs)))" "ctx_ok alt2"
    by (rule finish_repE [OF 1(2)])
  have "sha_fill_bytes (op_len ops) (hash (concat (replicate n bs))) (length bs) 0 (alloca (length bs))
      = Inr (sha_spec_sequence hash n bs)"
    using sha_fill_bytes_eq [of "hash (concat (replicate n bs))" "op_len ops" 0 "length bs" "alloca (length bs)"]
      hash_length len_pos assms(3) by (simp add: sha_spec_sequence_def)
  with 1 2 show thesis by (intro that [of alt2]) (simp_all add: sha_sequence_def)
qed

lemma round_eq:
  assumes "ctx_ok ctx" and "length P < 2 ^ 32" and "length S < 2 ^ 32" and "length C < 2 ^ 32"
  shows "\<exists>ctx'. sha_round ops pp sp ap P S cnt (ctx, C) = Inr (ctx', sha_spec_round hash P S cnt C) \<and> ctx_ok ctx'"
proof -
  define pieces where "pieces = [if odd cnt then (pp, P) else (ap, C)]
    @ (if cnt mod 3 \<noteq> 0 then [(sp, S)] else []) @ (if cnt mod 7 \<noteq> 0 then [(pp, P)] else [])
    @ [if odd cnt then (ap, C) else (pp, P)]"
  have "\<forall>(p, bs) \<in> set pieces. length bs < 2 ^ 32" using assms(2-4) by (auto simp: pieces_def)
  moreover have "hash (concat (map snd pieces)) = sha_spec_round hash P S cnt C"
    by (simp add: pieces_def sha_spec_round_def)
  ultimately show ?thesis
    using hash_pieces [OF assms(1), of pieces] unfolding sha_round_def prod.case pieces_def [symmetric] by simp
qed

lemma rounds_eq:
  assumes "ctx_ok ctx" and "length P < 2 ^ 32" and "length S < 2 ^ 32" and "length A = op_len ops"
  shows "\<exists>ctx'. res_fold (sha_round ops pp sp ap P S) [0..<n] (ctx, A)
      = Inr (ctx', fold (sha_spec_round hash P S) [0..<n] A) \<and> ctx_ok ctx'
    \<and> length (fold (sha_spec_round hash P S) [0..<n] A) = op_len ops"
proof (induction n)
  case (Suc n)
  define C where "C = fold (sha_spec_round hash P S) [0..<n] A"
  from Suc obtain ctx1 where 1: "res_fold (sha_round ops pp sp ap P S) [0..<n] (ctx, A) = Inr (ctx1, C)" "ctx_ok ctx1"
    "length C = op_len ops" by (auto simp: C_def)
  obtain ctx2 where 2: "sha_round ops pp sp ap P S n (ctx1, C) = Inr (ctx2, sha_spec_round hash P S n C)" "ctx_ok ctx2"
    using round_eq [OF 1(2) assms(2,3), of C pp sp ap n] 1(3) len_bound by auto
  have "length (sha_spec_round hash P S n C) = op_len ops" by (simp add: sha_spec_round_def hash_length)
  with 1 2 show ?case by (simp add: res_fold_append flip: C_def)
qed (use assms in simp)

lemma digest_eq:
  assumes "ctx_ok ctx" and "ctx_ok alt_ctx" and "length key < 2 ^ 32" and "length salt < 2 ^ 32"
    and "\<And>k. length (pl_alloca pl k) = k"
  obtains ctx' where "sha_digest ops pl key salt rounds ctx alt_ctx = Inr (ctx', sha_spec hash key salt rounds)" "ctx_ok ctx'"
proof -
  define kp sp where "kp = sha_align (op_align ops) (pl_key pl) (pl_key_tmp pl)"
    and "sp = sha_align (op_align ops) (pl_salt pl) (pl_salt_tmp pl)"
  define A where "A = sha_spec_intermediate hash key salt"
  define P where "P = sha_spec_sequence hash (length key) key"
  define S where "S = sha_spec_sequence hash (16 + unat (A ! 0)) salt"
  have len: "length P < 2 ^ 32" "length S < 2 ^ 32" "length A = op_len ops"
    using assms(3,4) by (simp_all add: P_def S_def A_def sha_spec_sequence_def sha_spec_intermediate_def Let_def hash_length)
  obtain ctx1 alt1 where 1: "sha_intermediate ops kp sp (pl_alt_result pl) key salt ctx alt_ctx = Inr (ctx1, alt1, A)"
    "ctx_ok ctx1" "ctx_ok alt1"
    unfolding A_def by (rule intermediate_eq [OF assms(1-4)])
  obtain alt2 where 2: "sha_sequence ops (pl_alloca pl) (length key) kp key alt1 = Inr (alt2, P)" "ctx_ok alt2"
    unfolding P_def by (rule sequence_eq [OF 1(3) assms(3,5)])
  obtain alt3 where 3: "sha_sequence ops (pl_alloca pl) (16 + unat (A ! 0)) sp salt alt2 = Inr (alt3, S)"
    unfolding S_def by (rule sequence_eq [OF 2(2) assms(4,5)])
  obtain ctx2 where 4: "res_fold (sha_round ops (pl_p_bytes pl) (pl_s_bytes pl) (pl_alt_result pl) P S) [0..<rounds] (ctx1, A)
      = Inr (ctx2, fold (sha_spec_round hash P S) [0..<rounds] A)" "ctx_ok ctx2"
    using rounds_eq [OF 1(2) len] by blast
  show thesis
  proof (rule that [OF _ 4(2)])
    show "sha_digest ops pl key salt rounds ctx alt_ctx = Inr (ctx2, sha_spec hash key salt rounds)"
      using 1 2 3 4 by (simp add: sha_digest_def sha_spec_def Let_def flip: kp_def sp_def A_def P_def S_def)
  qed
qed

end


subsection \<open>The result is the text of the scheme\<close>

definition sha_head :: "string \<Rightarrow> nat \<Rightarrow> bool \<Rightarrow> string \<Rightarrow> string" where
  "sha_head prefix rounds rounds_custom salt =
     prefix @ (if rounds_custom then ''rounds='' @ print_nat rounds @ ''$'' else []) @ salt @ ''$''"

definition sha_text ::
    "string \<Rightarrow> (byte list \<Rightarrow> (byte \<times> byte \<times> byte \<times> nat) list) \<Rightarrow> (byte list \<Rightarrow> byte list) \<Rightarrow> string \<Rightarrow> string \<Rightarrow> string" where
  "sha_text prefix groups hash key salt0 =
     (let (rounds, rounds_custom, salt1) = sha_setting prefix salt0; salt = sha_salt salt1 in
      sha_head prefix rounds rounds_custom salt
      @ concat (map b64_group (groups (sha_spec hash (map byte_of_char key) (map byte_of_char salt) rounds))))"

definition out_rep :: "nat \<Rightarrow> sha_out \<Rightarrow> string \<Rightarrow> bool" where
  "out_rep N out str \<longleftrightarrow> length (so_buffer out) = N \<and> so_cp out = length str \<and> take (length str) (so_buffer out) = str
     \<and> so_buflen out = int N - int (length str)"

lemma out_char_rep:
  assumes "out_rep N out str" and "length str < N"
  obtains out' where "out_char c out = Inr out'" "out_rep N out' (str @ [c])"
proof -
  define b where "b = take (length str) (so_buffer out) @ [c] @ drop (length str + 1) (so_buffer out)"
  have b: "memcpy_at (so_cp out) [c] (so_buffer out) = Inr b" "length b = N" "take (length str + 1) b = str @ [c]"
    using assms by (simp_all add: out_rep_def b_def)
  show thesis
    by (rule that [of "out\<lparr>so_buffer := b, so_cp := so_cp out + 1, so_buflen := so_buflen out - 1\<rparr>"])
      (use assms b in \<open>simp_all add: out_char_def out_rep_def\<close>)
qed

lemma out_b64_rep:
  "out_rep N out str \<Longrightarrow> length str + n \<le> N \<Longrightarrow>
   \<exists>out'. out_b64 n w out = Inr out' \<and> out_rep N out' (str @ b64_chars n w)"
proof (induction n arbitrary: out str w)
  case (Suc n)
  have "length str < N" using Suc.prems(2) by simp
  then obtain out1 where 1: "out_char (itoa64 ! unat (w AND 0x3f)) out = Inr out1"
    "out_rep N out1 (str @ [itoa64 ! unat (w AND 0x3f)])"
    by (rule out_char_rep [OF Suc.prems(1)])
  with Suc.IH [OF 1(2), of "drop_bit 6 w"] Suc.prems(2) show ?case by simp
qed simp

lemma out_groups_rep:
  "out_rep N out str \<Longrightarrow> length str + length (concat (map b64_group gs)) \<le> N \<Longrightarrow>
   \<exists>out'. res_fold b64_from_24bit gs out = Inr out' \<and> out_rep N out' (str @ concat (map b64_group gs))"
proof (induction gs arbitrary: out str)
  case (Cons g gs)
  obtain B2 B1 B0 n where g: "g = (B2, B1, B0, n)" by (cases g)
  have n: "length (b64_group g) = n" by (simp add: length_b64_group g)
  then have "length str + n \<le> N" using Cons.prems(2) by simp
  then obtain out1 where 1: "b64_from_24bit g out = Inr out1" "out_rep N out1 (str @ b64_group g)"
    using out_b64_rep [OF Cons.prems(1), of n "b64_word B2 B1 B0"] by (auto simp: b64_from_24bit_def b64_group_def g)
  with Cons.IH [OF 1(2)] Cons.prems(2) show ?case by simp
qed simp

lemma out_snprintf_rep:
  assumes "out_rep N out str" and "length str + length s < N"
  obtains out' where "out_snprintf s out = Inr out'" "out_rep N out' (str @ s)"
proof -
  define b where "b = take (length str) (so_buffer out) @ (s @ [NUL]) @ drop (length str + length s + 1) (so_buffer out)"
  have size: "nat (max 0 (so_buflen out)) = N - length str" using assms by (simp add: out_rep_def max_def nat_diff_distrib)
  have b: "memcpy_at (so_cp out) (s @ [NUL]) (so_buffer out) = Inr b" "length b = N" "take (length str + length s) b = str @ s"
    using assms by (simp_all add: out_rep_def b_def)
  show thesis
    by (rule that [of "out\<lparr>so_buffer := b, so_cp := so_cp out + length s, so_buflen := so_buflen out - int (length s)\<rparr>"])
      (use assms b in \<open>simp_all add: out_snprintf_def out_rep_def size Let_def\<close>)
qed

lemma out_stpncpy_rep:
  assumes "out_rep N out str" and "length str + n \<le> N" and "length s \<le> n"
  obtains out' where "out_stpncpy s n out = Inr out'" "out_rep N (out'\<lparr>so_buflen := so_buflen out' - int (length s)\<rparr>) (str @ s)"
proof -
  define b where "b = take (length str) (so_buffer out) @ (s @ replicate (n - length s) NUL) @ drop (length str + n) (so_buffer out)"
  have b: "memcpy_at (so_cp out) (take n s @ replicate (n - length s) NUL) (so_buffer out) = Inr b" "length b = N"
    "take (length str + length s) b = str @ s"
    using assms by (simp_all add: out_rep_def b_def)
  show thesis
    by (rule that [of "out\<lparr>so_buffer := b, so_cp := so_cp out + length s\<rparr>"])
      (use assms b in \<open>simp_all add: out_stpncpy_def out_rep_def min_absorb2\<close>)
qed

lemma sha_output_eq:
  assumes "str = sha_head prefix rounds rounds_custom salt @ concat (map b64_group (groups alt_result))"
    and "length str < length buffer" and "NUL \<notin> set str"
  shows "\<exists>b. sha_output prefix groups rounds rounds_custom salt alt_result buffer (int (length buffer)) = Inr b \<and> NUL \<in> set b \<and> cstr b = str"
proof -
  define N where "N = length buffer"
  define rs where "rs = (if rounds_custom then ''rounds='' @ print_nat rounds @ ''$'' else [])"
  define enc where "enc = concat (map b64_group (groups alt_result))"
  have str: "str = prefix @ rs @ salt @ [CHR ''$''] @ enc" by (simp add: assms(1) sha_head_def rs_def enc_def)
  have N: "length prefix + length rs + length salt + 1 + length enc < N"
    using assms(2) by (simp add: str N_def)
  define out where "out = \<lparr>so_buffer = buffer, so_cp = 0, so_buflen = int N\<rparr>"
  have r0: "out_rep N out []" by (simp add: out_rep_def out_def N_def)
  obtain out0 where 0: "out_stpncpy prefix N out = Inr out0"
    "out_rep N (out0\<lparr>so_buflen := so_buflen out0 - int (length prefix)\<rparr>) ([] @ prefix)"
    by (rule out_stpncpy_rep [OF r0, of N prefix]) (use N in simp_all)
  define out1 where "out1 = out0\<lparr>so_buflen := so_buflen out0 - int (length prefix)\<rparr>"
  obtain out2 where 2: "(if rounds_custom then out_snprintf (''rounds='' @ print_nat rounds @ ''$'') out1 else Inr out1) = Inr out2"
    "out_rep N out2 (prefix @ rs)"
  proof (cases rounds_custom)
    case True
    have r1: "out_rep N out1 prefix" using 0(2) by (simp add: out1_def)
    have "length prefix + length rs < N" using N by simp
    then obtain out2 where "out_snprintf rs out1 = Inr out2" "out_rep N out2 (prefix @ rs)" by (rule out_snprintf_rep [OF r1])
    with True show thesis by (intro that [of out2]) (simp_all add: rs_def)
  qed (use 0(2) in \<open>simp add: rs_def out1_def that\<close>)
  have n: "min (nat (max 0 (so_buflen out2))) (length salt) = length salt" using 2(2) N by (simp add: out_rep_def)
  obtain out3 where 3: "out_stpncpy salt (length salt) out2 = Inr out3"
    "out_rep N (out3\<lparr>so_buflen := so_buflen out3 - int (length salt)\<rparr>) ((prefix @ rs) @ salt)"
    by (rule out_stpncpy_rep [OF 2(2), of "length salt" salt]) (use N in simp_all)
  obtain out4 where 4: "out_char CHR ''$'' (out3\<lparr>so_buflen := so_buflen out3 - int (length salt)\<rparr>) = Inr out4"
    "out_rep N out4 (((prefix @ rs) @ salt) @ [CHR ''$''])"
    by (rule out_char_rep [OF 3(2)]) (use N in simp)
  obtain out5 where 5: "res_fold b64_from_24bit (groups alt_result) out4 = Inr out5" "out_rep N out5 str"
    using out_groups_rep [OF 4(2), of "groups alt_result"] N by (auto simp: str simp flip: enc_def)
  have len: "length str < N" using N by (simp add: str)
  obtain b where b: "memcpy_at (so_cp out5) [NUL] (so_buffer out5) = Inr b" "b = str @ NUL # drop (length str + 1) (so_buffer out5)"
    using 5(2) len by (auto simp: out_rep_def)
  have nb: "\<not> so_buflen out5 \<le> 0" using 5(2) len by (simp add: out_rep_def)
  have nN: "nat (max 0 (int N)) = N" by simp
  have "sha_output prefix groups rounds rounds_custom salt alt_result buffer (int N) = Inr b"
    unfolding sha_output_def Let_def
    by (simp only: nN out_def [symmetric] 0(1) out1_def [symmetric] 2(1) n 3(1) 4(1) 5(1) b(1) nb res_bind_simps if_False)
  moreover have "NUL \<in> set b" "cstr b = str"
    using assms(3) by (simp_all add: b(2) cstr_append_NUL)
  ultimately show ?thesis by (simp add: N_def)
qed


lemma set_sha_salt: "set (sha_salt s) \<subseteq> set s - {CHR ''$''}"
  by (auto simp: sha_salt_def dest!: in_set_takeD set_takeWhileD)

lemma length_sha_salt: "length (sha_salt s) \<le> 16"
  by (simp add: sha_salt_def)

lemma sha_setting_props:
  assumes "sha_setting prefix salt0 = (rounds, rounds_custom, salt1)"
  shows "1000 \<le> rounds" "rounds \<le> 999999999" "set salt1 \<subseteq> set salt0"
proof -
  define salt where "salt = (if take (length prefix) salt0 = prefix then drop (length prefix) salt0 else salt0)"
  define v endp where "v = fst (strtoul10 (drop 7 salt))" and "endp = snd (strtoul10 (drop 7 salt))"
  have eq: "sha_setting prefix salt0 = (if take 7 salt = ''rounds='' \<and> endp \<noteq> [] \<and> hd endp = CHR ''$''
      then (max 1000 (min v 999999999), True, tl endp) else (5000, False, salt))"
    by (auto simp: sha_setting_def Let_def salt_def v_def endp_def split: prod.splits)
  have salt: "set salt \<subseteq> set salt0" by (auto simp: salt_def dest: in_set_dropD)
  have "set endp \<subseteq> set salt"
    unfolding endp_def strtoul10_def Let_def
    by (auto dest!: in_set_dropD set_dropWhileD in_set_dropD list.set_sel(2) [rotated] split: if_splits)
  then have "set (tl endp) \<subseteq> set salt" using list.set_sel(2) [of endp] by (cases endp) auto
  with assms salt show "1000 \<le> rounds" "rounds \<le> 999999999" "set salt1 \<subseteq> set salt0"
    by (auto simp: eq split: if_splits)
qed

lemma length_sha_head:
  assumes "sha_setting prefix salt0 = (rounds, rounds_custom, salt1)"
  shows "length (sha_head prefix rounds rounds_custom (sha_salt salt1)) \<le> length prefix + 34"
proof -
  have "length (print_nat rounds) \<le> 9"
    using sha_setting_props(2) [OF assms] by (intro length_print_nat) simp_all
  then show ?thesis using length_sha_salt [of salt1] by (simp add: sha_head_def)
qed


context digest
begin

lemma crypt_eq:
  assumes ctx: "ctx_ok ctx" "ctx_ok alt_ctx" and key: "length key < 2 ^ 32" and alloca: "\<And>k. length (pl_alloca pl k) = k"
    and nul: "NUL \<notin> set prefix" "NUL \<notin> set salt0"
    and enc: "\<And>d. length prefix + 34 + length (concat (map b64_group (groups d))) < length buffer"
  shows "\<exists>b. sha_crypt ops prefix groups pl ctx alt_ctx key salt0 buffer (int (length buffer)) = Inr b
    \<and> NUL \<in> set b \<and> cstr b = sha_text prefix groups hash key salt0"
proof -
  obtain rounds rc salt1 where set: "sha_setting prefix salt0 = (rounds, rc, salt1)" by (rule prod_cases3)
  define d where "d = sha_spec hash (map byte_of_char key) (map byte_of_char (sha_salt salt1)) rounds"
  define str where "str = sha_head prefix rounds rc (sha_salt salt1) @ concat (map b64_group (groups d))"
  have str: "str = sha_text prefix groups hash key salt0" by (simp add: str_def d_def sha_text_def set Let_def)
  have saltlen: "length (map byte_of_char (sha_salt salt1)) < 2 ^ 32"
    using length_sha_salt [of salt1] by (auto intro: le_less_trans)
  have keylen: "length (map byte_of_char key) < 2 ^ 32" using key by simp
  obtain ctx1 where 1: "sha_digest ops pl (map byte_of_char key) (map byte_of_char (sha_salt salt1)) rounds ctx alt_ctx = Inr (ctx1, d)"
    "ctx_ok ctx1" unfolding d_def by (rule digest_eq [OF ctx keylen saltlen alloca])
  have "length str < length buffer"
    using length_sha_head [OF set] enc [of d] by (simp add: str_def)
  moreover have "NUL \<notin> set str"
  proof -
    have "NUL \<notin> set (sha_salt salt1)" using set_sha_salt [of salt1] sha_setting_props(3) [OF set] nul(2) by auto
    moreover have "NUL \<notin> set ''rounds=''" "NUL \<noteq> CHR ''$''" by (simp_all add: NUL_def)
    ultimately show ?thesis using nul(1) NUL_print_nat NUL_b64_group by (simp add: str_def sha_head_def)
  qed
  ultimately obtain b where 2: "sha_output prefix groups rounds rc (sha_salt salt1) d buffer (int (length buffer)) = Inr b" "NUL \<in> set b" "cstr b = str"
    using sha_output_eq [where groups = groups and alt_result = d, OF str_def] by blast
  obtain ctx2 where "op_finish ops (op_init ops ctx1) = Inr (ctx2, hash [])"
    by (rule finish_repE [OF init_rep [OF 1(2)]])
  with 1 2 set have "sha_crypt ops prefix groups pl ctx alt_ctx key salt0 buffer (int (length buffer)) = Inr b"
    by (simp add: sha_crypt_def Let_def)
  with 2 str show ?thesis by blast
qed

end

subsection \<open>A result checked against itself\<close>

lemma sha_salt_head: "sha_salt (sha_salt s @ CHR ''$'' # r) = sha_salt s"
proof -
  have "takeWhile (\<lambda>c. c \<noteq> CHR ''$'') (sha_salt s @ CHR ''$'' # r) = sha_salt s"
    using set_sha_salt [of s] by (subst takeWhile_append2) auto
  then show ?thesis unfolding sha_salt_def [of "sha_salt s @ CHR ''$'' # r"] using length_sha_salt [of s] by simp
qed

text \<open>
  The setting is read back from a result, unless the setting named no number of rounds and its salt
  itself starts with \<^verbatim>\<open>rounds=\<close>.
\<close>

lemma sha_setting_head:
  assumes "sha_setting prefix salt0 = (rounds, rc, salt1)" and "rc \<or> take 7 (sha_salt salt1) \<noteq> ''rounds=''"
  shows "sha_setting prefix (sha_head prefix rounds rc (sha_salt salt1) @ r) = (rounds, rc, sha_salt salt1 @ CHR ''$'' # r)"
proof (cases rc)
  case True
  have "\<not> isdigit CHR ''$''" by (simp add: isdigit_def)
  then have "strtoul10 (print_nat rounds @ CHR ''$'' # sha_salt salt1 @ CHR ''$'' # r)
      = (rounds, CHR ''$'' # sha_salt salt1 @ CHR ''$'' # r)"
    using sha_setting_props(2) [OF assms(1)] by (intro strtoul10_print_nat) simp_all
  with True sha_setting_props(1,2) [OF assms(1)] show ?thesis by (simp add: sha_setting_def sha_head_def Let_def)
next
  case False
  have "5000 = rounds" using assms(1) False by (auto simp: sha_setting_def Let_def split: if_splits prod.splits)
  moreover have "take 7 (sha_salt salt1 @ CHR ''$'' # r) \<noteq> ''rounds=''"
  proof (cases "7 \<le> length (sha_salt salt1)")
    case True
    then show ?thesis using assms(2) False by simp
  next
    case short: False
    then have "take 7 (sha_salt salt1 @ CHR ''$'' # r) ! length (sha_salt salt1) = CHR ''$''" by (simp add: nth_append)
    moreover have "''rounds='' ! length (sha_salt salt1) \<noteq> CHR ''$''"
    proof -
      have "''rounds='' ! length (sha_salt salt1) \<in> set ''rounds=''" using short by (intro nth_mem) simp
      then show ?thesis by auto
    qed
    ultimately show ?thesis by metis
  qed
  ultimately show ?thesis using False by (simp add: sha_setting_def sha_head_def Let_def)
qed

definition sha_plain_setting :: "string \<Rightarrow> string \<Rightarrow> bool" where
  "sha_plain_setting prefix salt0 =
     (let (rounds, rc, salt1) = sha_setting prefix salt0 in rc \<or> take 7 (sha_salt salt1) \<noteq> ''rounds='')"

lemma sha_text_again:
  assumes "sha_plain_setting prefix salt0"
  shows "sha_text prefix groups hash key (sha_text prefix groups hash key0 salt0) = sha_text prefix groups hash key salt0"
proof -
  obtain rounds rc salt1 where set: "sha_setting prefix salt0 = (rounds, rc, salt1)" by (rule prod_cases3)
  with assms have plain: "rc \<or> take 7 (sha_salt salt1) \<noteq> ''rounds=''" by (simp add: sha_plain_setting_def)
  show ?thesis
    using sha_setting_head [OF set plain] by (simp add: sha_text_def [of _ _ _ _ salt0] set sha_text_def sha_salt_head Let_def)
qed


subsection \<open>The text determines the digest\<close>

lemma sha256_groups_inj:
  assumes "length d = 32" and "length d' = 32"
    and "concat (map b64_group (sha256_groups d)) = concat (map b64_group (sha256_groups d'))"
  shows "d = d'"
proof -
  have "map b64_group (sha256_groups d) = map b64_group (sha256_groups d')"
    using assms(3) by (subst (asm) concat_groups_eq) (simp_all add: sha256_groups_def)
  then have "\<forall>i \<in> set [0, 10, 20, 21, 1, 11, 12, 22, 2, 3, 13, 23, 24, 4, 14, 15, 25, 5, 6, 16, 26, 27, 7, 17, 18, 28, 8, 9, 19, 29, 31, 30]. d ! i = d' ! i"
    by (simp add: sha256_groups_def b64_group_inj)
  then show ?thesis by (rule list_eq_indices [OF assms(1,2)]) code_simp
qed

lemma sha512_groups_inj:
  assumes "length d = 64" and "length d' = 64"
    and "concat (map b64_group (sha512_groups d)) = concat (map b64_group (sha512_groups d'))"
  shows "d = d'"
proof -
  have "map b64_group (sha512_groups d) = map b64_group (sha512_groups d')"
    using assms(3) by (subst (asm) concat_groups_eq) (simp_all add: sha512_groups_def)
  then have "\<forall>i \<in> set [0, 21, 42, 22, 43, 1, 44, 2, 23, 3, 24, 45, 25, 46, 4, 47, 5, 26, 6, 27, 48, 28, 49, 7, 50, 8, 29, 9, 30, 51, 31, 52, 
      10, 53, 11, 32, 12, 33, 54, 34, 55, 13, 56, 14, 35, 15, 36, 57, 37, 58, 16, 59, 17, 38, 18, 39, 60, 40, 61, 19, 62, 20, 41, 63]. d ! i = d' ! i"
    by (simp add: sha512_groups_def b64_group_inj)
  then show ?thesis by (rule list_eq_indices [OF assms(1,2)]) code_simp
qed

lemma length_groups:
  "length (concat (map b64_group (sha256_groups d))) = 43"
  "length (concat (map b64_group (sha512_groups d))) = 86"
  by (simp_all add: sha256_groups_def sha512_groups_def length_b64_group)

lemma length_sha_spec:
  assumes "\<And>m. length (hash m) = n"
  shows "length (sha_spec hash key salt rounds) = n"
proof -
  have "length (fold (sha_spec_round hash P S) [0..<k] A) = n" if "length A = n" for P S A k
    using that assms by (induction k) (simp_all add: sha_spec_round_def)
  then show ?thesis using assms by (simp add: sha_spec_def sha_spec_intermediate_def Let_def)
qed


subsection \<open>The two instances\<close>

definition sha256_text :: "string \<Rightarrow> string \<Rightarrow> string" where
  "sha256_text = sha_text ''$5$'' sha256_groups sha256"

definition sha512_text :: "string \<Rightarrow> string \<Rightarrow> string" where
  "sha512_text = sha_text ''$6$'' sha512_groups sha512"

lemma crypt_sha256_eq:
  assumes "length (sha256_buffer ctx) = 128" and "length (sha256_buffer alt_ctx) = 128"
    and "length key < 2 ^ 32" and "\<And>k. length (pl_alloca pl k) = k" and "NUL \<notin> set salt" and "length buffer = 128"
  shows "\<exists>b. crypt_sha256 pl ctx alt_ctx key salt buffer 128 = Inr b \<and> NUL \<in> set b \<and> cstr b = sha256_text key salt"
  using d256.crypt_eq [of ctx alt_ctx key pl "''$5$''" salt sha256_groups buffer] assms
  by (simp add: sha256_ctx_ok_def crypt_sha256_def sha256_text_def length_groups NUL_def)

lemma crypt_sha512_eq:
  assumes "length (sha512_buffer ctx) = 256" and "length (sha512_buffer alt_ctx) = 256"
    and "length key < 2 ^ 32" and "\<And>k. length (pl_alloca pl k) = k" and "NUL \<notin> set salt" and "length buffer = 128"
  shows "\<exists>b. crypt_sha512 pl ctx alt_ctx key salt buffer 128 = Inr b \<and> NUL \<in> set b \<and> cstr b = sha512_text key salt"
  using d512.crypt_eq [of ctx alt_ctx key pl "''$6$''" salt sha512_groups buffer] assms
  by (simp add: sha512_ctx_ok_def crypt_sha512_def sha512_text_def length_groups NUL_def)

text \<open>The digest a password has under the rounds and the salt of a setting.\<close>

definition sha_setting_digest :: "string \<Rightarrow> (byte list \<Rightarrow> byte list) \<Rightarrow> string \<Rightarrow> string \<Rightarrow> byte list" where
  "sha_setting_digest prefix hash salt0 key =
     (let (rounds, rc, salt1) = sha_setting prefix salt0
      in sha_spec hash (map byte_of_char key) (map byte_of_char (sha_salt salt1)) rounds)"

lemma sha_text_eq_iff:
  assumes "\<And>d d'. length d = n \<Longrightarrow> length d' = n \<Longrightarrow>
      concat (map b64_group (groups d)) = concat (map b64_group (groups d')) \<Longrightarrow> d = d'"
    and "\<And>m. length (hash m) = n" and "sha_plain_setting prefix salt"
  shows "sha_text prefix groups hash key (sha_text prefix groups hash key0 salt) = sha_text prefix groups hash key0 salt
    \<longleftrightarrow> sha_setting_digest prefix hash salt key = sha_setting_digest prefix hash salt key0"
proof -
  obtain rounds rc salt1 where set: "sha_setting prefix salt = (rounds, rc, salt1)" by (rule prod_cases3)
  show ?thesis
    unfolding sha_text_again [OF assms(3)]
    using assms(1) length_sha_spec [of hash n, OF assms(2)]
    by (auto simp: sha_text_def sha_setting_digest_def set Let_def)
qed

lemma sha256_text_eq_iff:
  "sha_plain_setting ''$5$'' salt \<Longrightarrow>
   sha256_text key (sha256_text key0 salt) = sha256_text key0 salt
    \<longleftrightarrow> sha_setting_digest ''$5$'' sha256 salt key = sha_setting_digest ''$5$'' sha256 salt key0"
  unfolding sha256_text_def by (rule sha_text_eq_iff [OF sha256_groups_inj length_sha256])

lemma sha512_text_eq_iff:
  "sha_plain_setting ''$6$'' salt \<Longrightarrow>
   sha512_text key (sha512_text key0 salt) = sha512_text key0 salt
    \<longleftrightarrow> sha_setting_digest ''$6$'' sha512 salt key = sha_setting_digest ''$6$'' sha512 salt key0"
  unfolding sha512_text_def by (rule sha_text_eq_iff [OF sha512_groups_inj length_sha512])

end
