(* ===== verification/Crypt_Md5.thy ===== *)
theory Crypt_Md5
  imports Itoa64
begin

text \<open>
  The MD5 password scheme of \<^verbatim>\<open>crypt/crypt_md5.c\<close>, for hashes that start with \<^verbatim>\<open>$1$\<close> or \<^verbatim>\<open>$apr1$\<close>.
  MD5 itself is a function of OpenSSL and an argument: a context is the list of the bytes it was
  given, and \<^verbatim>\<open>MD5_Final\<close> applies \<open>md5\<close> to them.

  The function keeps the position of the salt and its copy in static variables, which all threads
  share.  The model therefore has two steps: \<open>crypt_md5_setup\<close> sets the static variables and
  \<open>crypt_md5_run\<close> reads them, and \<open>crypt_md5\<close> is a call in which nothing happens in between.
\<close>

unbundle bit_operations_syntax

subsection \<open>The code\<close>

record md5_statics =
  st_sp :: string
  st_salt_copy :: string

definition to64 :: "32 word \<Rightarrow> nat \<Rightarrow> string option" where
  "to64 v n = (if n > 4 then None else Some (b64_chars n v))"

definition md5_magic :: "string \<Rightarrow> string option" where
  "md5_magic salt =
     (if take 3 salt = ''$1$'' then Some ''$1$''
      else if take 6 salt = ''$apr1$'' then Some ''$apr1$''
      else None)"

text \<open>The loop that looks for the end of the salt, with the distance from its start.\<close>

fun md5_salt_end :: "nat \<Rightarrow> string \<Rightarrow> nat option" where
  "md5_salt_end i [] = None"
| "md5_salt_end i (c # cs) = (if c = CHR ''$'' then Some i else if i \<ge> 8 then None else md5_salt_end (Suc i) cs)"

definition crypt_md5_setup :: "string \<Rightarrow> nat \<Rightarrow> md5_statics \<Rightarrow> md5_statics \<times> (string \<times> nat) option" where
  "crypt_md5_setup salt pwlen st =
     (if pwlen < 120 then (st, None)
      else case md5_magic salt of
        None \<Rightarrow> (st\<lparr>st_sp := salt\<rparr>, None)
      | Some magic \<Rightarrow>
          let sp = drop (length magic) salt; st1 = st\<lparr>st_sp := sp\<rparr> in
          (case md5_salt_end 0 sp of
             None \<Rightarrow> (st1, None)
           | Some sl \<Rightarrow> (st1\<lparr>st_salt_copy := take sl sp\<rparr>, Some (magic, sl))))"

fun md5_add_final :: "byte list \<Rightarrow> nat \<Rightarrow> byte list \<Rightarrow> byte list" where
  "md5_add_final final pl ctx =
     (if pl > 0 then md5_add_final final (pl - 16) (ctx @ take (if pl > 16 then 16 else pl) final) else ctx)"

declare md5_add_final.simps [simp del]

text \<open>\<^verbatim>\<open>final\<close> has been cleared when this loop reads its first byte.\<close>

fun md5_add_bits :: "byte list \<Rightarrow> nat \<Rightarrow> byte list \<Rightarrow> byte list" where
  "md5_add_bits pw i ctx =
     (if i \<noteq> 0 then md5_add_bits pw (i div 2) (ctx @ (if odd i then [0] else [pw ! 0])) else ctx)"

declare md5_add_bits.simps [simp del]

definition md5_round :: "(byte list \<Rightarrow> byte list) \<Rightarrow> byte list \<Rightarrow> byte list \<Rightarrow> nat \<Rightarrow> byte list \<Rightarrow> byte list" where
  "md5_round md5 pw salt i final =
     md5 ((if odd i then pw else final) @ (if i mod 3 \<noteq> 0 then salt else [])
       @ (if i mod 7 \<noteq> 0 then pw else []) @ (if odd i then final else pw))"

definition md5_groups :: "byte list \<Rightarrow> (byte \<times> byte \<times> byte \<times> nat) list" where
  "md5_groups final =
     [(final ! 0, final ! 6, final ! 12, 4),
      (final ! 1, final ! 7, final ! 13, 4),
      (final ! 2, final ! 8, final ! 14, 4),
      (final ! 3, final ! 9, final ! 15, 4),
      (final ! 4, final ! 10, final ! 5, 4),
      (0, 0, final ! 11, 2)]"

definition strcat :: "string \<Rightarrow> string \<Rightarrow> string res" where
  "strcat buf s = (if NUL \<notin> set buf then Inl Out_Of_Bounds else memcpy_at (length (cstr buf)) (s @ [NUL]) buf)"

text \<open>The \<open>sl\<close> bytes at \<^verbatim>\<open>sp\<close>, wherever that points by now.\<close>

definition md5_salt_bytes :: "md5_statics \<Rightarrow> nat \<Rightarrow> byte list res" where
  "md5_salt_bytes st sl =
     (if length (st_sp st) + 1 < sl then Inl Out_Of_Bounds
      else Inr (map byte_of_char (take sl (st_sp st @ [NUL]))))"

definition md5_final :: "(byte list \<Rightarrow> byte list) \<Rightarrow> byte list \<Rightarrow> byte list \<Rightarrow> byte list \<Rightarrow> byte list" where
  "md5_final md5 pw magic salt =
     (let ctx = pw @ magic @ salt;
          final = md5 (pw @ salt @ pw);
          ctx1 = md5_add_final final (length pw) ctx;
          ctx2 = md5_add_bits pw (length pw) ctx1
      in fold (md5_round md5 pw salt) [0..<1000] (md5 ctx2))"

definition crypt_md5_run ::
    "(byte list \<Rightarrow> byte list) \<Rightarrow> string \<Rightarrow> string \<Rightarrow> nat \<Rightarrow> string \<Rightarrow> nat \<Rightarrow> md5_statics \<Rightarrow> (md5_statics \<times> string) res" where
  "crypt_md5_run md5 pw magic sl passwd pwlen st =
     res_bind (md5_salt_bytes st sl) (\<lambda>salt.
     res_bind (memcpy_at 0 (snprintf pwlen (magic @ st_salt_copy st @ ''$'') @ [NUL]) passwd) (\<lambda>passwd1.
     let final = md5_final md5 (map byte_of_char pw) (map byte_of_char magic) salt in
     res_bind (res_fold (\<lambda>(B2, B1, B0, n) buf.
                 res_bind (deref (to64 (b64_word B2 B1 B0) n)) (strcat buf)) (md5_groups final) passwd1) (\<lambda>passwd2.
     Inr (st\<lparr>st_salt_copy := []\<rparr>, passwd2))))"

definition crypt_md5 ::
    "(byte list \<Rightarrow> byte list) \<Rightarrow> string \<Rightarrow> string \<Rightarrow> string \<Rightarrow> nat \<Rightarrow> md5_statics \<Rightarrow> (int \<times> md5_statics \<times> string) res" where
  "crypt_md5 md5 pw salt passwd pwlen st =
     (case crypt_md5_setup salt pwlen st of
        (st1, None) \<Rightarrow> Inr (-1, st1, passwd)
      | (st1, Some (magic, sl)) \<Rightarrow>
          res_bind (crypt_md5_run md5 pw magic sl passwd pwlen st1) (\<lambda>(st2, passwd1). Inr (0, st2, passwd1)))"

subsection \<open>The result as a text\<close>

definition md5_setting :: "string \<Rightarrow> (string \<times> string) option" where
  "md5_setting setting =
     (case md5_magic setting of
        None \<Rightarrow> None
      | Some magic \<Rightarrow> map_option (\<lambda>sl. (magic, take sl (drop (length magic) setting)))
                          (md5_salt_end 0 (drop (length magic) setting)))"

definition md5_digest :: "(byte list \<Rightarrow> byte list) \<Rightarrow> string \<Rightarrow> string \<Rightarrow> string \<Rightarrow> byte list" where
  "md5_digest md5 magic salt pw = md5_final md5 (map byte_of_char pw) (map byte_of_char magic) (map byte_of_char salt)"

definition md5_text :: "(byte list \<Rightarrow> byte list) \<Rightarrow> string \<Rightarrow> string \<Rightarrow> string \<Rightarrow> string" where
  "md5_text md5 magic salt pw =
     magic @ salt @ ''$'' @ concat (map b64_group (md5_groups (md5_digest md5 magic salt pw)))"

lemma md5_salt_end_append:
  "CHR ''$'' \<notin> set a \<Longrightarrow> i \<le> 8 \<Longrightarrow>
   md5_salt_end i (a @ CHR ''$'' # b) = (if i + length a \<le> 8 then Some (i + length a) else None)"
  by (induction a arbitrary: i) auto

lemma md5_salt_end_absent: "CHR ''$'' \<notin> set s \<Longrightarrow> md5_salt_end i s = None"
  by (induction s arbitrary: i) auto

lemma md5_salt_end_iff:
  "md5_salt_end 0 s = Some n \<longleftrightarrow> (\<exists>a b. s = a @ CHR ''$'' # b \<and> CHR ''$'' \<notin> set a \<and> n = length a \<and> n \<le> 8)"
proof
  assume n: "md5_salt_end 0 s = Some n"
  then have "CHR ''$'' \<in> set s" using md5_salt_end_absent [of s 0] by (cases "CHR ''$'' \<in> set s") simp_all
  then obtain a b where s: "s = a @ CHR ''$'' # b" "CHR ''$'' \<notin> set a" by (blast dest: split_list_first)
  with n md5_salt_end_append [of a 0 b] have "n = length a \<and> n \<le> 8" by (simp split: if_splits)
  with s show "\<exists>a b. s = a @ CHR ''$'' # b \<and> CHR ''$'' \<notin> set a \<and> n = length a \<and> n \<le> 8" by blast
next
  assume "\<exists>a b. s = a @ CHR ''$'' # b \<and> CHR ''$'' \<notin> set a \<and> n = length a \<and> n \<le> 8"
  then show "md5_salt_end 0 s = Some n" by (auto simp: md5_salt_end_append)
qed

lemma md5_setting_iff:
  "md5_setting s = Some (magic, salt) \<longleftrightarrow>
    (magic = ''$1$'' \<or> magic = ''$apr1$'') \<and> CHR ''$'' \<notin> set salt \<and> length salt \<le> 8 \<and> (\<exists>r. s = magic @ salt @ CHR ''$'' # r)"
    (is "?L \<longleftrightarrow> ?R")
proof
  assume ?L
  then obtain sl where m: "md5_magic s = Some magic" and sl: "md5_salt_end 0 (drop (length magic) s) = Some sl"
    and salt: "salt = take sl (drop (length magic) s)" by (auto simp: md5_setting_def split: option.splits)
  from m have m': "(magic = ''$1$'' \<and> take 3 s = ''$1$'') \<or> (magic = ''$apr1$'' \<and> take 6 s = ''$apr1$'')"
    by (simp add: md5_magic_def split: if_splits)
  have pre: "magic = ''$1$'' \<or> magic = ''$apr1$''" using m' by argo
  have tk: "take (length magic) s = magic"
    using m'
  proof (elim disjE conjE)
    assume "magic = ''$1$''" "take 3 s = ''$1$''"
    then show ?thesis by (simp add: numeral_3_eq_3)
  next
    assume "magic = ''$apr1$''" "take 6 s = ''$apr1$''"
    then show ?thesis by (simp add: eval_nat_numeral)
  qed
  from sl obtain a b where ab: "drop (length magic) s = a @ CHR ''$'' # b" "CHR ''$'' \<notin> set a" "sl = length a" "sl \<le> 8"
    by (auto simp: md5_salt_end_iff)
  have "s = magic @ a @ CHR ''$'' # b" using append_take_drop_id [of "length magic" s] tk ab(1) by simp
  with pre ab salt show ?R by auto
next
  assume ?R
  then obtain r where R: "magic = ''$1$'' \<or> magic = ''$apr1$''" "CHR ''$'' \<notin> set salt" "length salt \<le> 8"
    "s = magic @ salt @ CHR ''$'' # r" by blast
  then have "md5_magic s = Some magic" by (auto simp: md5_magic_def)
  moreover have "md5_salt_end 0 (drop (length magic) s) = Some (length salt)"
    using R by (auto simp: md5_salt_end_iff)
  ultimately show ?L using R(4) by (simp add: md5_setting_def)
qed


subsection \<open>The code writes this text\<close>

text \<open>An array that holds a C string.\<close>

definition holds :: "nat \<Rightarrow> string \<Rightarrow> string \<Rightarrow> bool" where
  "holds N buf str \<longleftrightarrow> length buf = N \<and> NUL \<notin> set str \<and> (\<exists>r. buf = str @ NUL # r)"

lemma holds_cstr: "holds N buf str \<Longrightarrow> cstr buf = str"
  by (auto simp: holds_def cstr_append_NUL)

lemma holds_start:
  assumes "length buf = N" and "length str < N" and "NUL \<notin> set str"
  obtains b where "memcpy_at 0 (snprintf N str @ [NUL]) buf = Inr b" "holds N b str"
  using assms by (simp add: holds_def)

lemma strcat_holds:
  assumes "holds N buf str" and "length str + length s < N" and "NUL \<notin> set s"
  obtains b where "strcat buf s = Inr b" "holds N b (str @ s)"
proof -
  from assms(1) obtain r where buf: "buf = str @ NUL # r" and len: "length buf = N" and nul: "NUL \<notin> set str"
    by (auto simp: holds_def)
  have "length (cstr buf) = length str" using assms(1) by (simp add: holds_cstr)
  moreover have "NUL \<in> set buf" by (simp add: buf)
  ultimately have "strcat buf s = Inr ((str @ s) @ NUL # drop (length str + Suc (length s)) buf)"
    using assms(2) len by (simp add: strcat_def buf)
  moreover have "holds N ((str @ s) @ NUL # drop (length str + Suc (length s)) buf) (str @ s)"
    using assms len nul by (simp add: holds_def)
  ultimately show thesis by (rule that)
qed

lemma strcat_groups:
  assumes "\<forall>(B2, B1, B0, n) \<in> set gs. n \<le> 4" and "holds N buf str" and "length str + length (concat (map b64_group gs)) < N"
  shows "\<exists>b. res_fold (\<lambda>(B2, B1, B0, n) buf. res_bind (deref (to64 (b64_word B2 B1 B0) n)) (strcat buf)) gs buf = Inr b
    \<and> holds N b (str @ concat (map b64_group gs))"
  using assms
proof (induction gs arbitrary: buf str)
  case (Cons g gs)
  obtain B2 B1 B0 n where g: "g = (B2, B1, B0, n)" by (cases g)
  with Cons.prems(1) have to64: "to64 (b64_word B2 B1 B0) n = Some (b64_group g)" by (simp add: to64_def b64_group_def)
  have "length str + length (b64_group g) < N" using Cons.prems(3) by simp
  then obtain b1 where 1: "strcat buf (b64_group g) = Inr b1" "holds N b1 (str @ b64_group g)"
    by (rule strcat_holds [OF Cons.prems(2) _ NUL_b64_group])
  then show ?case using Cons.IH [OF _ 1(2)] Cons.prems g to64 by simp
qed simp

lemma length_md5_groups: "length (concat (map b64_group (md5_groups final))) = 22"
  by (simp add: md5_groups_def length_b64_group)

lemma crypt_md5_run_eq:
  assumes "magic = ''$1$'' \<or> magic = ''$apr1$''" and "length (st_salt_copy st) \<le> 8" and "NUL \<notin> set (st_salt_copy st)"
    and "md5_salt_bytes st sl = Inr salt" and "length passwd = N" and "120 \<le> N"
  shows "\<exists>b. crypt_md5_run md5 pw magic sl passwd N st = Inr (st\<lparr>st_salt_copy := []\<rparr>, b) \<and> NUL \<in> set b \<and>
    cstr b = magic @ st_salt_copy st @ ''$''
      @ concat (map b64_group (md5_groups (md5_final md5 (map byte_of_char pw) (map byte_of_char magic) salt)))"
proof -
  define head where "head = magic @ st_salt_copy st @ ''$''"
  define final where "final = md5_final md5 (map byte_of_char pw) (map byte_of_char magic) salt"
  have magic: "length magic \<le> 6" "NUL \<notin> set magic" using assms(1) by (auto simp: NUL_def)
  have head: "length head < N" "NUL \<notin> set head" using assms magic by (simp_all add: head_def NUL_def)
  obtain b1 where 1: "memcpy_at 0 (snprintf N head @ [NUL]) passwd = Inr b1" "holds N b1 head"
    by (rule holds_start [OF assms(5) head])
  obtain b2 where 2: "res_fold (\<lambda>(B2, B1, B0, n) buf. res_bind (deref (to64 (b64_word B2 B1 B0) n)) (strcat buf))
      (md5_groups final) b1 = Inr b2" "holds N b2 (head @ concat (map b64_group (md5_groups final)))"
    using strcat_groups [OF _ 1(2), of "md5_groups final"] assms magic length_md5_groups [of final]
    by (auto simp: head_def md5_groups_def)
  have "crypt_md5_run md5 pw magic sl passwd N st = Inr (st\<lparr>st_salt_copy := []\<rparr>, b2)"
    unfolding crypt_md5_run_def assms(4) Let_def res_bind_simps head_def [symmetric] 1(1) final_def [symmetric] 2(1) ..
  moreover have "NUL \<in> set b2" using 2(2) by (auto simp: holds_def)
  ultimately show ?thesis using holds_cstr [OF 2(2)] by (simp add: head_def final_def)
qed

lemma crypt_md5_setup_Some:
  assumes "md5_setting salt0 = Some (magic, salt)" and "120 \<le> N"
  shows "crypt_md5_setup salt0 N st = (st\<lparr>st_sp := drop (length magic) salt0, st_salt_copy := salt\<rparr>, Some (magic, length salt))"
proof -
  from assms(1) obtain sl where m: "md5_magic salt0 = Some magic" and sl: "md5_salt_end 0 (drop (length magic) salt0) = Some sl"
    and salt: "salt = take sl (drop (length magic) salt0)" by (auto simp: md5_setting_def split: option.splits)
  from sl obtain a b where "drop (length magic) salt0 = a @ CHR ''$'' # b" "sl = length a"
    by (auto simp: md5_salt_end_iff)
  then have "sl \<le> length (drop (length magic) salt0)" by (simp del: length_drop)
  then have "length salt = sl" using salt by simp
  with m sl salt assms(2) show ?thesis by (simp add: crypt_md5_setup_def Let_def)
qed

lemma md5_salt_bytes_own:
  assumes "md5_setting salt0 = Some (magic, salt)" and "st_sp st = drop (length magic) salt0"
  shows "md5_salt_bytes st (length salt) = Inr (map byte_of_char salt)"
proof -
  from assms(1) obtain r where "salt0 = magic @ salt @ CHR ''$'' # r" by (auto simp: md5_setting_iff)
  with assms(2) show ?thesis by (simp add: md5_salt_bytes_def)
qed

lemma crypt_md5_eq:
  assumes "md5_setting salt0 = Some (magic, salt)" and "NUL \<notin> set salt0" and "length passwd = N" and "120 \<le> N"
  shows "\<exists>st' b. crypt_md5 md5 pw salt0 passwd N st = Inr (0, st', b) \<and> NUL \<in> set b \<and> cstr b = md5_text md5 magic salt pw"
proof -
  define st1 where "st1 = st\<lparr>st_sp := drop (length magic) salt0, st_salt_copy := salt\<rparr>"
  from assms(1) have s: "magic = ''$1$'' \<or> magic = ''$apr1$''" "length salt \<le> 8" "set salt \<subseteq> set salt0"
    by (auto simp: md5_setting_iff)
  have "\<exists>b. crypt_md5_run md5 pw magic (length salt) passwd N st1 = Inr (st1\<lparr>st_salt_copy := []\<rparr>, b) \<and> NUL \<in> set b \<and>
    cstr b = magic @ st_salt_copy st1 @ ''$''
      @ concat (map b64_group (md5_groups (md5_final md5 (map byte_of_char pw) (map byte_of_char magic) (map byte_of_char salt))))"
    by (rule crypt_md5_run_eq [OF s(1)]) (use s assms md5_salt_bytes_own [OF assms(1), of st1] in \<open>auto simp: st1_def\<close>)
  then obtain b where "crypt_md5_run md5 pw magic (length salt) passwd N st1 = Inr (st1\<lparr>st_salt_copy := []\<rparr>, b)"
    "NUL \<in> set b" "cstr b = md5_text md5 magic salt pw" by (auto simp: st1_def md5_text_def md5_digest_def)
  then show ?thesis using crypt_md5_setup_Some [OF assms(1,4)] by (simp add: crypt_md5_def st1_def)
qed

lemma crypt_md5_fails:
  assumes "md5_setting salt0 = None"
  shows "\<exists>st'. crypt_md5 md5 pw salt0 passwd N st = Inr (-1, st', passwd)"
proof -
  have "snd (crypt_md5_setup salt0 N st) = None"
    using assms by (auto simp: crypt_md5_setup_def md5_setting_def Let_def split: option.splits)
  then show ?thesis by (cases "crypt_md5_setup salt0 N st") (simp add: crypt_md5_def)
qed

subsection \<open>A result checked against itself\<close>

lemma md5_setting_text:
  assumes "md5_setting salt0 = Some (magic, salt)"
  shows "md5_setting (md5_text md5 magic salt pw) = Some (magic, salt)"
  using assms by (auto simp: md5_setting_iff md5_text_def)

lemma md5_groups_inj:
  assumes "length d = 16" and "length d' = 16"
    and "concat (map b64_group (md5_groups d)) = concat (map b64_group (md5_groups d'))"
  shows "d = d'"
proof -
  have "map b64_group (md5_groups d) = map b64_group (md5_groups d')"
    using assms(3) by (subst (asm) concat_groups_eq) (simp_all add: md5_groups_def)
  then have "\<forall>i \<in> set [0, 6, 12, 1, 7, 13, 2, 8, 14, 3, 9, 15, 4, 10, 5, 11]. d ! i = d' ! i"
    by (simp add: md5_groups_def b64_group_inj)
  then show ?thesis by (rule list_eq_indices [OF assms(1,2)]) code_simp
qed

lemma length_md5_digest:
  assumes "\<And>m. length (md5 m) = 16"
  shows "length (md5_digest md5 magic salt pw) = 16"
proof -
  have "length (fold (md5_round md5 p s) [0..<k] f) = 16" if "length f = 16" for p s f k
    using that assms by (induction k) (simp_all add: md5_round_def)
  then show ?thesis using assms by (simp add: md5_digest_def md5_final_def Let_def)
qed

lemma md5_text_eq_iff:
  assumes "\<And>m. length (md5 m) = 16"
  shows "md5_text md5 magic salt pw = md5_text md5 magic salt pw0
    \<longleftrightarrow> md5_digest md5 magic salt pw = md5_digest md5 magic salt pw0"
  using md5_groups_inj [OF length_md5_digest length_md5_digest] assms by (auto simp: md5_text_def)


subsection \<open>Two threads\<close>

text \<open>
  The static variables are shared.  If a second thread starts to check a password against a hash
  with another salt after the first has read its salt and before it uses it, the first thread
  computes a text with the salt of the second: it rejects a password that is right.
\<close>

theorem md5_threads_interfere:
  assumes "md5_setting hash1 = Some (magic1, salt1)" and "hash1 = md5_text md5 magic1 salt1 pw1"
    and "md5_setting hash2 = Some (magic2, salt2)" and "hash2 = md5_text md5 magic2 salt2 pw2"
    and "salt1 \<noteq> salt2" and "NUL \<notin> set hash2" and "length passwd = 128"
  shows "\<exists>st1 sl st2 r st3 b. crypt_md5_setup hash1 128 st = (st1, Some (magic1, sl)) \<and>
    crypt_md5_setup hash2 128 st1 = (st2, r) \<and>
    crypt_md5_run md5 pw1 magic1 sl passwd 128 st2 = Inr (st3, b) \<and> cstr b \<noteq> hash1"
proof -
  define st1 where "st1 = st\<lparr>st_sp := drop (length magic1) hash1, st_salt_copy := salt1\<rparr>"
  define st2 where "st2 = st1\<lparr>st_sp := drop (length magic2) hash2, st_salt_copy := salt2\<rparr>"
  have 1: "crypt_md5_setup hash1 128 st = (st1, Some (magic1, length salt1))"
    using crypt_md5_setup_Some [OF assms(1), of 128] by (simp add: st1_def)
  have 2: "crypt_md5_setup hash2 128 st1 = (st2, Some (magic2, length salt2))"
    using crypt_md5_setup_Some [OF assms(3), of 128] by (simp add: st2_def)
  have s: "magic1 = ''$1$'' \<or> magic1 = ''$apr1$''" "length salt1 \<le> 8" "length salt2 \<le> 8"
    "CHR ''$'' \<notin> set salt1" "CHR ''$'' \<notin> set salt2" "set salt2 \<subseteq> set hash2"
    using assms(1,3) by (auto simp: md5_setting_iff)
  have "length (drop (length magic2) hash2) \<ge> 22"
    unfolding assms(4) using length_md5_groups by (simp add: md5_text_def)
  then have sb: "md5_salt_bytes st2 (length salt1) = Inr (map byte_of_char (take (length salt1) (st_sp st2 @ [NUL])))"
    using s(2) by (simp add: md5_salt_bytes_def st2_def)
  have "\<exists>b. crypt_md5_run md5 pw1 magic1 (length salt1) passwd 128 st2 = Inr (st2\<lparr>st_salt_copy := []\<rparr>, b) \<and> NUL \<in> set b \<and>
    cstr b = magic1 @ st_salt_copy st2 @ ''$'' @ concat (map b64_group (md5_groups (md5_final md5 (map byte_of_char pw1)
      (map byte_of_char magic1) (map byte_of_char (take (length salt1) (st_sp st2 @ [NUL]))))))"
    by (rule crypt_md5_run_eq [OF s(1) _ _ sb]) (use s assms(6,7) in \<open>auto simp: st2_def\<close>)
  then obtain b r where 3: "crypt_md5_run md5 pw1 magic1 (length salt1) passwd 128 st2 = Inr (st2\<lparr>st_salt_copy := []\<rparr>, b)"
    and b: "cstr b = magic1 @ salt2 @ CHR ''$'' # r" by (auto simp: st2_def)
  have "cstr b \<noteq> hash1"
  proof
    assume "cstr b = hash1"
    then have "md5_setting (magic1 @ salt2 @ CHR ''$'' # r) = Some (magic1, salt1)" using b assms(1) by simp
    moreover have "md5_setting (magic1 @ salt2 @ CHR ''$'' # r) = Some (magic1, salt2)"
      using s by (auto simp: md5_setting_iff)
    ultimately show False using assms(5) by simp
  qed
  with 1 2 3 show ?thesis by blast
qed

end
