(* ===== verification/Crypt_Des.thy ===== *)
theory Crypt_Des
  imports Itoa64
begin

text \<open>
  The DES password scheme of \<^verbatim>\<open>crypt/crypt_des.c\<close>, traditional and extended.  A \<^verbatim>\<open>C_block\<close>, the union of
  eight bytes and two 32-bit integers, is a 64-bit word: on a little-endian machine its byte \<open>n\<close> is
  bits \<open>8 n\<close> to \<open>8 n + 7\<close>, \<^verbatim>\<open>i0\<close> the low and \<^verbatim>\<open>i1\<close> the high half.  The tables that \<^verbatim>\<open>init_des\<close> computes are
  lists of rows.  Right shifts of the signed integers are arithmetic shifts.

  Reading a table at an offset that is no multiple of four, or a character behind the end of the
  setting, is the fault \<open>Out_Of_Bounds\<close>.
\<close>

unbundle bit_operations_syntax

subsection \<open>Tables\<close>

definition des_IP :: "nat list" where
  "des_IP =
    [58, 50, 42, 34, 26, 18, 10, 2,
     60, 52, 44, 36, 28, 20, 12, 4,
     62, 54, 46, 38, 30, 22, 14, 6,
     64, 56, 48, 40, 32, 24, 16, 8,
     57, 49, 41, 33, 25, 17, 9, 1,
     59, 51, 43, 35, 27, 19, 11, 3,
     61, 53, 45, 37, 29, 21, 13, 5,
     63, 55, 47, 39, 31, 23, 15, 7]"

definition des_ExpandTr :: "nat list" where
  "des_ExpandTr =
    [32, 1, 2, 3, 4, 5,
     4, 5, 6, 7, 8, 9,
     8, 9, 10, 11, 12, 13,
     12, 13, 14, 15, 16, 17,
     16, 17, 18, 19, 20, 21,
     20, 21, 22, 23, 24, 25,
     24, 25, 26, 27, 28, 29,
     28, 29, 30, 31, 32, 1]"

definition des_PC1 :: "nat list" where
  "des_PC1 =
    [57, 49, 41, 33, 25, 17, 9,
     1, 58, 50, 42, 34, 26, 18,
     10, 2, 59, 51, 43, 35, 27,
     19, 11, 3, 60, 52, 44, 36,
     63, 55, 47, 39, 31, 23, 15,
     7, 62, 54, 46, 38, 30, 22,
     14, 6, 61, 53, 45, 37, 29,
     21, 13, 5, 28, 20, 12, 4]"

definition des_Rotates :: "nat list" where
  "des_Rotates =
    [1, 1, 2, 2, 2, 2, 2, 2, 1, 2, 2, 2, 2, 2, 2, 1]"

definition des_PC2 :: "nat list" where
  "des_PC2 =
    [9, 18, 14, 17, 11, 24, 1, 5,
     22, 25, 3, 28, 15, 6, 21, 10,
     35, 38, 23, 19, 12, 4, 26, 8,
     43, 54, 16, 7, 27, 20, 13, 2,
     0, 0, 41, 52, 31, 37, 47, 55,
     0, 0, 30, 40, 51, 45, 33, 48,
     0, 0, 44, 49, 39, 56, 34, 53,
     0, 0, 46, 42, 50, 36, 29, 32]"

definition des_S :: "nat list list" where
  "des_S =
    [[14, 4, 13, 1, 2, 15, 11, 8, 3, 10, 6, 12, 5, 9, 0, 7,
      0, 15, 7, 4, 14, 2, 13, 1, 10, 6, 12, 11, 9, 5, 3, 8,
      4, 1, 14, 8, 13, 6, 2, 11, 15, 12, 9, 7, 3, 10, 5, 0,
      15, 12, 8, 2, 4, 9, 1, 7, 5, 11, 3, 14, 10, 0, 6, 13],
     [15, 1, 8, 14, 6, 11, 3, 4, 9, 7, 2, 13, 12, 0, 5, 10,
      3, 13, 4, 7, 15, 2, 8, 14, 12, 0, 1, 10, 6, 9, 11, 5,
      0, 14, 7, 11, 10, 4, 13, 1, 5, 8, 12, 6, 9, 3, 2, 15,
      13, 8, 10, 1, 3, 15, 4, 2, 11, 6, 7, 12, 0, 5, 14, 9],
     [10, 0, 9, 14, 6, 3, 15, 5, 1, 13, 12, 7, 11, 4, 2, 8,
      13, 7, 0, 9, 3, 4, 6, 10, 2, 8, 5, 14, 12, 11, 15, 1,
      13, 6, 4, 9, 8, 15, 3, 0, 11, 1, 2, 12, 5, 10, 14, 7,
      1, 10, 13, 0, 6, 9, 8, 7, 4, 15, 14, 3, 11, 5, 2, 12],
     [7, 13, 14, 3, 0, 6, 9, 10, 1, 2, 8, 5, 11, 12, 4, 15,
      13, 8, 11, 5, 6, 15, 0, 3, 4, 7, 2, 12, 1, 10, 14, 9,
      10, 6, 9, 0, 12, 11, 7, 13, 15, 1, 3, 14, 5, 2, 8, 4,
      3, 15, 0, 6, 10, 1, 13, 8, 9, 4, 5, 11, 12, 7, 2, 14],
     [2, 12, 4, 1, 7, 10, 11, 6, 8, 5, 3, 15, 13, 0, 14, 9,
      14, 11, 2, 12, 4, 7, 13, 1, 5, 0, 15, 10, 3, 9, 8, 6,
      4, 2, 1, 11, 10, 13, 7, 8, 15, 9, 12, 5, 6, 3, 0, 14,
      11, 8, 12, 7, 1, 14, 2, 13, 6, 15, 0, 9, 10, 4, 5, 3],
     [12, 1, 10, 15, 9, 2, 6, 8, 0, 13, 3, 4, 14, 7, 5, 11,
      10, 15, 4, 2, 7, 12, 9, 5, 6, 1, 13, 14, 0, 11, 3, 8,
      9, 14, 15, 5, 2, 8, 12, 3, 7, 0, 4, 10, 1, 13, 11, 6,
      4, 3, 2, 12, 9, 5, 15, 10, 11, 14, 1, 7, 6, 0, 8, 13],
     [4, 11, 2, 14, 15, 0, 8, 13, 3, 12, 9, 7, 5, 10, 6, 1,
      13, 0, 11, 7, 4, 9, 1, 10, 14, 3, 5, 12, 2, 15, 8, 6,
      1, 4, 11, 13, 12, 3, 7, 14, 10, 15, 6, 8, 0, 5, 9, 2,
      6, 11, 13, 8, 1, 4, 10, 7, 9, 5, 0, 15, 14, 2, 3, 12],
     [13, 2, 8, 4, 6, 15, 11, 1, 10, 9, 3, 14, 5, 0, 12, 7,
      1, 15, 13, 8, 10, 3, 7, 4, 12, 5, 6, 11, 0, 14, 9, 2,
      7, 11, 4, 1, 9, 12, 14, 2, 0, 6, 10, 13, 15, 3, 5, 8,
      2, 1, 14, 7, 4, 10, 8, 13, 15, 12, 9, 0, 3, 5, 6, 11]]"

definition des_P32Tr :: "nat list" where
  "des_P32Tr =
    [16, 7, 20, 21,
     29, 12, 28, 17,
     1, 15, 23, 26,
     5, 18, 31, 10,
     2, 8, 24, 14,
     32, 27, 3, 9,
     19, 13, 30, 6,
     22, 11, 4, 25]"

definition des_CIFP :: "nat list" where
  "des_CIFP =
    [1, 2, 3, 4, 17, 18, 19, 20,
     5, 6, 7, 8, 21, 22, 23, 24,
     9, 10, 11, 12, 25, 26, 27, 28,
     13, 14, 15, 16, 29, 30, 31, 32,
     33, 34, 35, 36, 49, 50, 51, 52,
     37, 38, 39, 40, 53, 54, 55, 56,
     41, 42, 43, 44, 57, 58, 59, 60,
     45, 46, 47, 48, 61, 62, 63, 64]"

subsection \<open>Blocks\<close>

type_synonym C_block = "64 word"

definition cb_b :: "C_block \<Rightarrow> nat \<Rightarrow> byte" where
  "cb_b w n = ucast (drop_bit (8 * n) w)"

definition cb_i0 :: "C_block \<Rightarrow> 32 word" where
  "cb_i0 w = ucast w"

definition cb_i1 :: "C_block \<Rightarrow> 32 word" where
  "cb_i1 w = ucast (drop_bit 32 w)"

definition cb_of :: "32 word \<Rightarrow> 32 word \<Rightarrow> C_block" where
  "cb_of i0 i1 = ucast i0 OR push_bit 32 (ucast i1)"

definition cb_bytes :: "C_block \<Rightarrow> byte list" where
  "cb_bytes w = map (cb_b w) [0..<8]"

record des_state =
  PC1ROT :: "C_block list list"
  PC2ROT0 :: "C_block list list"
  PC2ROT1 :: "C_block list list"
  IE3264 :: "C_block list list"
  SPE0 :: "32 word list list"
  SPE1 :: "32 word list list"
  CF6464 :: "C_block list list"
  KS :: "C_block list"

definition TO_SIX_BIT :: "32 word \<Rightarrow> 32 word" where
  "TO_SIX_BIT src =
     push_bit 2 ((load_le [ucast src, ucast (signed_drop_bit 6 src), ucast (signed_drop_bit 12 src), ucast (signed_drop_bit 18 src)]
       :: 32 word) AND 0x3f3f3f3f)"

text \<open>\<^verbatim>\<open>permute\<close>: for every byte of the input one row for its low and one for its high four bits.\<close>

fun permute :: "byte list \<Rightarrow> C_block list list \<Rightarrow> C_block" where
  "permute (t # ts) (row0 # row1 # rows) =
     row0 ! unat (t AND 0xf) OR row1 ! unat (drop_bit 4 t) OR permute ts rows"
| "permute _ _ = 0"

definition init_perm :: "nat list \<Rightarrow> nat \<Rightarrow> C_block list list \<Rightarrow> C_block list list" where
  "init_perm p chars_out perm0 =
     fold (\<lambda>k perm.
        if p ! k = 0 then perm
        else (let l = p ! k - 1; i = l div 4; m = push_bit (l mod 4) 1 in
          perm[i := map (\<lambda>j. if j AND m \<noteq> 0 then perm ! i ! j OR push_bit k 1 else perm ! i ! j) [0..<16]]))
       [0..<chars_out * 8] perm0"

subsection \<open>\<^verbatim>\<open>init_des\<close>\<close>

text \<open>The change of bit order within a byte, on bit numbers that start at 1.\<close>

definition des_flip :: "nat \<Rightarrow> nat" where
  "des_flip k = (if k > 0 then ((k - 1) OR 7) - ((k - 1) AND 7) + 1 else k)"

definition des_PC1_perm :: "nat list" where
  "des_PC1_perm = map (\<lambda>i.
     if des_PC2 ! i = 0 then 0
     else (let k = des_PC2 ! i + des_Rotates ! 0 - 1;
               k = (if k mod 28 < des_Rotates ! 0 then k - 28 else k)
           in des_flip (des_PC1 ! k))) [0..<64]"

definition des_pc2inv :: "nat list" where
  "des_pc2inv = fold (\<lambda>i inv. if des_PC2 ! i = 0 then inv else inv[des_PC2 ! i - 1 := i + 1]) [0..<64] (replicate 64 0)"

definition des_PC2_perm :: "nat \<Rightarrow> nat list" where
  "des_PC2_perm j = map (\<lambda>i.
     if des_PC2 ! i = 0 then 0
     else (let k = des_PC2 ! i + j; k = (if k mod 28 \<le> j then k - 28 else k) in des_pc2inv ! k)) [0..<64]"

definition des_IE_perm :: "nat list" where
  "des_IE_perm = concat (map (\<lambda>i. map (\<lambda>j.
     (let k = (if j < 2 then 0 else des_IP ! (des_ExpandTr ! (i * 6 + j - 2) - 1));
          k = (if k > 32 then k - 32 else if k > 0 then k - 1 else k)
      in des_flip k)) [0..<8]) [0..<8])"

definition des_CF_perm :: "nat list \<Rightarrow> nat list" where
  "des_CF_perm perm0 = fold (\<lambda>i perm. perm[des_flip (des_IP ! (des_CIFP ! i - 1)) - 1 := i + 1]) [0..<64] perm0"

definition des_SPE_perm :: "nat list" where
  "des_SPE_perm = map (\<lambda>i. des_P32Tr ! (des_ExpandTr ! i - 1)) [0..<48]"

definition des_S_out :: "nat \<Rightarrow> nat \<Rightarrow> nat" where
  "des_S_out tableno j =
     (let k = push_bit 5 (drop_bit 0 j AND 1) OR push_bit 3 (drop_bit 1 j AND 1) OR push_bit 2 (drop_bit 2 j AND 1)
            OR push_bit 1 (drop_bit 3 j AND 1) OR push_bit 0 (drop_bit 4 j AND 1) OR push_bit 4 (drop_bit 5 j AND 1);
          k = des_S ! tableno ! k
      in push_bit 0 (drop_bit 3 k AND 1) OR push_bit 1 (drop_bit 2 k AND 1) OR push_bit 2 (drop_bit 1 k AND 1)
         OR push_bit 3 (drop_bit 0 k AND 1))"

definition des_tmp32 :: "nat \<Rightarrow> nat \<Rightarrow> nat list" where
  "des_tmp32 tableno j =
     fold (\<lambda>i tmp. tmp[4 * tableno + i := drop_bit i (des_S_out tableno j) AND 1]) [0..<4] (replicate 32 0)"

definition des_spe_entry :: "nat \<Rightarrow> nat \<Rightarrow> nat \<Rightarrow> 32 word" where
  "des_spe_entry off tableno j =
     TO_SIX_BIT (fold (\<lambda>i k. push_bit 1 k OR word_of_nat (des_tmp32 tableno j ! (des_SPE_perm ! (i + off) - 1)))
       (rev [0..<24]) 0)"

definition des_blank :: "nat \<Rightarrow> C_block list list" where
  "des_blank n = replicate n (replicate 16 0)"

text \<open>The state is all zeroes when \<^verbatim>\<open>init_des\<close> is called, and so is the key schedule it leaves.\<close>

definition init_des :: des_state where
  "init_des = \<lparr>
     PC1ROT = init_perm des_PC1_perm 8 (des_blank 16),
     PC2ROT0 = init_perm (des_PC2_perm 0) 8 (des_blank 16),
     PC2ROT1 = init_perm (des_PC2_perm 1) 8 (des_blank 16),
     IE3264 = init_perm des_IE_perm 8 (des_blank 8),
     SPE0 = map (\<lambda>tableno. map (des_spe_entry 0 tableno) [0..<64]) [0..<8],
     SPE1 = map (\<lambda>tableno. map (des_spe_entry 24 tableno) [0..<64]) [0..<8],
     CF6464 = init_perm (des_CF_perm des_IE_perm) 8 (des_blank 16),
     KS = replicate 16 0\<rparr>"

subsection \<open>Keys and blocks\<close>

definition des_mask :: "C_block \<Rightarrow> C_block" where
  "des_mask K = cb_of (cb_i0 K AND NOT 0x03030303) (cb_i1 K)"

fun des_schedule :: "des_state \<Rightarrow> nat list \<Rightarrow> C_block \<Rightarrow> C_block list" where
  "des_schedule state [] K = []"
| "des_schedule state (r # rs) K =
     (let K' = permute (cb_bytes K) (if r = 1 then PC2ROT0 state else PC2ROT1 state)
      in des_mask K' # des_schedule state rs K')"

definition des_setkey :: "byte list \<Rightarrow> des_state \<Rightarrow> des_state" where
  "des_setkey key state =
     (let K = permute key (PC1ROT state)
      in state\<lparr>KS := des_mask K # des_schedule state (tl des_Rotates) K\<rparr>)"

definition SPTAB :: "32 word list \<Rightarrow> byte \<Rightarrow> 32 word res" where
  "SPTAB t k = (if unat k mod 4 = 0 \<and> unat k div 4 < length t then Inr (t ! (unat k div 4)) else Inl Out_Of_Bounds)"

definition DOXOR :: "des_state \<Rightarrow> C_block \<Rightarrow> nat \<Rightarrow> 32 word \<times> 32 word \<Rightarrow> (32 word \<times> 32 word) res" where
  "DOXOR state B i = (\<lambda>(x, y).
     res_bind (SPTAB (SPE0 state ! i) (cb_b B i)) (\<lambda>s0.
     res_bind (SPTAB (SPE1 state ! i) (cb_b B i)) (\<lambda>s1.
     Inr (x XOR s0, y XOR s1))))"

text \<open>\<^verbatim>\<open>CRUNCH(p0, p1, q0, q1)\<close> with the key block \<^verbatim>\<open>*kp\<close>; the result is the new \<open>(p0, p1)\<close>.\<close>

definition CRUNCH ::
    "des_state \<Rightarrow> 32 word \<Rightarrow> C_block \<Rightarrow> 32 word \<times> 32 word \<Rightarrow> 32 word \<times> 32 word \<Rightarrow> (32 word \<times> 32 word) res" where
  "CRUNCH state salt kp p = (\<lambda>(q0, q1).
     let k = (q0 XOR q1) AND salt;
         B = cb_of (k XOR q0 XOR cb_i0 kp) (k XOR q1 XOR cb_i1 kp)
     in res_fold (DOXOR state B) [0..<8] p)"

fun des_rounds ::
    "des_state \<Rightarrow> 32 word \<Rightarrow> C_block list \<Rightarrow> 32 word \<times> 32 word \<Rightarrow> 32 word \<times> 32 word \<Rightarrow> ((32 word \<times> 32 word) \<times> (32 word \<times> 32 word)) res" where
  "des_rounds state salt (k1 # k2 # ks) L R =
     res_bind (CRUNCH state salt k1 L R) (\<lambda>L'.
     res_bind (CRUNCH state salt k2 R L') (\<lambda>R'.
     des_rounds state salt ks L' R'))"
| "des_rounds state salt _ L R = Inr (L, R)"

definition des_swap :: "(32 word \<times> 32 word) \<times> (32 word \<times> 32 word) \<Rightarrow> (32 word \<times> 32 word) \<times> (32 word \<times> 32 word)" where
  "des_swap = (\<lambda>((L0, L1), (R0, R1)).
     let L0 = L0 XOR R0; L1 = L1 XOR R1;
         R0 = R0 XOR L0; R1 = R1 XOR L1;
         L0 = L0 XOR R0; L1 = L1 XOR R1
     in ((L0, L1), (R0, R1)))"

fun des_iterate ::
    "des_state \<Rightarrow> 32 word \<Rightarrow> C_block list \<Rightarrow> nat \<Rightarrow> (32 word \<times> 32 word) \<times> (32 word \<times> 32 word) \<Rightarrow> ((32 word \<times> 32 word) \<times> (32 word \<times> 32 word)) res" where
  "des_iterate state salt ks 0 LR = Inr LR"
| "des_iterate state salt ks (Suc n) LR =
     res_bind (des_rounds state salt ks (fst LR) (snd LR)) (\<lambda>LR'. des_iterate state salt ks n (des_swap LR'))"

definition des_load :: "des_state \<Rightarrow> C_block \<Rightarrow> (32 word \<times> 32 word) \<times> (32 word \<times> 32 word)" where
  "des_load state B0 =
     (let L0 = cb_i0 B0 AND 0x55555555; L1 = cb_i1 B0 AND 0x55555555;
          L0 = push_bit 1 L0 OR L1;
          R0 = cb_i0 B0 AND 0xaaaaaaaa; R1 = signed_drop_bit 1 (cb_i1 B0) AND 0x55555555;
          L1 = R0 OR R1;
          B = cb_of L0 L1;
          L = permute (map (cb_b B) [0..<4]) (IE3264 state);
          R = permute (map (cb_b B) [4..<8]) (IE3264 state)
      in ((cb_i0 L, cb_i1 L), (cb_i0 R, cb_i1 R)))"

definition des_store :: "des_state \<Rightarrow> (32 word \<times> 32 word) \<times> (32 word \<times> 32 word) \<Rightarrow> C_block" where
  "des_store state = (\<lambda>((L0, L1), (R0, R1)).
     let L0' = (signed_drop_bit 3 L0 AND 0x0f0f0f0f) OR (push_bit 1 L1 AND 0xf0f0f0f0);
         L1' = (signed_drop_bit 3 R0 AND 0x0f0f0f0f) OR (push_bit 1 R1 AND 0xf0f0f0f0)
     in permute (cb_bytes (cb_of L0' L1')) (CF6464 state))"

definition des_cipher :: "des_state \<Rightarrow> C_block \<Rightarrow> 32 word \<Rightarrow> int \<Rightarrow> C_block res" where
  "des_cipher state B salt num_iter =
     (let ks = (if num_iter \<ge> 0 then KS state else rev (KS state)) in
      res_bind (des_iterate state (TO_SIX_BIT salt) ks (nat \<bar>num_iter\<bar>) (des_load state B)) (\<lambda>LR.
      Inr (des_store state LR)))"


subsection \<open>\<^verbatim>\<open>crypt_des\<close>\<close>

definition ascii_to_bin :: "char \<Rightarrow> nat" where
  "ascii_to_bin ch =
     (let sch = sint (byte_of_char ch);
          retval = (if sch \<ge> 97 then sch - (97 - 38) else if sch \<ge> 65 then sch - (65 - 12) else sch - 46)
      in nat (retval AND 0x3f))"

definition ascii_is_unsafe :: "char \<Rightarrow> bool" where
  "ascii_is_unsafe ch \<longleftrightarrow> ch = NUL \<or> ch = CHR 0x0A \<or> ch = CHR '':''"

text \<open>The next bytes of a key: a character shifted left by one bit, and 0 from its end on.\<close>

fun des_read_key :: "nat \<Rightarrow> string \<Rightarrow> byte list \<times> string" where
  "des_read_key 0 key = ([], key)"
| "des_read_key (Suc n) [] = (let (bs, key') = des_read_key n [] in (0 # bs, key'))"
| "des_read_key (Suc n) (c # key) = (let (bs, key') = des_read_key n key in (2 * byte_of_char c # bs, key'))"

lemma des_read_key_rest: "snd (des_read_key n key) = drop n key"
  by (induction n key rule: des_read_key.induct) (auto split: prod.splits)

text \<open>The rest of a long key, for the extended format.\<close>

function des_long_key :: "byte list \<Rightarrow> string \<Rightarrow> des_state \<Rightarrow> des_state res" where
  "des_long_key keyblock key state =
     (if key = [] then Inr state
      else res_bind (des_cipher state (load_le keyblock) 0 1) (\<lambda>B.
           let (bs, key') = des_read_key 8 key;
               keyblock' = map2 (XOR) (cb_bytes B) bs
           in des_long_key keyblock' key' (des_setkey keyblock' state)))"
  by pat_completeness auto
termination
proof (relation "measure (\<lambda>(keyblock, key, state). length key)", goal_cases)
  case (2 keyblock key state B p bs key')
  then have "key' = drop 8 key" using des_read_key_rest [of 8 key] by (metis snd_conv)
  with 2 show ?case by simp
qed simp

declare des_long_key.simps [simp del]

text \<open>
  The loops over the count and the salt, from the last character to the first.  \<open>None\<close> is the early
  return of -1.
\<close>

fun des_digits :: "bool \<Rightarrow> string \<Rightarrow> nat \<Rightarrow> nat list \<Rightarrow> 32 word \<Rightarrow> string \<Rightarrow> (32 word option \<times> string) res" where
  "des_digits strict setting encp [] v out = Inr (Some v, out)"
| "des_digits strict setting encp (i # is) v out =
     res_bind (setting_at setting i) (\<lambda>c.
     let value = ascii_to_bin c in
     if strict \<and> itoa64 ! value \<noteq> c then Inr (None, out)
     else res_bind (memcpy_at (encp + i) [c] out) (\<lambda>out'.
          des_digits strict setting encp is (push_bit 6 v OR word_of_nat value) out'))"

definition des_encode3 :: "byte \<Rightarrow> byte \<Rightarrow> byte \<Rightarrow> string" where
  "des_encode3 b0 b1 b2 =
     (let i = (push_bit 8 (push_bit 8 (ucast b0) OR ucast b1) OR ucast b2 :: 32 word);
          c3 = itoa64 ! unat (i AND 0x3f); i = drop_bit 6 i;
          c2 = itoa64 ! unat (i AND 0x3f); i = drop_bit 6 i;
          c1 = itoa64 ! unat (i AND 0x3f); i = drop_bit 6 i
      in [itoa64 ! unat i, c1, c2, c3])"

definition des_encode2 :: "byte \<Rightarrow> byte \<Rightarrow> string" where
  "des_encode2 b0 b1 =
     (let i = (push_bit 2 (push_bit 8 (ucast b0) OR ucast b1) :: 32 word);
          c2 = itoa64 ! unat (i AND 0x3f); i = drop_bit 6 i;
          c1 = itoa64 ! unat (i AND 0x3f); i = drop_bit 6 i
      in [itoa64 ! unat i, c1, c2])"

definition des_encode :: "C_block \<Rightarrow> string" where
  "des_encode B = des_encode3 (cb_b B 0) (cb_b B 1) (cb_b B 2) @ des_encode3 (cb_b B 3) (cb_b B 4) (cb_b B 5)
     @ des_encode2 (cb_b B 6) (cb_b B 7)"

text \<open>What the two formats share after the count: the salt, the encryption and the encoding.\<close>

definition des_finish ::
    "des_state \<Rightarrow> string \<Rightarrow> nat \<Rightarrow> nat \<Rightarrow> int \<Rightarrow> string \<Rightarrow> (int \<times> string) res" where
  "des_finish state setting encp salt_size num_iter out =
     res_bind (des_digits (salt_size > 2) setting encp (rev [0..<salt_size]) 0 out) (\<lambda>(salt, out1).
     case salt of
       None \<Rightarrow> Inr (-1, out1)
     | Some salt \<Rightarrow>
         res_bind (des_cipher state 0 salt num_iter) (\<lambda>B.
         res_bind (memcpy_at (encp + salt_size) (des_encode B @ [NUL]) out1) (\<lambda>out2.
         Inr (0, out2))))"

definition crypt_des :: "string \<Rightarrow> string \<Rightarrow> string \<Rightarrow> nat \<Rightarrow> (int \<times> string) res" where
  "crypt_des key setting out buflen =
     (if buflen < 1 + 4 + 4 + 11 + 1 then Inr (-1, out)
      else (let (keyblock, key') = des_read_key 8 key; state = des_setkey keyblock init_des in
        res_bind (setting_at setting 0) (\<lambda>c0.
        if c0 = CHR ''_''
        then res_bind (des_long_key keyblock key' state) (\<lambda>state1.
             res_bind (memcpy_at 0 [c0] out) (\<lambda>out1.
             res_bind (des_digits True (tl setting) 1 (rev [0..<4]) 0 out1) (\<lambda>(num_iter, out2).
             case num_iter of
               None \<Rightarrow> Inr (-1, out2)
             | Some n \<Rightarrow>
                 if n = 0 then Inr (-1, out2)
                 else des_finish state1 (drop 5 setting) 5 4 (sint n) out2)))
        else if ascii_is_unsafe c0 then Inr (-1, out)
        else res_bind (setting_at setting 1) (\<lambda>c1.
             if ascii_is_unsafe c1 then Inr (-1, out)
             else des_finish state setting 0 2 25 out))))"


subsection \<open>The tables move bits\<close>

lemma bit_nat_and_15: "unat (t AND 0xf :: byte) = take_bit 4 (unat t)"
  by (simp add: unsigned_and_eq take_bit_eq_mask mask_eq_exp_minus_1)

lemma bit_low_nibble: "m < 4 \<Longrightarrow> bit (unat (t AND 0xf :: byte)) m \<longleftrightarrow> bit t m"
  by (simp add: bit_nat_and_15 bit_take_bit_iff bit_unsigned_iff)

lemma bit_high_nibble: "m < 4 \<Longrightarrow> bit (unat (drop_bit 4 t :: byte)) m \<longleftrightarrow> bit t (4 + m)"
  by (auto simp: bit_unsigned_iff bit_drop_bit_eq)

lemma nibble_bound: "unat (t AND 0xf :: byte) < 16" "unat (drop_bit 4 t :: byte) < 16"
proof -
  show "unat (t AND 0xf) < 16" by (simp add: bit_nat_and_15 take_bit_eq_mod)
  have "unat t < 256" using unsigned_less [of t] by simp
  then show "unat (drop_bit 4 t) < 16"
    unfolding unat_drop_bit_eq by (simp add: drop_bit_eq_div less_mult_imp_div_less)
qed

text \<open>What \<^verbatim>\<open>init_perm\<close> has entered after the output bits below \<open>n\<close>.\<close>

definition perm_step :: "nat list \<Rightarrow> nat \<Rightarrow> C_block list list \<Rightarrow> C_block list list" where
  "perm_step p k perm =
     (if p ! k = 0 then perm
      else (let l = p ! k - 1; i = l div 4; m = push_bit (l mod 4) 1 in
        perm[i := map (\<lambda>j. if j AND m \<noteq> 0 then perm ! i ! j OR push_bit k 1 else perm ! i ! j) [0..<16]]))"

lemma init_perm_eq: "init_perm p n perm = fold (perm_step p) [0..<n * 8] perm"
  unfolding init_perm_def perm_step_def by (rule refl)

lemma and_push_bit_1: "(j :: nat) AND push_bit m 1 \<noteq> 0 \<longleftrightarrow> bit j m"
proof -
  have "j AND push_bit m 1 = (if bit j m then push_bit m 1 else 0)"
    by (rule bit_eqI) (auto simp: bit_and_iff bit_exp_iff)
  then show ?thesis by (simp add: push_bit_eq_mult)
qed

lemma perm_fold_inv:
  assumes "\<forall>k < n. p ! k \<le> 4 * rows" and "n \<le> 64"
  shows "length (fold (perm_step p) [0..<n] (des_blank rows)) = rows
    \<and> (\<forall>i < rows. length (fold (perm_step p) [0..<n] (des_blank rows) ! i) = 16)
    \<and> (\<forall>i < rows. \<forall>j < 16. \<forall>k. bit (fold (perm_step p) [0..<n] (des_blank rows) ! i ! j) k \<longleftrightarrow>
        k < n \<and> p ! k \<noteq> 0 \<and> (p ! k - 1) div 4 = i \<and> bit j ((p ! k - 1) mod 4))"
  using assms
proof (induction n)
  case 0
  then show ?case by (simp add: des_blank_def)
next
  case (Suc n)
  define T where "T = fold (perm_step p) [0..<n] (des_blank rows)"
  from Suc have len: "length T = rows" "\<forall>i < rows. length (T ! i) = 16"
    and bits: "\<forall>i < rows. \<forall>j < 16. \<forall>k. bit (T ! i ! j) k \<longleftrightarrow>
      k < n \<and> p ! k \<noteq> 0 \<and> (p ! k - 1) div 4 = i \<and> bit j ((p ! k - 1) mod 4)" by (auto simp: T_def)
  have step: "fold (perm_step p) [0..<Suc n] (des_blank rows) = perm_step p n T" by (simp add: T_def)
  show ?case
  proof (cases "p ! n = 0")
    case True
    then show ?thesis unfolding step using len bits by (auto simp: perm_step_def less_Suc_eq)
  next
    case False
    define i0 m0 where "i0 = (p ! n - 1) div 4" and "m0 = (p ! n - 1) mod 4"
    have "p ! n \<le> 4 * rows" using Suc.prems(1) by simp
    with False have i0: "i0 < rows" by (simp add: i0_def div_less_iff_less_mult)
    have T': "perm_step p n T = T[i0 := map (\<lambda>j. if bit j m0 then T ! i0 ! j OR push_bit n 1 else T ! i0 ! j) [0..<16]]"
      unfolding perm_step_def Let_def and_push_bit_1 i0_def [symmetric] m0_def [symmetric] using False by (simp only: if_False)
    have bn: "bit (2 ^ n :: C_block) k \<longleftrightarrow> k = n" for k
      using Suc.prems(2) by (auto simp: bit_exp_iff)
    have "bit (perm_step p n T ! i ! j) k \<longleftrightarrow>
        k < Suc n \<and> p ! k \<noteq> 0 \<and> (p ! k - 1) div 4 = i \<and> bit j ((p ! k - 1) mod 4)" if "i < rows" "j < 16" for i j k
    proof (cases "i = i0")
      case True
      then have "bit (perm_step p n T ! i ! j) k \<longleftrightarrow> bit (T ! i ! j) k \<or> (bit j m0 \<and> k = n)"
        using that len i0 by (simp add: T' bit_or_iff bn)
      with True bits that False show ?thesis by (auto simp: i0_def m0_def less_Suc_eq)
    next
      case ne: False
      then have "perm_step p n T ! i = T ! i" by (simp add: T')
      with ne bits that show ?thesis by (auto simp: i0_def less_Suc_eq)
    qed
    moreover have "length (perm_step p n T) = rows" "\<forall>i < rows. length (perm_step p n T ! i) = 16"
      using len i0 by (simp_all add: T' nth_list_update)
    ultimately show ?thesis unfolding step by blast
  qed
qed

lemma bit_permute:
  "length rows = 2 * length ts \<Longrightarrow> bit (permute ts rows) k \<longleftrightarrow>
    (\<exists>n < length ts. bit (rows ! (2 * n) ! unat (ts ! n AND 0xf)) k \<or> bit (rows ! (2 * n + 1) ! unat (drop_bit 4 (ts ! n))) k)"
proof (induction ts arbitrary: rows)
  case (Cons t ts)
  then obtain r0 r1 rest where rows: "rows = r0 # r1 # rest" "length rest = 2 * length ts"
    by (cases rows; cases "tl rows") auto
  have "(\<exists>n < length (t # ts). P n) \<longleftrightarrow> P 0 \<or> (\<exists>n < length ts. P (Suc n))" for P :: "nat \<Rightarrow> bool"
    using less_Suc_eq_0_disj [of _ "length ts"] by auto
  then show ?case using Cons.IH [OF rows(2)] by (simp add: rows(1) bit_or_iff disj_assoc)
qed simp

text \<open>
  The table lookups of \<^verbatim>\<open>permute\<close> with a table of \<^verbatim>\<open>init_perm\<close>: output bit \<open>k\<close> is input bit \<open>p ! k\<close>, numbered
  from 1, or 0 if \<open>p ! k\<close> is 0.
\<close>

lemma permute_table:
  assumes "length ts = c" and "\<forall>k < 64. p ! k \<le> 8 * c" and "k < 64"
  shows "bit (permute ts (init_perm p 8 (des_blank (2 * c)))) k \<longleftrightarrow>
    p ! k \<noteq> 0 \<and> bit (ts ! ((p ! k - 1) div 8)) ((p ! k - 1) mod 8)"
proof -
  define T where "T = init_perm p 8 (des_blank (2 * c))"
  have inv: "length T = 2 * c" "\<And>i j k. i < 2 * c \<Longrightarrow> j < 16 \<Longrightarrow> bit (T ! i ! j) k \<longleftrightarrow>
      k < 64 \<and> p ! k \<noteq> 0 \<and> (p ! k - 1) div 4 = i \<and> bit j ((p ! k - 1) mod 4)"
    using perm_fold_inv [of 64 p "2 * c"] assms(2) by (simp_all add: T_def init_perm_eq)
  define l where "l = p ! k - 1"
  have l8: "l div 8 = l div 4 div 2" "l mod 8 = 4 * (l div 4 mod 2) + l mod 4"
    using div_mult2_eq [of l 4 2] mod_mult2_eq [of l 4 2] by simp_all
  have m2: "m = 2 * n \<longleftrightarrow> m div 2 = n \<and> m mod 2 = 0" for m n :: nat by auto
  have m2': "m = 2 * n + 1 \<longleftrightarrow> m div 2 = n \<and> m mod 2 = 1" for m n :: nat
    by (auto; use div_mult_mod_eq [of m 2] in linarith)
  have split: "l div 4 = 2 * n \<longleftrightarrow> l div 8 = n \<and> l mod 8 = l mod 4"
    "l div 4 = 2 * n + 1 \<longleftrightarrow> l div 8 = n \<and> l mod 8 = 4 + l mod 4" for n
    unfolding l8 m2 m2' by simp_all
  have m4: "l mod 4 < 4" by simp
  have "bit (permute ts T) k \<longleftrightarrow> (\<exists>n < c. p ! k \<noteq> 0 \<and>
      ((l div 4 = 2 * n \<and> bit (ts ! n) (l mod 4)) \<or> (l div 4 = 2 * n + 1 \<and> bit (ts ! n) (4 + l mod 4))))"
  proof -
    have "bit (T ! (2 * n) ! unat (ts ! n AND 0xf)) k \<longleftrightarrow> p ! k \<noteq> 0 \<and> l div 4 = 2 * n \<and> bit (ts ! n) (l mod 4)"
      "bit (T ! (2 * n + 1) ! unat (drop_bit 4 (ts ! n))) k \<longleftrightarrow> p ! k \<noteq> 0 \<and> l div 4 = 2 * n + 1 \<and> bit (ts ! n) (4 + l mod 4)"
      if "n < c" for n
      using inv(2) [of "2 * n" "unat (ts ! n AND 0xf)" k] inv(2) [of "2 * n + 1" "unat (drop_bit 4 (ts ! n))" k]
        that assms(3) nibble_bound [of "ts ! n"] bit_low_nibble [OF m4, of "ts ! n"] bit_high_nibble [OF m4, of "ts ! n"]
      by (simp_all only: l_def [symmetric]) simp_all
    with bit_permute [of T ts k] inv(1) assms(1) show ?thesis by (auto simp del: One_nat_def)
  qed
  also have "\<dots> \<longleftrightarrow> p ! k \<noteq> 0 \<and> bit (ts ! (l div 8)) (l mod 8)"
  proof (cases "p ! k = 0")
    case False
    moreover have "p ! k \<le> 8 * c" using assms(2,3) by simp
    ultimately have "l div 8 < c" by (simp add: l_def div_less_iff_less_mult)
    moreover have "l mod 8 = l mod 4 \<or> l mod 8 = 4 + l mod 4" unfolding l8 by (simp add: mod2_eq_if)
    ultimately show ?thesis using False unfolding split by auto
  qed simp
  finally show ?thesis by (simp add: T_def l_def)
qed

end
