(* ===== verification/Des_Ref.thy ===== *)
theory Des_Ref
  imports Crypt_Des
begin

text \<open>
  The Data Encryption Standard as the standard states it, on lists of bits, with the salt of
  \<^verbatim>\<open>crypt(3)\<close>, and the proof that \<^verbatim>\<open>des_setkey\<close> and \<^verbatim>\<open>des_cipher\<close> of \<^verbatim>\<open>crypt/crypt_des.c\<close> compute it.  The code
  keeps both halves of a block in expanded form and combines S-boxes, permutation and expansion in
  one table; the lemmas below relate the two representations step by step.
\<close>

unbundle bit_operations_syntax

subsection \<open>The standard\<close>

text \<open>Bit \<open>n\<close> of a block, numbered from 1: bit 1 is the most significant bit of the first byte.\<close>

definition std_pos :: "nat \<Rightarrow> nat" where
  "std_pos n = 8 * ((n - 1) div 8) + (7 - (n - 1) mod 8)"

definition std_bit :: "C_block \<Rightarrow> nat \<Rightarrow> bool" where
  "std_bit B n = bit B (std_pos n)"

definition ref_PC2 :: "nat list" where
  "ref_PC2 = map (\<lambda>i. des_PC2 ! (8 * (i div 6) + 2 + i mod 6)) [0..<48]"

definition ref_shift :: "nat \<Rightarrow> nat" where
  "ref_shift r = sum_list (take (Suc r) des_Rotates)"

definition ref_rotate :: "nat \<Rightarrow> nat \<Rightarrow> nat" where
  "ref_rotate s i = (if i < 28 then (i + s) mod 28 else 28 + (i - 28 + s) mod 28)"

definition ref_key :: "C_block \<Rightarrow> nat \<Rightarrow> bool list" where
  "ref_key key r = map (\<lambda>i. std_bit key (des_PC1 ! ref_rotate (ref_shift r) (i - 1))) ref_PC2"

definition ref_E :: "bool list \<Rightarrow> bool list" where
  "ref_E h = map (\<lambda>i. h ! (i - 1)) des_ExpandTr"

definition ref_salt :: "32 word \<Rightarrow> bool list \<Rightarrow> bool list" where
  "ref_salt salt e = map (\<lambda>i. if bit salt (i mod 24) then e ! ((i + 24) mod 48) else e ! i) [0..<48]"

definition ref_S :: "nat \<Rightarrow> bool list \<Rightarrow> nat" where
  "ref_S g x =
     (let row = 2 * of_bool (x ! 0) + of_bool (x ! 5);
          col = 8 * of_bool (x ! 1) + 4 * of_bool (x ! 2) + 2 * of_bool (x ! 3) + of_bool (x ! 4)
      in des_S ! g ! (16 * row + col))"

definition ref_sboxes :: "bool list \<Rightarrow> bool list" where
  "ref_sboxes x = concat (map (\<lambda>g. map (\<lambda>b. bit (ref_S g (take 6 (drop (6 * g) x))) (3 - b)) [0..<4]) [0..<8])"

definition ref_f :: "32 word \<Rightarrow> bool list \<Rightarrow> bool list \<Rightarrow> bool list" where
  "ref_f salt k h =
     (let s = ref_sboxes (map2 (\<noteq>) (ref_salt salt (ref_E h)) k) in map (\<lambda>i. s ! (i - 1)) des_P32Tr)"

fun ref_round :: "32 word \<Rightarrow> bool list \<Rightarrow> bool list \<times> bool list \<Rightarrow> bool list \<times> bool list" where
  "ref_round salt k (l, r) = (r, map2 (\<noteq>) l (ref_f salt k r))"

definition ref_sixteen :: "32 word \<Rightarrow> C_block \<Rightarrow> bool list \<times> bool list \<Rightarrow> bool list \<times> bool list" where
  "ref_sixteen salt key lr = prod.swap (fold (\<lambda>r. ref_round salt (ref_key key r)) [0..<16] lr)"

definition ref_IP :: "C_block \<Rightarrow> bool list \<times> bool list" where
  "ref_IP B = (map (\<lambda>i. std_bit B (des_IP ! i)) [0..<32], map (\<lambda>i. std_bit B (des_IP ! (32 + i))) [0..<32])"

text \<open>The inverse of the initial permutation: bit \<open>des_IP ! i\<close> of the block is bit \<open>i\<close> of the two halves.\<close>

definition ref_FP :: "bool list \<times> bool list \<Rightarrow> C_block" where
  "ref_FP lr = horner_sum of_bool 2 (map (\<lambda>q.
     (fst lr @ snd lr) ! length (takeWhile (\<lambda>n. std_pos n \<noteq> q) des_IP)) [0..<64])"

definition ref_des :: "C_block \<Rightarrow> 32 word \<Rightarrow> nat \<Rightarrow> C_block \<Rightarrow> C_block" where
  "ref_des key salt n B = ref_FP ((ref_sixteen salt key ^^ n) (ref_IP B))"


subsection \<open>Bits of blocks\<close>

lemma bit_cb_of: "bit (cb_of a b) n \<longleftrightarrow> (if n < 32 then bit a n else n < 64 \<and> bit b (n - 32))"
proof (cases "n < 32")
  case True
  then show ?thesis by (simp add: cb_of_def bit_or_iff bit_push_bit_iff bit_ucast_iff)
next
  case False
  then have "\<not> bit a n" by (intro bit_word_high) simp
  with False show ?thesis by (auto simp: cb_of_def bit_or_iff bit_push_bit_iff bit_ucast_iff)
qed

lemma bit_cb_i0: "bit (cb_i0 w) n \<longleftrightarrow> n < 32 \<and> bit w n"
  by (auto simp: cb_i0_def bit_ucast_iff)

lemma bit_cb_i1: "bit (cb_i1 w) n \<longleftrightarrow> n < 32 \<and> bit w (32 + n)"
  by (auto simp: cb_i1_def bit_ucast_iff bit_drop_bit_eq)

lemma bit_cb_b: "bit (cb_b w g) m \<longleftrightarrow> m < 8 \<and> bit w (8 * g + m)"
  by (auto simp: cb_b_def bit_ucast_iff bit_drop_bit_eq)

lemma cb_of_halves [simp]: "cb_of (cb_i0 w) (cb_i1 w) = w"
  by (rule bit_word_eqI) (auto simp: bit_cb_of bit_cb_i0 bit_cb_i1)

lemma length_cb_bytes [simp]: "length (cb_bytes w) = 8"
  by (simp add: cb_bytes_def)

lemma cb_bytes_nth: "g < 8 \<Longrightarrow> cb_bytes w ! g = cb_b w g"
  by (simp add: cb_bytes_def)

lemma bit_TO_SIX_BIT:
  assumes "a < 4" and "m < 8"
  shows "bit (TO_SIX_BIT w) (8 * a + m) \<longleftrightarrow> 2 \<le> m \<and> bit w (6 * a + (m - 2))"
proof -
  define bs where "bs = [ucast w, ucast (signed_drop_bit 6 w), ucast (signed_drop_bit 12 w), ucast (signed_drop_bit 18 w) :: byte]"
  have mask: "(0x3f3f3f3f :: 32 word) = load_le [0x3f, 0x3f, 0x3f, 0x3f]"
    by (simp add: load_le_def)
  have nth: "r < 8 \<Longrightarrow> bit (bs ! a) r \<longleftrightarrow> bit w (6 * a + r)" for r
  proof -
    assume r: "r < 8"
    consider "a = 0" | "a = 1" | "a = 2" | "a = 3" using assms(1) by linarith
    then show ?thesis using r by cases (simp_all add: bs_def bit_ucast_iff bit_signed_drop_bit_iff)
  qed
  have m3f: "bit ([0x3f, 0x3f, 0x3f, 0x3f :: byte] ! a) r \<longleftrightarrow> r < 6" if "r < 8" for r
  proof -
    have "bit (0x3f :: byte) r \<longleftrightarrow> r < 6"
    proof -
      have "(0x3f :: byte) = mask 6" by (simp add: mask_eq_exp_minus_1)
      then show ?thesis using that by (simp only: bit_mask_iff) simp
    qed
    moreover have "[0x3f, 0x3f, 0x3f, 0x3f :: byte] ! a = 0x3f" using assms(1) by (simp add: nth_Cons split: nat.splits)
    ultimately show ?thesis by simp
  qed
  have load: "bit (load_le [0x3f, 0x3f, 0x3f, 0x3f] :: 32 word) (8 * a + r) \<longleftrightarrow> r < 6"
    "bit (load_le bs :: 32 word) (8 * a + r) \<longleftrightarrow> bit w (6 * a + r)" if "r < 8" for r
    using that assms(1) m3f [OF that] nth [OF that] by (simp_all add: bit_load_le bs_def)
  define X where "X = (load_le bs AND load_le [0x3f, 0x3f, 0x3f, 0x3f] :: 32 word)"
  have def: "TO_SIX_BIT w = push_bit 2 X"
    unfolding X_def mask [symmetric] TO_SIX_BIT_def bs_def by (rule refl)
  show ?thesis
  proof (cases "2 \<le> m")
    case True
    then have "bit (TO_SIX_BIT w) (8 * a + m) \<longleftrightarrow> bit X (8 * a + (m - 2))"
      unfolding def using assms by (simp add: bit_push_bit_iff)
    moreover have "m - 2 < 8" "m - 2 < 6" using assms(2) True by simp_all
    ultimately show ?thesis using True load [of "m - 2"] unfolding X_def bit_and_iff by blast
  next
    case False
    show ?thesis
    proof (cases a)
      case 0
      with False show ?thesis unfolding def by (simp add: bit_push_bit_iff)
    next
      case (Suc a')
      have ge: "8 * a + m \<ge> 2" "8 * a + m - 2 = 8 * a' + (m + 6)" using Suc False by simp_all
      have "\<not> bit (load_le [0x3f, 0x3f, 0x3f, 0x3f] :: 32 word) (8 * a' + (m + 6))"
      proof -
        have "(8 * a' + (m + 6)) div 8 = a'" "(8 * a' + (m + 6)) mod 8 = m + 6" using False by simp_all
        moreover have "[0x3f, 0x3f, 0x3f, 0x3f :: byte] ! a' = mask 6"
          using assms(1) Suc by (simp add: nth_Cons mask_eq_exp_minus_1 split: nat.splits)
        ultimately show ?thesis by (simp add: bit_load_le bit_mask_iff)
      qed
      with ge False show ?thesis unfolding def by (auto simp: bit_push_bit_iff X_def bit_and_iff)
    qed
  qed
qed

subsection \<open>The combined table\<close>

lemma bit_fold_bits:
  "(\<forall>i < N. F i < 2) \<Longrightarrow> n < 32 \<Longrightarrow>
   bit (fold (\<lambda>i k. push_bit 1 k OR word_of_nat (F i)) (rev [0..<N]) k0 :: 32 word) n \<longleftrightarrow>
     (if n < N then F n = (1::nat) else bit k0 (n - N))"
proof (induction N arbitrary: k0 n)
  case (Suc N)
  have FN: "F N = 0 \<or> F N = 1" using Suc.prems(1) by (auto simp: less_2_cases_iff)
  have "fold (\<lambda>i k. push_bit 1 k OR word_of_nat (F i)) (rev [0..<Suc N]) k0
      = fold (\<lambda>i k. push_bit 1 k OR word_of_nat (F i)) (rev [0..<N]) (push_bit 1 k0 OR word_of_nat (F N))" by simp
  moreover have "bit (push_bit 1 k0 OR word_of_nat (F N) :: 32 word) i \<longleftrightarrow> (if i = 0 then F N = 1 else bit k0 (i - 1))"
    if "i < 32" for i
  proof -
    have "bit (push_bit 1 k0) i \<longleftrightarrow> 1 \<le> i \<and> bit k0 (i - 1)" using that by (simp only: bit_push_bit_iff possible_bit_word) simp
    moreover have "bit (word_of_nat (F N) :: 32 word) i \<longleftrightarrow> i = 0 \<and> F N = 1" using FN that by (auto simp: bit_1_iff)
    ultimately show ?thesis unfolding bit_or_iff by auto
  qed
  moreover have "\<forall>i < N. F i < 2" using Suc.prems(1) by simp
  ultimately have *: "bit (fold (\<lambda>i k. push_bit 1 k OR word_of_nat (F i)) (rev [0..<Suc N]) k0 :: 32 word) n \<longleftrightarrow>
      (if n < N then F n = 1 else if n - N = 0 then F N = 1 else bit k0 (n - N - 1))"
    using Suc.IH [of n "push_bit 1 k0 OR word_of_nat (F N)"] Suc.prems(2) by simp
  have "n < N \<or> n = N \<or> N < n" by linarith
  then show ?case unfolding * by auto
qed simp

lemma des_tmp32_nth:
  assumes "t < 8" and "q < 32"
  shows "des_tmp32 t j ! q = (if q div 4 = t then drop_bit (q mod 4) (des_S_out t j) AND 1 else 0)"
proof -
  define v where "v i = drop_bit i (des_S_out t j) AND 1" for i
  have eq: "des_tmp32 t j = (replicate 32 0)[4 * t := v 0, 4 * t + 1 := v 1, 4 * t + 2 := v 2, 4 * t + 3 := v 3]"
  proof -
    have u: "[0..<4] = [0, 1, 2, 3 :: nat]" by code_simp
    show ?thesis unfolding des_tmp32_def u v_def [symmetric] by simp
  qed
  have q: "q = 4 * (q div 4) + q mod 4" by simp
  have "q mod 4 = 0 \<or> q mod 4 = 1 \<or> q mod 4 = 2 \<or> q mod 4 = 3" by linarith
  then have "des_tmp32 t j ! q = (if q div 4 = t then v (q mod 4) else 0)"
  proof (elim disjE)
  qed (use assms q in \<open>auto simp: eq nth_list_update\<close>)
  then show ?thesis by (simp add: v_def)
qed


definition S_index :: "nat \<Rightarrow> nat" where
  "S_index j = push_bit 5 (drop_bit 0 j AND 1) OR push_bit 3 (drop_bit 1 j AND 1) OR push_bit 2 (drop_bit 2 j AND 1)
     OR push_bit 1 (drop_bit 3 j AND 1) OR push_bit 0 (drop_bit 4 j AND 1) OR push_bit 4 (drop_bit 5 j AND 1)"

definition S_reverse :: "nat \<Rightarrow> nat" where
  "S_reverse k = push_bit 0 (drop_bit 3 k AND 1) OR push_bit 1 (drop_bit 2 k AND 1) OR push_bit 2 (drop_bit 1 k AND 1)
     OR push_bit 3 (drop_bit 0 k AND 1)"

lemma des_S_out_eq: "des_S_out t j = S_reverse (des_S ! t ! S_index j)"
  unfolding des_S_out_def S_index_def S_reverse_def Let_def by (rule refl)

lemma drop_and_1: "drop_bit i (j :: nat) AND 1 = of_bool (bit j i)"
  by (simp add: and_one_eq mod_2_eq_odd bit_iff_odd_drop_bit)

lemma S_index_eq:
  "S_index j = 16 * (2 * of_bool (bit j 0) + of_bool (bit j 5)) + (8 * of_bool (bit j 1) + 4 * of_bool (bit j 2) + 2 * of_bool (bit j 3) + of_bool (bit j 4))"
  unfolding S_index_def drop_and_1
  by (cases "bit j 0"; cases "bit j 1"; cases "bit j 2"; cases "bit j 3"; cases "bit j 4"; cases "bit j 5"; simp)

lemma S_reverse_bit:
  assumes "b < 4"
  shows "bit (S_reverse v) b \<longleftrightarrow> bit v (3 - b)"
proof -
  have "b = 0 \<or> b = 1 \<or> b = 2 \<or> b = 3" using assms by linarith
  then show ?thesis
    unfolding S_reverse_def drop_and_1
    by (elim disjE) (simp_all add: bit_or_iff bit_push_bit_iff bit_1_iff bit_0)
qed

lemma des_S_out_ref:
  assumes "b < 4"
  shows "bit (des_S_out t j) b \<longleftrightarrow> bit (ref_S t (map (bit j) [0..<6])) (3 - b)"
proof -
  have nth: "i < 6 \<Longrightarrow> map (bit j) [0..<6] ! i = bit j i" for i by simp
  have n: "(0::nat) < 6" "(1::nat) < 6" "(2::nat) < 6" "(3::nat) < 6" "(4::nat) < 6" "(5::nat) < 6" by simp_all
  have "ref_S t (map (bit j) [0..<6]) = des_S ! t ! S_index j"
    unfolding ref_S_def S_index_eq Let_def n [THEN nth] by (rule refl)
  with assms show ?thesis
    by (simp add: des_S_out_eq S_reverse_bit)
qed

text \<open>The entry for S-box \<open>t\<close> and input \<open>j\<close> in the tables for the low and the high half.\<close>

lemma des_SPE_perm_nth: "i < 48 \<Longrightarrow> des_SPE_perm ! i = des_P32Tr ! (des_ExpandTr ! i - 1)"
  by (simp add: des_SPE_perm_def)

lemma table_bounds:
  "i < 48 \<Longrightarrow> 1 \<le> des_ExpandTr ! i \<and> des_ExpandTr ! i \<le> 32"
  "i < 32 \<Longrightarrow> 1 \<le> des_P32Tr ! i \<and> des_P32Tr ! i \<le> 32"
proof -
  have "length des_ExpandTr = 48" "\<forall>v \<in> set des_ExpandTr. 1 \<le> v \<and> v \<le> 32" by (simp_all add: des_ExpandTr_def)
  then show "i < 48 \<Longrightarrow> 1 \<le> des_ExpandTr ! i \<and> des_ExpandTr ! i \<le> 32" by simp
  have "length des_P32Tr = 32" "\<forall>v \<in> set des_P32Tr. 1 \<le> v \<and> v \<le> 32" by (simp_all add: des_P32Tr_def)
  then show "i < 32 \<Longrightarrow> 1 \<le> des_P32Tr ! i \<and> des_P32Tr ! i \<le> 32" by simp
qed

lemma SPE_perm_bounds:
  assumes "i < 48"
  shows "1 \<le> des_SPE_perm ! i" "des_SPE_perm ! i \<le> 32"
proof -
  have "des_ExpandTr ! i - 1 < 32" using table_bounds(1) [OF assms] by linarith
  then show "1 \<le> des_SPE_perm ! i" "des_SPE_perm ! i \<le> 32"
    using table_bounds(2) des_SPE_perm_nth [OF assms] by simp_all
qed

lemma bit_spe_entry:
  assumes "t < 8" and "a < 4" and "m < 8" and "off = 0 \<or> off = 24"
  shows "bit (des_spe_entry off t j) (8 * a + m) \<longleftrightarrow> 2 \<le> m \<and>
    (let q = des_SPE_perm ! (6 * a + (m - 2) + off) - 1 in q div 4 = t \<and> bit (des_S_out t j) (q mod 4))"
proof -
  define F where "F i = des_tmp32 t j ! (des_SPE_perm ! (i + off) - 1)" for i
  have q32: "des_SPE_perm ! (i + off) - 1 < 32" if "i < 24" for i
    using SPE_perm_bounds [of "i + off"] that assms(4) by auto
  have F: "F i = (if (des_SPE_perm ! (i + off) - 1) div 4 = t
      then drop_bit ((des_SPE_perm ! (i + off) - 1) mod 4) (des_S_out t j) AND 1 else 0)" if "i < 24" for i
    unfolding F_def by (rule des_tmp32_nth [OF assms(1) q32 [OF that]])
  have F1: "F i = 1 \<longleftrightarrow> (des_SPE_perm ! (i + off) - 1) div 4 = t \<and>
      bit (des_S_out t j) ((des_SPE_perm ! (i + off) - 1) mod 4)" if "i < 24" for i
    unfolding F [OF that] by (simp add: and_one_eq mod_2_eq_odd bit_iff_odd_drop_bit)
  have "\<forall>i < 24. F i < 2" using F by (simp add: and_one_eq)
  then have "bit (fold (\<lambda>i k. push_bit 1 k OR word_of_nat (F i)) (rev [0..<24]) 0 :: 32 word) n \<longleftrightarrow> F n = 1" if "n < 24" for n
    using bit_fold_bits [of 24 F n 0] that by simp
  moreover have "6 * a + (m - 2) < 24" using assms(2,3) by linarith
  ultimately show ?thesis
    unfolding des_spe_entry_def F_def [symmetric] using bit_TO_SIX_BIT [OF assms(2,3)] F1 [of "6 * a + (m - 2)"]
    by (simp add: Let_def)
qed
subsection \<open>Six bits in every byte\<close>

text \<open>
  The format in which the code keeps 48 bits: six in every byte of a block, above two bits that are 0.  A half of the
  data block is kept expanded, in this format.
\<close>

definition six_rep :: "C_block \<Rightarrow> bool list \<Rightarrow> bool" where
  "six_rep w e \<longleftrightarrow> length e = 48 \<and> (\<forall>g < 8. \<forall>m < 8. bit w (8 * g + m) \<longleftrightarrow> 2 \<le> m \<and> e ! (6 * g + (m - 2)))"

definition half_rep :: "32 word \<times> 32 word \<Rightarrow> bool list \<Rightarrow> bool" where
  "half_rep p h \<longleftrightarrow> length h = 32 \<and> six_rep (cb_of (fst p) (snd p)) (ref_E h)"

lemma length_ExpandTr: "length des_ExpandTr = 48"
  by (simp add: des_ExpandTr_def)

lemma length_P32Tr: "length des_P32Tr = 32"
  by (simp add: des_P32Tr_def)

lemma length_ref_E [simp]: "length (ref_E h) = 48"
  by (simp add: ref_E_def length_ExpandTr)

lemma ref_E_nth: "i < 48 \<Longrightarrow> ref_E h ! i = h ! (des_ExpandTr ! i - 1)"
  by (simp add: ref_E_def length_ExpandTr)

lemma six_repD: "six_rep w e \<Longrightarrow> g < 8 \<Longrightarrow> m < 8 \<Longrightarrow> bit w (8 * g + m) \<longleftrightarrow> 2 \<le> m \<and> e ! (6 * g + (m - 2))"
  by (simp add: six_rep_def)

lemma six_rep_xor:
  assumes "six_rep w e" and "six_rep w' e'"
  shows "six_rep (w XOR w') (map2 (\<noteq>) e e')"
proof -
  have "bit (w XOR w') (8 * g + m) \<longleftrightarrow> 2 \<le> m \<and> map2 (\<noteq>) e e' ! (6 * g + (m - 2))" if "g < 8" "m < 8" for g m
  proof -
    have "6 * g + (m - 2) < 48" using that by linarith
    then show ?thesis using assms that by (auto simp: six_rep_def bit_xor_iff)
  qed
  then show ?thesis using assms by (simp add: six_rep_def)
qed

lemma ref_E_xor: "length a = 32 \<Longrightarrow> length b = 32 \<Longrightarrow> ref_E (map2 (\<noteq>) a b) = map2 (\<noteq>) (ref_E a) (ref_E b)"
proof (rule nth_equalityI)
  fix i assume "length a = 32" "length b = 32" "i < length (ref_E (map2 (\<noteq>) a b))"
  moreover from this have "des_ExpandTr ! i - 1 < 32" using table_bounds(1) [of i] by (simp add: less_eq_Suc_le)
  ultimately show "ref_E (map2 (\<noteq>) a b) ! i = map2 (\<noteq>) (ref_E a) (ref_E b) ! i" by (simp add: ref_E_nth)
qed simp

lemma cb_of_xor: "cb_of a b XOR w = cb_of (a XOR cb_i0 w) (b XOR cb_i1 w)"
  by (rule bit_word_eqI) (auto simp: bit_cb_of bit_xor_iff bit_cb_i0 bit_cb_i1)

text \<open>The salt exchanges bits of the two halves of the expanded data.\<close>

lemma length_ref_salt [simp]: "length (ref_salt salt e) = 48"
  by (simp add: ref_salt_def)

lemma six_rep_salt:
  fixes salt :: "32 word"
  assumes "six_rep (cb_of q0 q1) e"
  defines "k \<equiv> (q0 XOR q1) AND TO_SIX_BIT salt"
  shows "six_rep (cb_of (k XOR q0) (k XOR q1)) (ref_salt salt e)"
proof -
  have "bit (cb_of (k XOR q0) (k XOR q1)) (8 * g + m) \<longleftrightarrow> 2 \<le> m \<and> ref_salt salt e ! (6 * g + (m - 2))" if gm: "g < 8" "m < 8" for g m
  proof -
    define a where "a = g mod 4"
    have a: "a < 4" "8 * a + m < 32" using gm by (simp_all add: a_def)
    have q: "bit q0 (8 * a + m) \<longleftrightarrow> 2 \<le> m \<and> e ! (6 * a + (m - 2))" "bit q1 (8 * a + m) \<longleftrightarrow> 2 \<le> m \<and> e ! (6 * a + (m - 2) + 24)"
      using six_repD [OF assms(1), of a m] six_repD [OF assms(1), of "4 + a" m] a gm by (simp_all add: bit_cb_of ac_simps)
    have s: "bit k (8 * a + m) \<longleftrightarrow> (bit q0 (8 * a + m) \<noteq> bit q1 (8 * a + m)) \<and> 2 \<le> m \<and> bit salt (6 * a + (m - 2))"
      using bit_TO_SIX_BIT [OF a(1) gm(2)] by (auto simp: k_def bit_and_iff bit_xor_iff)
    show ?thesis
    proof (cases "g < 4")
      case True
      then have g: "g = a" by (simp add: a_def)
      have i: "6 * a + (m - 2) < 24" using a gm by linarith
      then have "ref_salt salt e ! (6 * a + (m - 2)) = (if bit salt (6 * a + (m - 2)) then e ! (6 * a + (m - 2) + 24) else e ! (6 * a + (m - 2)))"
        by (simp add: ref_salt_def)
      then show ?thesis using a q s unfolding g by (auto simp: bit_cb_of bit_xor_iff)
    next
      case False
      then have g: "g = a + 4" using gm by (simp add: a_def le_mod_geq)
      have i: "6 * a + (m - 2) < 24" using a gm by linarith
      then have "ref_salt salt e ! (6 * g + (m - 2)) = (if bit salt (6 * a + (m - 2)) then e ! (6 * a + (m - 2)) else e ! (6 * a + (m - 2) + 24))"
        by (simp add: ref_salt_def g mod_if ac_simps)
      moreover have "8 * g + m = 32 + (8 * a + m)" by (simp add: g)
      ultimately show ?thesis using a q s by (auto simp: bit_cb_of bit_xor_iff)
    qed
  qed
  then show ?thesis by (simp add: six_rep_def)
qed
subsection \<open>One round\<close>

lemma nth_concat_map:
  assumes "i < N" and "j < n"
  shows "concat (map (\<lambda>i. map (f i) [0..<n]) [0..<N]) ! (n * i + j) = f i j"
  using assms(1)
proof (induction N)
  case (Suc N)
  have l: "length (concat (map (\<lambda>i. map (f i) [0..<n]) [0..<N])) = n * N" by (induction N) simp_all
  show ?case
  proof (cases "i < N")
    case True
    have "n * i + j < n * Suc i" using assms(2) by simp
    also have "\<dots> \<le> n * N" using True by (intro mult_le_mono2) simp
    finally have "n * i + j < n * N" .
    with Suc.IH [OF True] l show ?thesis by (simp add: nth_append)
  next
    case False
    with Suc.prems have "i = N" by simp
    with l assms(2) show ?thesis by (simp add: nth_append)
  qed
qed simp

lemma ref_sboxes_nth:
  assumes "t < 8" and "b < 4"
  shows "ref_sboxes x ! (4 * t + b) \<longleftrightarrow> bit (ref_S t (take 6 (drop (6 * t) x))) (3 - b)"
  unfolding ref_sboxes_def by (rule nth_concat_map [OF assms])

lemma length_ref_sboxes: "length (ref_sboxes x) = 32"
proof -
  have "length (concat (map (\<lambda>g. map (\<lambda>b. bit (ref_S g (take 6 (drop (6 * g) x))) (3 - b)) [0..<4]) [0..<n])) = 4 * n" for n
    by (induction n) simp_all
  from this [of 8] show ?thesis by (simp add: ref_sboxes_def)
qed

definition des_index :: "C_block \<Rightarrow> nat \<Rightarrow> nat" where
  "des_index B t = unat (cb_b B t) div 4"

lemma six_rep_index:
  assumes "six_rep B x" and "t < 8"
  shows "unat (cb_b B t) mod 4 = 0" and "des_index B t < 64" and "map (bit (des_index B t)) [0..<6] = take 6 (drop (6 * t) x)"
proof -
  have len: "length x = 48" using assms(1) by (simp add: six_rep_def)
  have b: "bit (cb_b B t) m \<longleftrightarrow> m < 8 \<and> 2 \<le> m \<and> x ! (6 * t + (m - 2))" for m
    using six_repD [OF assms, of m] by (auto simp: bit_cb_b)
  have "take_bit 2 (cb_b B t) = 0" by (rule bit_word_eqI) (simp add: bit_take_bit_iff b)
  then have "take_bit 2 (unat (cb_b B t)) = 0" by (metis unsigned_0 unsigned_take_bit_eq)
  then show "unat (cb_b B t) mod 4 = 0" by (simp add: take_bit_eq_mod)
  show "des_index B t < 64" using unsigned_less [of "cb_b B t", where 'a = nat] by (simp add: des_index_def less_mult_imp_div_less)
  show "map (bit (des_index B t)) [0..<6] = take 6 (drop (6 * t) x)"
  proof (rule nth_equalityI)
    show "length (map (bit (des_index B t)) [0..<6]) = length (take 6 (drop (6 * t) x))" using len assms(2) by simp
    fix r assume "r < length (map (bit (des_index B t)) [0..<6])"
    then have r: "r < 6" by simp
    have "des_index B t = drop_bit 2 (unat (cb_b B t))" by (simp add: des_index_def drop_bit_eq_div)
    then have "bit (des_index B t) r \<longleftrightarrow> bit (cb_b B t) (2 + r)" by (simp add: bit_drop_bit_eq bit_unsigned_iff b)
    then show "map (bit (des_index B t)) [0..<6] ! r = take 6 (drop (6 * t) x) ! r"
      using r b [of "2 + r"] len assms(2) by simp
  qed
qed

definition des_ready :: "des_state \<Rightarrow> bool" where
  "des_ready st \<longleftrightarrow> st = init_des\<lparr>KS := KS st\<rparr>"

lemma des_ready_init: "des_ready init_des"
  by (simp add: des_ready_def)

lemma des_ready_setkey: "des_ready st \<Longrightarrow> des_ready (des_setkey key st)"
  by (cases st) (simp add: des_ready_def des_setkey_def Let_def init_des_def)

lemma des_ready_tables:
  assumes "des_ready st"
  shows "SPE0 st = map (\<lambda>tableno. map (des_spe_entry 0 tableno) [0..<64]) [0..<8]"
    "SPE1 st = map (\<lambda>tableno. map (des_spe_entry 24 tableno) [0..<64]) [0..<8]"
    "PC1ROT st = init_perm des_PC1_perm 8 (des_blank 16)" "PC2ROT0 st = init_perm (des_PC2_perm 0) 8 (des_blank 16)"
    "PC2ROT1 st = init_perm (des_PC2_perm 1) 8 (des_blank 16)" "IE3264 st = init_perm des_IE_perm 8 (des_blank 8)"
    "CF6464 st = init_perm (des_CF_perm des_IE_perm) 8 (des_blank 16)"
proof -
  from assms have st: "st = init_des\<lparr>KS := KS st\<rparr>" by (simp only: des_ready_def)
  show "SPE0 st = map (\<lambda>tableno. map (des_spe_entry 0 tableno) [0..<64]) [0..<8]" by (subst st) (simp add: init_des_def)
  show "SPE1 st = map (\<lambda>tableno. map (des_spe_entry 24 tableno) [0..<64]) [0..<8]" by (subst st) (simp add: init_des_def)
  show "PC1ROT st = init_perm des_PC1_perm 8 (des_blank 16)" by (subst st) (simp add: init_des_def)
  show "PC2ROT0 st = init_perm (des_PC2_perm 0) 8 (des_blank 16)" by (subst st) (simp add: init_des_def)
  show "PC2ROT1 st = init_perm (des_PC2_perm 1) 8 (des_blank 16)" by (subst st) (simp add: init_des_def)
  show "IE3264 st = init_perm des_IE_perm 8 (des_blank 8)" by (subst st) (simp add: init_des_def)
  show "CF6464 st = init_perm (des_CF_perm des_IE_perm) 8 (des_blank 16)" by (subst st) (simp add: init_des_def)
qed

lemma DOXOR_eq:
  assumes "des_ready st" and "six_rep B x" and "t < 8"
  shows "DOXOR st B t (p0, p1) = Inr (p0 XOR des_spe_entry 0 t (des_index B t), p1 XOR des_spe_entry 24 t (des_index B t))"
  using six_rep_index(1,2) [OF assms(2,3)] assms(3)
  by (simp add: DOXOR_def SPTAB_def des_ready_tables(1,2) [OF assms(1)] des_index_def del: upt_Suc)
text \<open>The bit of the S-boxes' output that lands in bit \<open>m\<close> of byte \<open>g\<close>, if S-box \<open>t\<close> is in \<open>T\<close>.\<close>

definition spe_bit :: "C_block \<Rightarrow> nat set \<Rightarrow> nat \<Rightarrow> nat \<Rightarrow> bool" where
  "spe_bit B T g m \<longleftrightarrow> 2 \<le> m \<and>
     (let q = des_SPE_perm ! (6 * g + (m - 2)) - 1 in q div 4 \<in> T \<and> bit (des_S_out (q div 4) (des_index B (q div 4))) (q mod 4))"

lemma bit_spe_entries:
  assumes "t < 8" and "a < 4" and "m < 8"
  shows "bit (des_spe_entry 0 t (des_index B t)) (8 * a + m) \<longleftrightarrow> spe_bit B {t} a m"
    "bit (des_spe_entry 24 t (des_index B t)) (8 * a + m) \<longleftrightarrow> spe_bit B {t} (a + 4) m"
proof -
  show "bit (des_spe_entry 0 t (des_index B t)) (8 * a + m) \<longleftrightarrow> spe_bit B {t} a m"
    using bit_spe_entry [OF assms, of 0 "des_index B t"] by (auto simp: spe_bit_def Let_def)
  have "6 * (a + 4) + (m - 2) = 6 * a + (m - 2) + 24" by simp
  then show "bit (des_spe_entry 24 t (des_index B t)) (8 * a + m) \<longleftrightarrow> spe_bit B {t} (a + 4) m"
    using bit_spe_entry [OF assms, of 24 "des_index B t"] by (auto simp: spe_bit_def Let_def)
qed

lemma DOXORs_eq:
  assumes "des_ready st" and "six_rep B x" and "distinct ts" and "set ts \<subseteq> {..<8}"
  shows "\<exists>p0' p1'. res_fold (DOXOR st B) ts (p0, p1) = Inr (p0', p1') \<and>
    (\<forall>a < 4. \<forall>m < 8. (bit p0' (8 * a + m) \<longleftrightarrow> bit p0 (8 * a + m) \<noteq> spe_bit B (set ts) a m) \<and>
       (bit p1' (8 * a + m) \<longleftrightarrow> bit p1 (8 * a + m) \<noteq> spe_bit B (set ts) (a + 4) m))"
  using assms(3,4)
proof (induction ts arbitrary: p0 p1)
  case Nil
  then show ?case by (simp add: spe_bit_def)
next
  case (Cons t ts)
  then have t: "t < 8" "t \<notin> set ts" by auto
  define r0 r1 where "r0 = p0 XOR des_spe_entry 0 t (des_index B t)" and "r1 = p1 XOR des_spe_entry 24 t (des_index B t)"
  have "distinct ts" "set ts \<subseteq> {..<8}" using Cons.prems by simp_all
  from Cons.IH [OF this, of r0 r1] obtain p0' p1' where IH: "res_fold (DOXOR st B) ts (r0, r1) = Inr (p0', p1')"
    "\<forall>a < 4. \<forall>m < 8. (bit p0' (8 * a + m) \<longleftrightarrow> bit r0 (8 * a + m) \<noteq> spe_bit B (set ts) a m) \<and>
       (bit p1' (8 * a + m) \<longleftrightarrow> bit r1 (8 * a + m) \<noteq> spe_bit B (set ts) (a + 4) m)" by blast
  have ins: "spe_bit B (set (t # ts)) g m \<longleftrightarrow> spe_bit B {t} g m \<noteq> spe_bit B (set ts) g m" for g m
    using t(2) by (auto simp: spe_bit_def Let_def)
  have "bit r0 (8 * a + m) \<longleftrightarrow> bit p0 (8 * a + m) \<noteq> spe_bit B {t} a m"
    "bit r1 (8 * a + m) \<longleftrightarrow> bit p1 (8 * a + m) \<noteq> spe_bit B {t} (a + 4) m" if "a < 4" "m < 8" for a m
    using bit_spe_entries [OF t(1) that] by (auto simp: r0_def r1_def bit_xor_iff)
  with IH(2) have "\<forall>a < 4. \<forall>m < 8. (bit p0' (8 * a + m) \<longleftrightarrow> bit p0 (8 * a + m) \<noteq> spe_bit B (set (t # ts)) a m) \<and>
       (bit p1' (8 * a + m) \<longleftrightarrow> bit p1 (8 * a + m) \<noteq> spe_bit B (set (t # ts)) (a + 4) m)"
    unfolding ins by blast
  moreover have "res_fold (DOXOR st B) (t # ts) (p0, p1) = Inr (p0', p1')"
    using DOXOR_eq [OF assms(1,2) t(1)] IH(1) by (simp add: r0_def r1_def)
  ultimately show ?case by blast
qed

lemma length_ref_f: "length (ref_f salt k h) = 32"
  by (simp add: ref_f_def Let_def length_P32Tr)

lemma spe_bit_ref:
  assumes "six_rep B x" and "g < 8" and "m < 8"
  shows "spe_bit B {..<8} g m \<longleftrightarrow> 2 \<le> m \<and> ref_E (map (\<lambda>i. ref_sboxes x ! (i - 1)) des_P32Tr) ! (6 * g + (m - 2))"
proof -
  define i where "i = 6 * g + (m - 2)"
  define q where "q = des_SPE_perm ! i - 1"
  have i: "i < 48" using assms(2,3) by (simp add: i_def)
  have q: "q < 32" using SPE_perm_bounds [OF i] by (simp add: q_def)
  have t: "q div 4 < 8" "q mod 4 < 4" using q by (simp_all add: less_mult_imp_div_less)
  have "bit (des_S_out (q div 4) (des_index B (q div 4))) (q mod 4) \<longleftrightarrow> ref_sboxes x ! (4 * (q div 4) + q mod 4)"
    unfolding ref_sboxes_nth [OF t] des_S_out_ref [OF t(2)] six_rep_index(3) [OF assms(1) t(1)] by (rule refl)
  moreover have "des_ExpandTr ! i - 1 < 32" using table_bounds(1) [OF i] by linarith
  then have "ref_E (map (\<lambda>i. ref_sboxes x ! (i - 1)) des_P32Tr) ! i = ref_sboxes x ! q"
    by (simp add: ref_E_nth i length_P32Tr q_def des_SPE_perm_nth)
  ultimately show ?thesis using t(1)
    unfolding spe_bit_def Let_def i_def [symmetric] q_def [symmetric] by simp
qed

lemma CRUNCH_ref:
  assumes "des_ready st" and "six_rep kp k" and "half_rep p l" and "half_rep q r"
  shows "\<exists>p'. CRUNCH st (TO_SIX_BIT salt) kp p q = Inr p' \<and> half_rep p' (map2 (\<noteq>) l (ref_f salt k r))"
proof -
  obtain p0 p1 q0 q1 where pq: "p = (p0, p1)" "q = (q0, q1)" by (cases p; cases q)
  define s where "s = (q0 XOR q1) AND TO_SIX_BIT salt"
  define B where "B = cb_of (s XOR q0 XOR cb_i0 kp) (s XOR q1 XOR cb_i1 kp)"
  define x where "x = map2 (\<noteq>) (ref_salt salt (ref_E r)) k"
  have "six_rep (cb_of (s XOR q0) (s XOR q1)) (ref_salt salt (ref_E r))"
    using six_rep_salt [of q0 q1 "ref_E r" salt] assms(4) by (simp add: half_rep_def pq s_def)
  from six_rep_xor [OF this assms(2)] have B: "six_rep B x"
    by (simp add: B_def x_def cb_of_xor xor.assoc)
  obtain p0' p1' where p': "res_fold (DOXOR st B) [0..<8] (p0, p1) = Inr (p0', p1')"
    and bits: "\<forall>a < 4. \<forall>m < 8. (bit p0' (8 * a + m) \<longleftrightarrow> bit p0 (8 * a + m) \<noteq> spe_bit B {..<8} a m) \<and>
       (bit p1' (8 * a + m) \<longleftrightarrow> bit p1 (8 * a + m) \<noteq> spe_bit B {..<8} (a + 4) m)"
    using DOXORs_eq [OF assms(1) B, of "[0..<8]" p0 p1] by (auto simp: atLeast_upt [symmetric] lessThan_atLeast0)
  define f where "f = ref_f salt k r"
  have f: "f = map (\<lambda>i. ref_sboxes x ! (i - 1)) des_P32Tr" by (simp add: f_def ref_f_def x_def Let_def)
  have l: "length l = 32" "six_rep (cb_of p0 p1) (ref_E l)" using assms(3) by (simp_all add: half_rep_def pq)
  have "six_rep (cb_of p0' p1') (map2 (\<noteq>) (ref_E l) (ref_E f))"
    unfolding six_rep_def
  proof (intro conjI allI impI)
    fix g m :: nat assume gm: "g < 8" "m < 8"
    have i: "6 * g + (m - 2) < 48" using gm by linarith
    have "bit (cb_of p0' p1') (8 * g + m) \<longleftrightarrow> bit (cb_of p0 p1) (8 * g + m) \<noteq> spe_bit B {..<8} g m"
    proof (cases "g < 4")
      case True
      with gm bits show ?thesis by (simp add: bit_cb_of)
    next
      case False
      then obtain a where a: "g = a + 4" "a < 4" using gm(1) by (metis add.commute add_less_cancel_right le_add_diff_inverse not_less numeral_Bit0)
      then have "8 * a + m < 32" using gm(2) by simp
      moreover have "8 * (a + 4) + m = 32 + (8 * a + m)" by simp
      ultimately show ?thesis using a(2) gm bits unfolding a(1) by (simp add: bit_cb_of)
    qed
    then show "bit (cb_of p0' p1') (8 * g + m) \<longleftrightarrow> 2 \<le> m \<and> map2 (\<noteq>) (ref_E l) (ref_E f) ! (6 * g + (m - 2))"
      unfolding spe_bit_ref [OF B gm] six_repD [OF l(2) gm] f [symmetric] using i by auto
  qed simp
  then have "half_rep (p0', p1') (map2 (\<noteq>) l f)"
    unfolding half_rep_def fst_conv snd_conv ref_E_xor [OF l(1) length_ref_f [of salt k r, folded f_def]]
    using l(1) length_ref_f [of salt k r] by (simp add: f_def)
  moreover have "CRUNCH st (TO_SIX_BIT salt) kp p q = Inr (p0', p1')"
    unfolding CRUNCH_def pq split_conv Let_def s_def [symmetric] B_def [symmetric] by (rule p')
  ultimately show ?thesis by (auto simp: f_def)
qed
subsection \<open>Sixteen rounds, again and again\<close>

lemma des_rounds_ref:
  assumes "des_ready st"
  shows "list_all2 six_rep ks keys \<Longrightarrow> even (length ks) \<Longrightarrow> half_rep L l \<Longrightarrow> half_rep R r \<Longrightarrow>
    \<exists>L' R' l' r'. des_rounds st (TO_SIX_BIT salt) ks L R = Inr (L', R') \<and>
      fold (ref_round salt) keys (l, r) = (l', r') \<and> half_rep L' l' \<and> half_rep R' r'"
proof (induction ks arbitrary: keys L R l r rule: induct_list012)
  case 1
  then show ?case by simp
next
  case (2 k)
  then show ?case by simp
next
  case (3 k1 k2 ks)
  from "3.prems"(1) obtain y1 y2 ys where keys: "keys = y1 # y2 # ys" "six_rep k1 y1" "six_rep k2 y2" "list_all2 six_rep ks ys"
    by (auto simp: list_all2_Cons1)
  define l1 where "l1 = map2 (\<noteq>) l (ref_f salt y1 r)"
  obtain L1 where L1: "CRUNCH st (TO_SIX_BIT salt) k1 L R = Inr L1" "half_rep L1 l1"
    using CRUNCH_ref [OF assms keys(2) "3.prems"(3,4), of salt] unfolding l1_def by blast
  define r1 where "r1 = map2 (\<noteq>) r (ref_f salt y2 l1)"
  obtain R1 where R1: "CRUNCH st (TO_SIX_BIT salt) k2 R L1 = Inr R1" "half_rep R1 r1"
    using CRUNCH_ref [OF assms keys(3) "3.prems"(4) L1(2), of salt] unfolding r1_def by blast
  have ev: "even (length ks)" using "3.prems"(2) by simp
  obtain L' R' l' r' where IH: "des_rounds st (TO_SIX_BIT salt) ks L1 R1 = Inr (L', R')"
    "fold (ref_round salt) ys (l1, r1) = (l', r')" "half_rep L' l'" "half_rep R' r'"
    using "3.IH"(1) [OF keys(4) ev L1(2) R1(2)] by blast
  have "fold (ref_round salt) keys (l, r) = (l', r')"
    unfolding keys(1) fold_simps ref_round.simps l1_def [symmetric] r1_def [symmetric] by (rule IH(2))
  moreover have "des_rounds st (TO_SIX_BIT salt) (k1 # k2 # ks) L R = Inr (L', R')"
    using L1(1) R1(1) IH(1) by simp
  ultimately show ?case using IH(3,4) by blast
qed

lemma des_swap_eq: "des_swap (L, R) = (R, L)"
proof -
  have "b XOR (a XOR b) = a" "(a XOR b) XOR a = b" for a b :: "32 word"
    by (auto intro!: bit_word_eqI simp: bit_xor_iff)
  then show ?thesis by (cases L; cases R) (simp add: des_swap_def Let_def)
qed

lemma des_iterate_ref:
  assumes "des_ready st" and "list_all2 six_rep ks (map (ref_key key) [0..<16])" and "half_rep L l" and "half_rep R r"
  shows "\<exists>L' R' l' r'. des_iterate st (TO_SIX_BIT salt) ks n (L, R) = Inr (L', R') \<and>
    (ref_sixteen salt key ^^ n) (l, r) = (l', r') \<and> half_rep L' l' \<and> half_rep R' r'"
  using assms(3,4)
proof (induction n arbitrary: L R l r)
  case 0
  then show ?case by auto
next
  case (Suc n)
  have "even (length ks)" using list_all2_lengthD [OF assms(2)] by simp
  from des_rounds_ref [OF assms(1,2) this Suc.prems] obtain L1 R1 l1 r1 where
    1: "des_rounds st (TO_SIX_BIT salt) ks L R = Inr (L1, R1)" "half_rep L1 l1" "half_rep R1 r1"
    and f: "fold (ref_round salt) (map (ref_key key) [0..<16]) (l, r) = (l1, r1)" by blast
  from Suc.IH [OF 1(3,2)] obtain L' R' l' r' where 2: "des_iterate st (TO_SIX_BIT salt) ks n (R1, L1) = Inr (L', R')"
    "(ref_sixteen salt key ^^ n) (r1, l1) = (l', r')" "half_rep L' l'" "half_rep R' r'" by blast
  have "ref_sixteen salt key (l, r) = (r1, l1)" using f by (simp add: ref_sixteen_def fold_map comp_def del: upt_Suc)
  then have "(ref_sixteen salt key ^^ Suc n) (l, r) = (l', r')" using 2(2) by (simp add: funpow_swap1)
  moreover have "des_iterate st (TO_SIX_BIT salt) ks (Suc n) (L, R) = Inr (L', R')"
    using 1(1) 2(1) by (simp add: des_swap_eq)
  ultimately show ?case using 2(3,4) by blast
qed

subsection \<open>Loading and storing a block\<close>

lemma des_flip_pos: "0 < n \<Longrightarrow> n \<le> 64 \<Longrightarrow> des_flip n - 1 = std_pos n"
proof -
  have "\<forall>n \<in> set [1..<65]. des_flip n - 1 = std_pos n" by code_simp
  then show "0 < n \<Longrightarrow> n \<le> 64 \<Longrightarrow> des_flip n - 1 = std_pos n" by auto
qed
lemma bit_alternating:
  assumes "q < 32"
  shows "bit (0x55555555 :: 32 word) q \<longleftrightarrow> even q" "bit (0xaaaaaaaa :: 32 word) q \<longleftrightarrow> odd q"
proof -
  have "\<forall>q \<in> set [0..<32]. (bit (0x55555555 :: 32 word) q \<longleftrightarrow> even q) \<and> (bit (0xaaaaaaaa :: 32 word) q \<longleftrightarrow> odd q)" by code_simp
  with assms show "bit (0x55555555 :: 32 word) q \<longleftrightarrow> even q" "bit (0xaaaaaaaa :: 32 word) q \<longleftrightarrow> odd q" by simp_all
qed

text \<open>The even-numbered and the odd-numbered bits of the input, as the code gathers them.\<close>

lemma des_gather:
  assumes "q < 32"
  shows "bit (push_bit 1 (cb_i0 B AND 0x55555555) OR (cb_i1 B AND 0x55555555)) q \<longleftrightarrow> (if odd q then bit B (q - 1) else bit B (32 + q))"
    "bit ((cb_i0 B AND 0xaaaaaaaa) OR (signed_drop_bit 1 (cb_i1 B) AND 0x55555555)) q \<longleftrightarrow> (if odd q then bit B q else bit B (33 + q))"
proof -
  show "bit (push_bit 1 (cb_i0 B AND 0x55555555) OR (cb_i1 B AND 0x55555555)) q \<longleftrightarrow> (if odd q then bit B (q - 1) else bit B (32 + q))"
  proof (cases "q = 0")
    case True
    then show ?thesis using bit_alternating(1) [of 0] by (simp only: bit_or_iff bit_and_iff bit_push_bit_iff bit_cb_i1) simp
  next
    case False
    then show ?thesis using assms bit_alternating(1) [OF assms] bit_alternating(1) [of "q - 1"]
      by (simp only: bit_or_iff bit_and_iff bit_push_bit_iff bit_cb_i1 bit_cb_i0) auto
  qed
  show "bit ((cb_i0 B AND 0xaaaaaaaa) OR (signed_drop_bit 1 (cb_i1 B) AND 0x55555555)) q \<longleftrightarrow> (if odd q then bit B q else bit B (33 + q))"
  proof (cases "odd q")
    case True
    then show ?thesis using assms bit_alternating [OF assms] by (simp only: bit_or_iff bit_and_iff bit_cb_i0) simp
  next
    case False
    then have "q \<noteq> 31" by auto
    with assms have "q < 31" by simp
    with False show ?thesis using assms bit_alternating [OF assms]
      by (simp only: bit_or_iff bit_and_iff bit_cb_i0 bit_signed_drop_bit_iff bit_cb_i1) simp
  qed
qed

definition IE_index :: "nat \<Rightarrow> nat" where
  "IE_index r = (let n = des_IP ! r in des_flip (if n > 32 then n - 32 else if n > 0 then n - 1 else n))"

lemma des_IE_perm_nth:
  assumes "g < 8" and "m < 8"
  shows "des_IE_perm ! (8 * g + m) = (if m < 2 then 0 else IE_index (des_ExpandTr ! (6 * g + (m - 2)) - 1))"
proof -
  have f0: "des_flip 0 = 0" by (simp add: des_flip_def)
  have "g * 6 + m - 2 = 6 * g + (m - 2)" if "\<not> m < 2" using that by simp
  then show ?thesis
    unfolding des_IE_perm_def nth_concat_map [OF assms] Let_def IE_index_def
    by (cases "m < 2") (simp_all only: f0 if_True if_False not_less_zero not_False_eq_True HOL.simp_thms)
qed

lemma IE_index:
  assumes "r < 32"
  shows "0 < IE_index r" "IE_index r \<le> 32"
    "(if odd (IE_index r - 1) then IE_index r - 1 - 1 else 32 + (IE_index r - 1)) = std_pos (des_IP ! r)"
    "(if odd (IE_index r - 1) then IE_index r - 1 else 33 + (IE_index r - 1)) = std_pos (des_IP ! (32 + r))"
proof -
  have "\<forall>r \<in> set [0..<32]. 0 < IE_index r \<and> IE_index r \<le> 32 \<and>
      (if odd (IE_index r - 1) then IE_index r - 1 - 1 else 32 + (IE_index r - 1)) = std_pos (des_IP ! r) \<and>
      (if odd (IE_index r - 1) then IE_index r - 1 else 33 + (IE_index r - 1)) = std_pos (des_IP ! (32 + r))" by code_simp
  moreover have "r \<in> set [0..<32]" using assms by simp
  ultimately show "0 < IE_index r" "IE_index r \<le> 32"
    "(if odd (IE_index r - 1) then IE_index r - 1 - 1 else 32 + (IE_index r - 1)) = std_pos (des_IP ! r)"
    "(if odd (IE_index r - 1) then IE_index r - 1 else 33 + (IE_index r - 1)) = std_pos (des_IP ! (32 + r))"
    by blast+
qed

lemma permute_block:
  assumes "\<forall>k < 64. p ! k \<le> 8 * c" and "k < 64"
  shows "bit (permute (map (cb_b W) [a..<a + c]) (init_perm p 8 (des_blank (2 * c)))) k \<longleftrightarrow> p ! k \<noteq> 0 \<and> bit W (8 * a + (p ! k - 1))"
proof (cases "p ! k = 0")
  case True
  then show ?thesis using permute_table [of "map (cb_b W) [a..<a + c]" c p k] assms by simp
next
  case False
  define q where "q = p ! k - 1"
  have "p ! k \<le> 8 * c" using assms by simp
  with False have "q div 8 < c" by (simp add: q_def div_less_iff_less_mult)
  then have "bit (map (cb_b W) [a..<a + c] ! (q div 8)) (q mod 8) \<longleftrightarrow> bit W (8 * (a + q div 8) + q mod 8)"
    by (simp add: bit_cb_b)
  moreover have "8 * (a + q div 8) + q mod 8 = 8 * a + q" by simp
  ultimately show ?thesis using permute_table [of "map (cb_b W) [a..<a + c]" c p k] assms False by (simp add: q_def)
qed

lemma div_mod_8: "k < 64 \<Longrightarrow> \<exists>g m. k = 8 * g + m \<and> g < 8 \<and> m < (8 :: nat)"
  by (intro exI [of _ "k div 8"] exI [of _ "k mod 8"]) auto

lemma ExpandTr_less: "i < 48 \<Longrightarrow> des_ExpandTr ! i - 1 < 32"
  using table_bounds(1) [of i] by linarith

lemma six_index: "g < 8 \<Longrightarrow> m < 8 \<Longrightarrow> 6 * g + (m - 2) < (48 :: nat)"
  by linarith

lemma des_IE_perm_le: "\<forall>k < 64. des_IE_perm ! k \<le> 8 * 4"
proof (intro allI impI)
  fix k :: nat assume "k < 64"
  then obtain g m where k: "k = 8 * g + m" "g < 8" "m < 8" using div_mod_8 by blast
  define x where "x = IE_index (des_ExpandTr ! (6 * g + (m - 2)) - 1)"
  have "x \<le> 32" unfolding x_def by (intro IE_index(2) ExpandTr_less six_index k)
  then show "des_IE_perm ! k \<le> 8 * 4" unfolding k(1) des_IE_perm_nth [OF k(2,3)] x_def [symmetric] by simp
qed

text \<open>
  One half, from a block \<open>W\<close> whose bits, taken in the order of \<^verbatim>\<open>IE3264\<close> from byte \<open>a\<close> on, are those of the
  initial permutation from \<open>o\<close> on.
\<close>

lemma des_load_half:
  assumes "des_ready st" and "\<And>r. r < 32 \<Longrightarrow> bit W (8 * a + (IE_index r - 1)) \<longleftrightarrow> std_bit B (des_IP ! (off + r))"
  shows "six_rep (permute (map (cb_b W) [a..<a + 4]) (IE3264 st)) (ref_E (map (\<lambda>i. std_bit B (des_IP ! (off + i))) [0..<32]))"
  unfolding six_rep_def
proof (intro conjI allI impI)
  fix g m :: nat assume gm: "g < 8" "m < 8"
  note i = six_index [OF gm]
  define r where "r = des_ExpandTr ! (6 * g + (m - 2)) - 1"
  have r: "r < 32" unfolding r_def by (rule ExpandTr_less [OF i])
  have k: "8 * g + m < 64" using gm by simp
  have "ref_E (map (\<lambda>i. std_bit B (des_IP ! (off + i))) [0..<32]) ! (6 * g + (m - 2)) = std_bit B (des_IP ! (off + r))"
    unfolding ref_E_nth [OF i] r_def [symmetric] using r by simp
  moreover have "bit (permute (map (cb_b W) [a..<a + 4]) (IE3264 st)) (8 * g + m) \<longleftrightarrow> 2 \<le> m \<and> bit W (8 * a + (IE_index r - 1))"
    using permute_block [OF des_IE_perm_le k, of W a] IE_index(1) [OF r]
    unfolding des_ready_tables(6) [OF assms(1)] des_IE_perm_nth [OF gm] r_def [symmetric] by (cases "m < 2") simp_all
  ultimately show "bit (permute (map (cb_b W) [a..<a + 4]) (IE3264 st)) (8 * g + m) \<longleftrightarrow>
      2 \<le> m \<and> ref_E (map (\<lambda>i. std_bit B (des_IP ! (off + i))) [0..<32]) ! (6 * g + (m - 2))"
    using assms(2) [OF r] by simp
qed simp

lemma des_load_ref:
  assumes "des_ready st"
  shows "\<exists>L R. des_load st B = (L, R) \<and> half_rep L (fst (ref_IP B)) \<and> half_rep R (snd (ref_IP B))"
proof -
  define E0 where "E0 = push_bit 1 (cb_i0 B AND 0x55555555) OR (cb_i1 B AND 0x55555555)"
  define O0 where "O0 = (cb_i0 B AND 0xaaaaaaaa) OR (signed_drop_bit 1 (cb_i1 B) AND 0x55555555)"
  define W where "W = cb_of E0 O0"
  define L where "L = permute (map (cb_b W) [0..<4]) (IE3264 st)"
  define R where "R = permute (map (cb_b W) [4..<8]) (IE3264 st)"
  have load: "des_load st B = ((cb_i0 L, cb_i1 L), (cb_i0 R, cb_i1 R))"
    unfolding des_load_def Let_def E0_def [symmetric] O0_def [symmetric] W_def [symmetric] L_def [symmetric] R_def [symmetric] by (rule refl)
  have k: "IE_index r - 1 < 32" if "r < 32" for r using IE_index(1,2) [OF that] by linarith
  have E0: "bit E0 q \<longleftrightarrow> bit B (if odd q then q - 1 else 32 + q)" if "q < 32" for q
    unfolding E0_def des_gather(1) [OF that] by (cases "odd q") simp_all
  have O0: "bit O0 q \<longleftrightarrow> bit B (if odd q then q else 33 + q)" if "q < 32" for q
    unfolding O0_def des_gather(2) [OF that] by (cases "odd q") simp_all
  have "bit W (8 * 0 + (IE_index r - 1)) \<longleftrightarrow> std_bit B (des_IP ! (0 + r))" if "r < 32" for r
  proof -
    have "bit W (8 * 0 + (IE_index r - 1)) \<longleftrightarrow> bit E0 (IE_index r - 1)" using k [OF that] by (simp add: W_def bit_cb_of)
    then show ?thesis unfolding E0 [OF k [OF that]] IE_index(3) [OF that] std_bit_def by simp
  qed
  then have L: "six_rep L (ref_E (fst (ref_IP B)))"
    using des_load_half [OF assms, of W 0 B 0] by (simp add: L_def ref_IP_def)
  have "bit W (8 * 4 + (IE_index r - 1)) \<longleftrightarrow> std_bit B (des_IP ! (32 + r))" if "r < 32" for r
  proof -
    have "bit W (8 * 4 + (IE_index r - 1)) \<longleftrightarrow> bit O0 (IE_index r - 1)" using k [OF that] by (simp add: W_def bit_cb_of)
    then show ?thesis unfolding O0 [OF k [OF that]] IE_index(4) [OF that] std_bit_def .
  qed
  then have "six_rep R (ref_E (snd (ref_IP B)))"
    using des_load_half [OF assms, of W 4 B 32] by (simp add: R_def ref_IP_def)
  with L show ?thesis unfolding load by (simp add: half_rep_def) (simp add: ref_IP_def)
qed
lemma bit_nibbles:
  assumes "q < 32"
  shows "bit (0x0f0f0f0f :: 32 word) q \<longleftrightarrow> q mod 8 < 4" "bit (0xf0f0f0f0 :: 32 word) q \<longleftrightarrow> 4 \<le> q mod 8"
    "bit (0x03030303 :: 32 word) q \<longleftrightarrow> q mod 8 < 2"
proof -
  have "\<forall>q \<in> set [0..<32]. (bit (0x0f0f0f0f :: 32 word) q \<longleftrightarrow> q mod 8 < 4) \<and> (bit (0xf0f0f0f0 :: 32 word) q \<longleftrightarrow> 4 \<le> q mod 8)
      \<and> (bit (0x03030303 :: 32 word) q \<longleftrightarrow> q mod 8 < 2)" by code_simp
  moreover have "q \<in> set [0..<32]" using assms by simp
  ultimately show "bit (0x0f0f0f0f :: 32 word) q \<longleftrightarrow> q mod 8 < 4" "bit (0xf0f0f0f0 :: 32 word) q \<longleftrightarrow> 4 \<le> q mod 8"
    "bit (0x03030303 :: 32 word) q \<longleftrightarrow> q mod 8 < 2" by blast+
qed

lemma ExpandTr_middle: "g < 8 \<Longrightarrow> m < 4 \<Longrightarrow> des_ExpandTr ! (6 * g + (m + 1)) - 1 = 4 * g + m"
proof -
  have "\<forall>g \<in> set [0..<8]. \<forall>m \<in> set [0..<4]. des_ExpandTr ! (6 * g + (m + 1)) - 1 = 4 * g + m" by code_simp
  then show "g < 8 \<Longrightarrow> m < 4 \<Longrightarrow> des_ExpandTr ! (6 * g + (m + 1)) - 1 = 4 * g + m" by (metis atLeastLessThan_iff set_upt zero_le)
qed

text \<open>The two outer bits of every group are repeated by the expansion; compression keeps the four in the middle.\<close>

lemma half_rep_middle:
  assumes "half_rep (p0, p1) h" and "g < 8" and "m < 4"
  shows "bit (cb_of p0 p1) (8 * g + (m + 3)) \<longleftrightarrow> h ! (4 * g + m)"
proof -
  have "m + 3 - 2 = m + 1" by simp
  moreover have "6 * g + (m + 1) < 48" using assms(2,3) by linarith
  ultimately show ?thesis
    using six_repD [of "cb_of p0 p1" "ref_E h" g "m + 3"] assms ExpandTr_middle [OF assms(2,3)]
    by (simp only: half_rep_def ref_E_nth fst_conv snd_conv) simp
qed

lemma des_compress:
  assumes "half_rep (p0, p1) h" and "a < 4" and "m < 4"
  defines "c \<equiv> (signed_drop_bit 3 p0 AND 0x0f0f0f0f) OR (push_bit 1 p1 AND 0xf0f0f0f0)"
  shows "bit c (8 * a + m) \<longleftrightarrow> h ! (4 * a + m)" "bit c (8 * a + (m + 4)) \<longleftrightarrow> h ! (16 + (4 * a + m))"
proof -
  have "(8 * a + m) mod 8 = m" "(8 * a + (m + 4)) mod 8 = m + 4" using assms(3) by simp_all
  moreover have "bit (signed_drop_bit 3 p0) (8 * a + m) \<longleftrightarrow> h ! (4 * a + m)"
    using half_rep_middle [OF assms(1), of a m] assms(2,3) by (simp add: bit_signed_drop_bit_iff bit_cb_of ac_simps)
  moreover have "bit (push_bit 1 p1) (8 * a + (m + 4)) \<longleftrightarrow> bit p1 (8 * a + (m + 3))"
    using assms(2,3) by (simp only: bit_push_bit_iff possible_bit_word) (simp add: ac_simps)
  then have "bit (push_bit 1 p1) (8 * a + (m + 4)) \<longleftrightarrow> h ! (16 + (4 * a + m))"
    using half_rep_middle [OF assms(1), of "a + 4" m] assms(2,3) by (simp add: bit_cb_of ac_simps del: push_bit_Suc)
  ultimately show "bit c (8 * a + m) \<longleftrightarrow> h ! (4 * a + m)" "bit c (8 * a + (m + 4)) \<longleftrightarrow> h ! (16 + (4 * a + m))"
    using bit_nibbles [of "8 * a + m"] bit_nibbles [of "8 * a + (m + 4)"] assms(2,3)
    unfolding c_def bit_or_iff bit_and_iff by simp_all
qed

lemma des_CIFP_nth:
  assumes "a < 4" and "m < 4"
  shows "des_CIFP ! (8 * a + m) - 1 = 4 * a + m" "des_CIFP ! (8 * a + (m + 4)) - 1 = 16 + (4 * a + m)"
    "des_CIFP ! (32 + (8 * a + m)) - 1 = 32 + (4 * a + m)" "des_CIFP ! (32 + (8 * a + (m + 4))) - 1 = 48 + (4 * a + m)"
proof -
  have "\<forall>a \<in> set [0..<4]. \<forall>m \<in> set [0..<4]. des_CIFP ! (8 * a + m) - 1 = 4 * a + m \<and> des_CIFP ! (8 * a + (m + 4)) - 1 = 16 + (4 * a + m)
      \<and> des_CIFP ! (32 + (8 * a + m)) - 1 = 32 + (4 * a + m) \<and> des_CIFP ! (32 + (8 * a + (m + 4))) - 1 = 48 + (4 * a + m)" by code_simp
  moreover have "a \<in> set [0..<4]" "m \<in> set [0..<4]" using assms by simp_all
  ultimately show "des_CIFP ! (8 * a + m) - 1 = 4 * a + m" "des_CIFP ! (8 * a + (m + 4)) - 1 = 16 + (4 * a + m)"
    "des_CIFP ! (32 + (8 * a + m)) - 1 = 32 + (4 * a + m)" "des_CIFP ! (32 + (8 * a + (m + 4))) - 1 = 48 + (4 * a + m)" by blast+
qed

lemma des_CF_table:
  "des_CF_perm des_IE_perm = [32, 64, 16, 48, 28, 60, 12, 44, 31, 63, 15, 47, 27, 59, 11, 43, 30, 62,
    14, 46, 26, 58, 10, 42, 29, 61, 13, 45, 25, 57, 9, 41, 24, 56, 8, 40, 20,
    52, 4, 36, 23, 55, 7, 39, 19, 51, 3, 35, 22, 54, 6, 38, 18, 50, 2, 34, 21,
    53, 5, 37, 17, 49, 1, 33]"
  by code_simp

lemma length_takeWhile_nth:
  "distinct (map f xs) \<Longrightarrow> i < length xs \<Longrightarrow> length (takeWhile (\<lambda>x. f x \<noteq> f (xs ! i)) xs) = i"
proof (induction xs arbitrary: i)
  case (Cons x xs)
  then show ?case by (cases i) auto
qed simp

lemma des_IP_positions:
  "map std_pos des_IP = [62, 54, 46, 38, 30, 22, 14, 6, 60, 52, 44, 36, 28, 20, 12, 4, 58, 50, 42, 34, 26, 18, 10, 2,
    56, 48, 40, 32, 24, 16, 8, 0, 63, 55, 47, 39, 31, 23, 15, 7, 61, 53, 45, 37, 29, 21, 13, 5,
    59, 51, 43, 35, 27, 19, 11, 3, 57, 49, 41, 33, 25, 17, 9, 1]"
  by (simp add: des_IP_def std_pos_def)

lemma des_CF_index:
  assumes "k < 64"
  shows "0 < des_CF_perm des_IE_perm ! k" "des_CF_perm des_IE_perm ! k \<le> 64"
    "des_CIFP ! (des_CF_perm des_IE_perm ! k - 1) - 1 = length (takeWhile (\<lambda>n. std_pos n \<noteq> k) des_IP)"
proof -
  have "\<forall>k \<in> set [0..<64]. 0 < des_CF_perm des_IE_perm ! k \<and> des_CF_perm des_IE_perm ! k \<le> 64 \<and>
      des_CIFP ! (des_CF_perm des_IE_perm ! k - 1) - 1 < 64 \<and>
      map std_pos des_IP ! (des_CIFP ! (des_CF_perm des_IE_perm ! k - 1) - 1) = k"
    unfolding des_CF_table des_IP_positions by code_simp
  moreover have "k \<in> set [0..<64]" using assms by simp
  ultimately have *: "0 < des_CF_perm des_IE_perm ! k" "des_CF_perm des_IE_perm ! k \<le> 64"
    "des_CIFP ! (des_CF_perm des_IE_perm ! k - 1) - 1 < 64"
    "map std_pos des_IP ! (des_CIFP ! (des_CF_perm des_IE_perm ! k - 1) - 1) = k" by blast+
  have "length des_IP = 64" by (simp add: des_IP_def)
  moreover have "distinct (map std_pos des_IP)" unfolding des_IP_positions by simp
  ultimately show "des_CIFP ! (des_CF_perm des_IE_perm ! k - 1) - 1 = length (takeWhile (\<lambda>n. std_pos n \<noteq> k) des_IP)"
    using length_takeWhile_nth [of std_pos des_IP "des_CIFP ! (des_CF_perm des_IE_perm ! k - 1) - 1"] *(3,4) by simp
  show "0 < des_CF_perm des_IE_perm ! k" "des_CF_perm des_IE_perm ! k \<le> 64" by (rule *)+
qed

lemma bit_ref_FP:
  "k < 64 \<Longrightarrow> bit (ref_FP lr) k \<longleftrightarrow> (fst lr @ snd lr) ! length (takeWhile (\<lambda>n. std_pos n \<noteq> k) des_IP)"
  by (simp add: ref_FP_def bit_horner_sum_bit_word_iff)

lemma des_store_ref:
  assumes "des_ready st" and "half_rep L l" and "half_rep R r"
  shows "des_store st (L, R) = ref_FP (l, r)"
proof -
  obtain L0 L1 R0 R1 where LR: "L = (L0, L1)" "R = (R0, R1)" by (cases L; cases R)
  define c where "c = (signed_drop_bit 3 L0 AND 0x0f0f0f0f) OR (push_bit 1 L1 AND 0xf0f0f0f0)"
  define d where "d = (signed_drop_bit 3 R0 AND 0x0f0f0f0f) OR (push_bit 1 R1 AND 0xf0f0f0f0)"
  define W where "W = cb_of c d"
  have len: "length l = 32" "length r = 32" using assms(2,3) by (simp_all add: half_rep_def)
  have W: "bit W q \<longleftrightarrow> (l @ r) ! (des_CIFP ! q - 1)" if "q < 64" for q
  proof -
    obtain g k where gk: "q = 8 * g + k" "g < 8" "k < 8" using div_mod_8 [OF \<open>q < 64\<close>] by blast
    define a m where "a = (if g < 4 then g else g - 4)" and "m = (if k < 4 then k else k - 4)"
    have am: "a < 4" "m < 4" using gk(2,3) by (auto simp: a_def m_def)
    have "g = a \<or> g = a + 4" "k = m \<or> k = m + 4" by (auto simp: a_def m_def)
    then have q: "q = 8 * a + m \<or> q = 8 * a + (m + 4) \<or> q = 32 + (8 * a + m) \<or> q = 32 + (8 * a + (m + 4))"
      unfolding gk(1) by auto
    note C = des_CIFP_nth [OF am]
    note c = des_compress [OF assms(2) [unfolded LR] am, folded c_def] des_compress [OF assms(3) [unfolded LR] am, folded d_def]
    show ?thesis using q
      by (elim disjE) (use am c C len in \<open>simp_all add: W_def bit_cb_of nth_append ac_simps\<close>)
  qed
  have "des_store st (L, R) = permute (cb_bytes W) (CF6464 st)"
    unfolding LR des_store_def split_conv Let_def c_def [symmetric] d_def [symmetric] W_def [symmetric] by (rule refl)
  moreover have "permute (cb_bytes W) (CF6464 st) = ref_FP (l, r)"
  proof (rule bit_word_eqI)
    fix k assume "k < LENGTH(64)"
    then have k: "k < 64" by simp
    note ix = des_CF_index [OF k]
    have "\<forall>k < 64. des_CF_perm des_IE_perm ! k \<le> 8 * 8" using des_CF_index(2) by simp
    from permute_block [OF this k, of W 0] ix(1)
    have "bit (permute (cb_bytes W) (CF6464 st)) k \<longleftrightarrow> bit W (des_CF_perm des_IE_perm ! k - 1)"
      unfolding des_ready_tables(7) [OF assms(1)] cb_bytes_def by simp
    moreover have "des_CF_perm des_IE_perm ! k - 1 < 64" using ix(1,2) by linarith
    ultimately show "bit (permute (cb_bytes W) (CF6464 st)) k = bit (ref_FP (l, r)) k"
      unfolding bit_ref_FP [OF k] using W ix(3) by simp
  qed
  ultimately show ?thesis by simp
qed

end
