(* ===== verification/Des_Equiv.thy ===== *)
theory Des_Equiv
  imports Des_Ref
begin

text \<open>
  The key schedule of \<^verbatim>\<open>crypt/crypt_des.c\<close> holds the round keys of the standard, and with it \<^verbatim>\<open>des_cipher\<close> computes the Data Encryption
  Standard; the hashes of \<^verbatim>\<open>crypt_des\<close> follow from that.
\<close>

unbundle bit_operations_syntax

subsection \<open>Round keys\<close>

definition kbits :: "C_block \<Rightarrow> nat \<Rightarrow> bool list" where
  "kbits key s = map (\<lambda>i. std_bit key (des_PC1 ! ref_rotate s (i - 1))) ref_PC2"

definition kw_rep :: "C_block \<Rightarrow> C_block \<Rightarrow> nat \<Rightarrow> bool" where
  "kw_rep K key s \<longleftrightarrow> (\<forall>k < 64. bit K k \<longleftrightarrow> des_PC2 ! k \<noteq> 0 \<and> std_bit key (des_PC1 ! ref_rotate s (des_PC2 ! k - 1)))"

lemma des_PC2_le: "k < 64 \<Longrightarrow> des_PC2 ! k \<le> 56"
proof -
  have "length des_PC2 = 64" "\<forall>v \<in> set des_PC2. v \<le> 56" by (simp_all add: des_PC2_def)
  then show "k < 64 \<Longrightarrow> des_PC2 ! k \<le> 56" by simp
qed

lemma ref_rotate_add: "ref_rotate s (ref_rotate t i) = ref_rotate (s + t) i"
proof (cases "i < 28")
  case True
  have "((i + t) mod 28 + s) mod 28 = (i + t + s) mod 28" by (rule mod_add_left_eq)
  with True show ?thesis by (simp add: ref_rotate_def ac_simps)
next
  case False
  have "((i - 28 + t) mod 28 + s) mod 28 = (i - 28 + t + s) mod 28" by (rule mod_add_left_eq)
  with False show ?thesis by (simp add: ref_rotate_def add.assoc add.commute [of t s])
qed

lemma map_PC2: "map (\<lambda>i. f (des_PC2 ! i)) [0..<64] = map f des_PC2"
proof -
  have "length des_PC2 = 64" by (simp add: des_PC2_def)
  then show ?thesis by (intro nth_equalityI) simp_all
qed

lemma des_PC1_table:
  "des_PC1_perm = [55, 46, 15, 54, 39, 61, 56, 24, 14, 53, 40, 64, 7, 16, 22, 47, 2, 43, 6,
    38, 31, 32, 45, 63, 3, 13, 62, 8, 37, 30, 23, 48, 0, 0, 19, 29, 34, 51,
    36, 5, 0, 0, 42, 27, 4, 52, 18, 28, 0, 0, 60, 20, 35, 58, 10, 21, 0, 0,
    44, 11, 12, 59, 50, 26]"
proof -
  have "des_PC1_perm = map (\<lambda>c. if c = 0 then 0 else (let k = c + des_Rotates ! 0 - 1; k = (if k mod 28 < des_Rotates ! 0 then k - 28 else k)
      in des_flip (des_PC1 ! k))) des_PC2"
    unfolding des_PC1_perm_def by (rule map_PC2)
  note p = this [unfolded des_PC2_def]
  show ?thesis unfolding p by (simp add: des_PC1_def des_flip_def des_Rotates_def)
qed

lemma des_pc2inv_table:
  "des_pc2inv = [7, 32, 11, 22, 8, 14, 28, 24, 1, 16, 5, 21, 31, 3, 13, 27, 4, 2, 20, 30, 15, 9, 19, 6, 10, 23, 29, 12, 63, 43, 37, 64, 47, 55, 17, 62, 38, 18, 53, 44, 35, 60, 25, 51, 46, 59, 39, 48, 52, 61, 45, 36, 56, 26, 40, 54, 0, 0, 0, 0, 0, 0, 0, 0]"
  by code_simp

lemma des_PC2_tables:
  "des_PC2_perm 0 = [16, 20, 13, 2, 21, 10, 32, 14, 19, 23, 22, 7, 27, 28, 9, 5, 62, 53, 6, 30,
    31, 8, 29, 1, 51, 40, 4, 24, 12, 15, 3, 11, 0, 0, 60, 56, 64, 18, 48, 54,
    0, 0, 37, 35, 36, 59, 55, 52, 0, 0, 46, 61, 44, 63, 17, 26, 0, 0, 39, 25,
    45, 38, 43, 47]"
  "des_PC2_perm 1 = [5, 30, 27, 20, 31, 23, 11, 28, 6, 29, 8, 32, 4, 24, 19, 21, 38, 44, 10,
    15, 3, 14, 12, 16, 46, 54, 2, 1, 7, 9, 13, 22, 0, 0, 25, 26, 47, 53, 52,
    63, 0, 0, 64, 60, 56, 39, 17, 61, 0, 0, 59, 45, 35, 43, 62, 40, 0, 0, 48,
    51, 36, 18, 37, 55]"
proof -
  have "des_PC2_perm j = map (\<lambda>c. if c = 0 then 0 else (let k = c + j; k = (if k mod 28 \<le> j then k - 28 else k) in des_pc2inv ! k)) des_PC2" for j
    unfolding des_PC2_perm_def by (rule map_PC2)
  note p = this [unfolded des_PC2_def des_pc2inv_table]
  show "des_PC2_perm 0 = [16, 20, 13, 2, 21, 10, 32, 14, 19, 23, 22, 7, 27, 28, 9, 5, 62, 53, 6, 30,
    31, 8, 29, 1, 51, 40, 4, 24, 12, 15, 3, 11, 0, 0, 60, 56, 64, 18, 48, 54,
    0, 0, 37, 35, 36, 59, 55, 52, 0, 0, 46, 61, 44, 63, 17, 26, 0, 0, 39, 25,
    45, 38, 43, 47]" unfolding p by simp
  show "des_PC2_perm 1 = [5, 30, 27, 20, 31, 23, 11, 28, 6, 29, 8, 32, 4, 24, 19, 21, 38, 44, 10,
    15, 3, 14, 12, 16, 46, 54, 2, 1, 7, 9, 13, 22, 0, 0, 25, 26, 47, 53, 52,
    63, 0, 0, 64, 60, 56, 39, 17, 61, 0, 0, 59, 45, 35, 43, 62, 40, 0, 0, 48,
    51, 36, 18, 37, 55]" unfolding p by simp
qed

lemma PC1_std:
  "des_PC1_perm = map (\<lambda>c. if c = 0 then 0 else std_pos (des_PC1 ! ref_rotate 1 (c - 1)) + 1) des_PC2"
  unfolding des_PC1_table des_PC2_def by (simp add: des_PC1_def std_pos_def ref_rotate_def)

lemma PC2_rotate:
  assumes "j < 2"
  shows "map (\<lambda>p. if p = 0 then 0 else des_PC2 ! (p - 1)) (des_PC2_perm j) =
    map (\<lambda>c. if c = 0 then 0 else ref_rotate (j + 1) (c - 1) + 1) des_PC2"
proof (cases "j = 0")
  case True
  show ?thesis unfolding True des_PC2_tables des_PC2_def by (simp add: ref_rotate_def)
next
  case False
  with assms have j: "j = 1" by simp
  show ?thesis unfolding j des_PC2_tables des_PC2_def by (simp add: ref_rotate_def)
qed

lemma PC2_zero:
  assumes "j < 2"
  shows "map (\<lambda>p. p = 0) (des_PC2_perm j) = map (\<lambda>c. c = 0) des_PC2" "\<forall>p \<in> set (des_PC2_perm j). p \<le> 64"
proof -
  have "j = 0 \<or> j = 1" using assms by auto
  then show "map (\<lambda>p. p = 0) (des_PC2_perm j) = map (\<lambda>c. c = 0) des_PC2" "\<forall>p \<in> set (des_PC2_perm j). p \<le> 64"
    by (elim disjE; simp only: des_PC2_tables des_PC2_def; simp)+
qed

lemma length_PC2: "length des_PC2 = 64" "length des_PC1_perm = 64" "length (des_PC2_perm j) = 64"
  by (simp_all add: des_PC2_def des_PC1_perm_def des_PC2_perm_def)

lemma PC1_index:
  assumes "k < 64"
  shows "des_PC1_perm ! k \<le> 64" "des_PC1_perm ! k = 0 \<longleftrightarrow> des_PC2 ! k = 0"
    "des_PC2 ! k \<noteq> 0 \<Longrightarrow> des_PC1_perm ! k - 1 = std_pos (des_PC1 ! ref_rotate 1 (des_PC2 ! k - 1))"
proof -
  have "\<forall>p \<in> set des_PC1_perm. p \<le> 64" unfolding des_PC1_table by simp
  then show "des_PC1_perm ! k \<le> 64" using assms by (simp add: length_PC2)
  show "des_PC1_perm ! k = 0 \<longleftrightarrow> des_PC2 ! k = 0"
    "des_PC2 ! k \<noteq> 0 \<Longrightarrow> des_PC1_perm ! k - 1 = std_pos (des_PC1 ! ref_rotate 1 (des_PC2 ! k - 1))"
    using assms unfolding PC1_std by (simp_all add: length_PC2)
qed

lemma PC2_index:
  assumes "k < 64" and "j < 2"
  shows "des_PC2_perm j ! k \<le> 64" "des_PC2_perm j ! k = 0 \<longleftrightarrow> des_PC2 ! k = 0"
    "des_PC2 ! k \<noteq> 0 \<Longrightarrow> des_PC2 ! (des_PC2_perm j ! k - 1) = ref_rotate (j + 1) (des_PC2 ! k - 1) + 1"
proof -
  show "des_PC2_perm j ! k \<le> 64" using PC2_zero(2) [OF assms(2)] assms(1) by (simp add: length_PC2)
  show zero: "des_PC2_perm j ! k = 0 \<longleftrightarrow> des_PC2 ! k = 0"
    using arg_cong [OF PC2_zero(1) [OF assms(2)], of "\<lambda>xs. xs ! k"] assms(1) by (simp add: length_PC2)
  show "des_PC2 ! (des_PC2_perm j ! k - 1) = ref_rotate (j + 1) (des_PC2 ! k - 1) + 1" if "des_PC2 ! k \<noteq> 0"
    using arg_cong [OF PC2_rotate [OF assms(2)], of "\<lambda>xs. xs ! k"] assms(1) that zero by (simp add: length_PC2)
qed

lemma kw_rep_first:
  assumes "des_ready st" and "length key = 8"
  shows "kw_rep (permute key (PC1ROT st)) (load_le key) 1"
  unfolding kw_rep_def
proof (intro allI impI)
  fix k :: nat assume k: "k < 64"
  have "\<forall>k < 64. des_PC1_perm ! k \<le> 8 * 8" using PC1_index(1) by simp
  from permute_table [OF assms(2) this k]
  have p: "bit (permute key (PC1ROT st)) k \<longleftrightarrow>
      des_PC1_perm ! k \<noteq> 0 \<and> bit (key ! ((des_PC1_perm ! k - 1) div 8)) ((des_PC1_perm ! k - 1) mod 8)"
    unfolding des_ready_tables(3) [OF assms(1)] by simp
  show "bit (permute key (PC1ROT st)) k \<longleftrightarrow>
      des_PC2 ! k \<noteq> 0 \<and> std_bit (load_le key) (des_PC1 ! ref_rotate 1 (des_PC2 ! k - 1))"
  proof (cases "des_PC2 ! k = 0")
    case True
    then show ?thesis using p PC1_index(2) [OF k] by simp
  next
    case False
    define q where "q = des_PC1_perm ! k - 1"
    have q: "q < 64" using PC1_index(1,2) [OF k] False by (simp add: q_def)
    have "bit (load_le key :: C_block) q \<longleftrightarrow> bit (key ! (q div 8)) (q mod 8)"
      using q assms(2) by (simp add: bit_load_le less_mult_imp_div_less)
    then show ?thesis using p False PC1_index(2,3) [OF k] by (simp add: std_bit_def q_def)
  qed
qed

lemma kw_rep_next:
  assumes "kw_rep K key s" and "j < 2"
  shows "kw_rep (permute (cb_bytes K) (init_perm (des_PC2_perm j) 8 (des_blank 16))) key (s + (j + 1))"
  unfolding kw_rep_def
proof (intro allI impI)
  fix k :: nat assume k: "k < 64"
  have "\<forall>k < 64. des_PC2_perm j ! k \<le> 8 * 8" using PC2_index(1) [OF _ assms(2)] by simp
  from permute_block [OF this k, of K 0]
  have p: "bit (permute (cb_bytes K) (init_perm (des_PC2_perm j) 8 (des_blank 16))) k \<longleftrightarrow>
      des_PC2_perm j ! k \<noteq> 0 \<and> bit K (des_PC2_perm j ! k - 1)" by (simp add: cb_bytes_def)
  show "bit (permute (cb_bytes K) (init_perm (des_PC2_perm j) 8 (des_blank 16))) k \<longleftrightarrow>
      des_PC2 ! k \<noteq> 0 \<and> std_bit key (des_PC1 ! ref_rotate (s + (j + 1)) (des_PC2 ! k - 1))"
  proof (cases "des_PC2 ! k = 0")
    case True
    then show ?thesis using p PC2_index(2) [OF k assms(2)] by simp
  next
    case False
    have q: "des_PC2_perm j ! k - 1 < 64" using PC2_index(1,2) [OF k assms(2)] False by simp
    have "bit K (des_PC2_perm j ! k - 1) \<longleftrightarrow> std_bit key (des_PC1 ! ref_rotate s (ref_rotate (j + 1) (des_PC2 ! k - 1)))"
      using assms(1) q PC2_index(3) [OF k assms(2) False] by (simp add: kw_rep_def)
    then show ?thesis using p False PC2_index(2) [OF k assms(2)] by (simp add: ref_rotate_add)
  qed
qed

lemma ref_PC2_nth:
  assumes "g < 8" and "2 \<le> m" and "m < 8"
  shows "ref_PC2 ! (6 * g + (m - 2)) = des_PC2 ! (8 * g + m)"
proof -
  define n where "n = m - 2"
  have n: "m = n + 2" "n < 6" using assms by (simp_all add: n_def)
  have "6 * g + n < 48" "(6 * g + n) div 6 = g" "(6 * g + n) mod 6 = n" using assms n by simp_all
  then show ?thesis using n by (simp add: ref_PC2_def)
qed

lemma des_PC2_zero:
  assumes "g < 8" and "m < 8"
  shows "2 \<le> m \<Longrightarrow> des_PC2 ! (8 * g + m) \<noteq> 0" "4 \<le> g \<Longrightarrow> m < 2 \<Longrightarrow> des_PC2 ! (8 * g + m) = 0"
proof -
  have "\<forall>g \<in> set [0..<8]. \<forall>m \<in> set [0..<8]. (2 \<le> m \<longrightarrow> des_PC2 ! (8 * g + m) \<noteq> 0) \<and> (4 \<le> g \<longrightarrow> m < 2 \<longrightarrow> des_PC2 ! (8 * g + m) = 0)"
    by code_simp
  moreover have "g \<in> set [0..<8]" "m \<in> set [0..<8]" using assms by simp_all
  ultimately show "2 \<le> m \<Longrightarrow> des_PC2 ! (8 * g + m) \<noteq> 0" "4 \<le> g \<Longrightarrow> m < 2 \<Longrightarrow> des_PC2 ! (8 * g + m) = 0" by blast+
qed

lemma kw_rep_mask:
  assumes "kw_rep K key s"
  shows "six_rep (des_mask K) (kbits key s)"
  unfolding six_rep_def
proof (intro conjI allI impI)
  show "length (kbits key s) = 48" by (simp add: kbits_def ref_PC2_def)
  fix g m :: nat assume gm: "g < 8" "m < 8"
  have k: "8 * g + m < 64" using gm by linarith
  have mask: "bit (des_mask K) (8 * g + m) \<longleftrightarrow> bit K (8 * g + m) \<and> (4 \<le> g \<or> 2 \<le> m)"
  proof (cases "g < 4")
    case True
    then have "8 * g + m < 32" "(8 * g + m) mod 8 = m" using gm by simp_all
    moreover have "bit (NOT 0x03030303 :: 32 word) (8 * g + m) \<longleftrightarrow> \<not> m < 2"
      using calculation bit_nibbles(3) [of "8 * g + m"] by (simp only: bit_not_iff) simp
    ultimately show ?thesis using True
      by (simp only: des_mask_def bit_cb_of bit_and_iff bit_cb_i0 if_True) auto
  next
    case False
    then have "32 \<le> 8 * g + m" "8 * g + m - 32 < 32" using k by linarith+
    with k False show ?thesis by (simp add: des_mask_def bit_cb_of bit_cb_i1)
  qed
  have K: "bit K (8 * g + m) \<longleftrightarrow> des_PC2 ! (8 * g + m) \<noteq> 0 \<and> std_bit key (des_PC1 ! ref_rotate s (des_PC2 ! (8 * g + m) - 1))"
    using assms k by (simp add: kw_rep_def)
  show "bit (des_mask K) (8 * g + m) \<longleftrightarrow> 2 \<le> m \<and> kbits key s ! (6 * g + (m - 2))"
  proof (cases "2 \<le> m")
    case True
    have "6 * g + (m - 2) < length ref_PC2" using six_index [OF gm] by (simp add: ref_PC2_def)
    then have "kbits key s ! (6 * g + (m - 2)) = std_bit key (des_PC1 ! ref_rotate s (des_PC2 ! (8 * g + m) - 1))"
      by (simp add: kbits_def ref_PC2_nth [OF gm(1) True gm(2)])
    then show ?thesis using True mask K des_PC2_zero(1) [OF gm True] by simp
  next
    case False
    then show ?thesis using mask K des_PC2_zero(2) [OF gm] by auto
  qed
qed

subsection \<open>The key schedule\<close>

primrec key_shifts :: "nat \<Rightarrow> nat list \<Rightarrow> nat list" where
  "key_shifts s [] = []"
| "key_shifts s (r # rs) = (s + r) # key_shifts (s + r) rs"

lemma key_shifts_Rotates: "1 # key_shifts 1 (tl des_Rotates) = map ref_shift [0..<16]"
  by (simp add: des_Rotates_def ref_shift_def upt_rec)

lemma ref_key_kbits: "ref_key key = (\<lambda>r. kbits key (ref_shift r))"
  by (rule ext) (simp add: ref_key_def kbits_def)

lemma des_schedule_ref:
  assumes "des_ready st" and "kw_rep K key s" and "\<forall>r \<in> set rs. r = 1 \<or> r = 2"
  shows "list_all2 six_rep (des_schedule st rs K) (map (kbits key) (key_shifts s rs))"
  using assms(2,3)
proof (induction rs arbitrary: K s)
  case Nil
  then show ?case by simp
next
  case (Cons r rs)
  define K' where "K' = permute (cb_bytes K) (if r = 1 then PC2ROT0 st else PC2ROT1 st)"
  have "kw_rep K' key (s + r)"
  proof (cases "r = 1")
    case True
    then show ?thesis using kw_rep_next [OF Cons.prems(1), of 0] des_ready_tables(4) [OF assms(1)] by (simp add: K'_def)
  next
    case False
    with Cons.prems(2) have "r = 2" by simp
    then show ?thesis using kw_rep_next [OF Cons.prems(1), of 1] des_ready_tables(5) [OF assms(1)] by (simp add: K'_def)
  qed
  then show ?case using Cons.IH [of K' "s + r"] Cons.prems(2) kw_rep_mask by (simp add: Let_def K'_def)
qed

lemma des_setkey_ref:
  assumes "des_ready st" and "length key = 8"
  shows "list_all2 six_rep (KS (des_setkey key st)) (map (ref_key (load_le key)) [0..<16])"
proof -
  define K where "K = permute key (PC1ROT st)"
  have K: "kw_rep K (load_le key) 1"
    using kw_rep_first [OF assms] by (simp add: K_def)
  have "\<forall>r \<in> set (tl des_Rotates). r = 1 \<or> r = 2" by (simp add: des_Rotates_def)
  from des_schedule_ref [OF assms(1) K this] kw_rep_mask [OF K]
  have "list_all2 six_rep (des_mask K # des_schedule st (tl des_Rotates) K)
      (map (kbits (load_le key)) (1 # key_shifts 1 (tl des_Rotates)))" by simp
  then show ?thesis
    unfolding key_shifts_Rotates by (simp add: des_setkey_def Let_def K_def ref_key_kbits comp_def)
qed

text \<open>
  The routine of the repository, with its byte tables, its key schedule and its halves of six bits to
  a byte, is the Data Encryption Standard with the salt applied to the expanded half, iterated.
\<close>

lemma des_cipher_ref:
  assumes "des_ready st" and "length key = 8"
  shows "des_cipher (des_setkey key st) B salt (int n) = Inr (ref_des (load_le key) salt n B)"
proof -
  define st' where "st' = des_setkey key st"
  have ready: "des_ready st'" using des_ready_setkey [OF assms(1)] by (simp add: st'_def)
  obtain L R where load: "des_load st' B = (L, R)" "half_rep L (fst (ref_IP B))" "half_rep R (snd (ref_IP B))"
    using des_load_ref [OF ready] by blast
  obtain L' R' l' r' where it: "des_iterate st' (TO_SIX_BIT salt) (KS st') n (L, R) = Inr (L', R')"
      "(ref_sixteen salt (load_le key) ^^ n) (ref_IP B) = (l', r')" "half_rep L' l'" "half_rep R' r'"
    using des_iterate_ref [OF ready des_setkey_ref [OF assms, folded st'_def] load(2,3), of salt n] by auto
  show ?thesis unfolding des_cipher_def ref_des_def
    using load(1) it des_store_ref [OF ready it(3,4)] by (simp add: st'_def [symmetric])
qed

subsection \<open>Keys of \<^verbatim>\<open>crypt_des\<close>\<close>

definition des_key_bytes :: "string \<Rightarrow> byte list" where
  "des_key_bytes key = map (\<lambda>c. 2 * byte_of_char c) (take 8 key) @ replicate (8 - length key) 0"

lemma des_read_key_eq:
  "fst (des_read_key n key) = map (\<lambda>c. 2 * byte_of_char c) (take n key) @ replicate (n - length key) 0"
  by (induction n key rule: des_read_key.induct) (auto split: prod.splits)

lemma length_des_key_bytes [simp]: "length (des_key_bytes key) = 8"
  by (simp add: des_key_bytes_def)

lemma des_read_key_8: "des_read_key 8 key = (des_key_bytes key, drop 8 key)"
  by (rule prod_eqI) (simp_all add: des_read_key_eq des_key_bytes_def des_read_key_rest)

text \<open>The key of a long password: each further group of 8 characters is added to the encryption of what precedes it.\<close>

function des_long_bytes :: "byte list \<Rightarrow> string \<Rightarrow> byte list" where
  "des_long_bytes kb key =
     (if key = [] then kb
      else des_long_bytes (map2 (XOR) (cb_bytes (ref_des (load_le kb) 0 1 (load_le kb))) (des_key_bytes key)) (drop 8 key))"
  by pat_completeness auto
termination by (relation "measure (\<lambda>(kb, key). length key)") auto

declare des_long_bytes.simps [simp del]

lemma length_des_long_bytes: "length kb = 8 \<Longrightarrow> length (des_long_bytes kb key) = 8"
proof (induction kb key rule: des_long_bytes.induct)
  case (1 kb key)
  then show ?case by (subst des_long_bytes.simps) simp
qed

lemma des_setkey_again: "des_setkey k' (des_setkey k st) = des_setkey k' st"
proof -
  have "des_schedule (des_setkey k st) rs K = des_schedule st rs K" for rs K
    by (induction rs arbitrary: K) (simp_all add: des_setkey_def Let_def)
  then show ?thesis by (cases st) (simp add: des_setkey_def Let_def)
qed

lemma des_long_key_eq:
  assumes "length kb = 8"
  shows "des_long_key kb key (des_setkey kb init_des) = Inr (des_setkey (des_long_bytes kb key) init_des)"
  using assms
proof (induction kb key rule: des_long_bytes.induct)
  case (1 kb key)
  show ?case
  proof (cases "key = []")
    case True
    then show ?thesis by (simp add: des_long_key.simps [of kb] des_long_bytes.simps [of kb])
  next
    case False
    define kb' where "kb' = map2 (XOR) (cb_bytes (ref_des (load_le kb) 0 1 (load_le kb))) (des_key_bytes key)"
    have c: "des_cipher (des_setkey kb init_des) (load_le kb) 0 1 = Inr (ref_des (load_le kb) 0 1 (load_le kb))"
      using des_cipher_ref [OF des_ready_init "1.prems", of _ _ 1] by simp
    have "length kb' = 8" by (simp add: kb'_def)
    from "1.IH" [OF False, folded kb'_def, OF this]
    have "des_long_key kb' (drop 8 key) (des_setkey kb' init_des) = Inr (des_setkey (des_long_bytes kb' (drop 8 key)) init_des)" .
    then show ?thesis
      using False c by (simp add: des_long_key.simps [of kb] des_long_bytes.simps [of kb] des_read_key_8 kb'_def Let_def des_setkey_again)
  qed
qed

subsection \<open>Counts and salts\<close>

definition des_number :: "string \<Rightarrow> 32 word" where
  "des_number cs = foldr (\<lambda>c v. push_bit 6 v OR word_of_nat (ascii_to_bin c)) cs 0"

definition des_canonical :: "char \<Rightarrow> bool" where
  "des_canonical c \<longleftrightarrow> itoa64 ! ascii_to_bin c = c"

lemma des_digits_eq:
  assumes "n \<le> length s" and "encp + n \<le> length out" and "strict \<longrightarrow> list_all des_canonical (take n s)"
  shows "des_digits strict s encp (rev [0..<n]) v out =
    Inr (Some (foldr (\<lambda>c v. push_bit 6 v OR word_of_nat (ascii_to_bin c)) (take n s) v),
         take encp out @ take n s @ drop (encp + n) out)"
  using assms
proof (induction n arbitrary: v out)
  case 0
  then show ?case by simp
next
  case (Suc n)
  have s: "take (Suc n) s = take n s @ [s ! n]" using Suc.prems(1) by (simp add: take_Suc_conv_app_nth)
  define out' where "out' = take (encp + n) out @ s ! n # drop (Suc (encp + n)) out"
  have "des_digits strict s encp (rev [0..<n]) (push_bit 6 v OR word_of_nat (ascii_to_bin (s ! n))) out' =
    Inr (Some (foldr (\<lambda>c v. push_bit 6 v OR word_of_nat (ascii_to_bin c)) (take n s) (push_bit 6 v OR word_of_nat (ascii_to_bin (s ! n)))),
         take encp out' @ take n s @ drop (encp + n) out')"
    by (rule Suc.IH) (use Suc.prems s in \<open>auto simp: out'_def\<close>)
  moreover have "take encp out' = take encp out" "drop (encp + n) out' = s ! n # drop (Suc (encp + n)) out"
    using Suc.prems(2) by (simp_all add: out'_def)
  moreover have "strict \<longrightarrow> itoa64 ! ascii_to_bin (s ! n) = s ! n" using Suc.prems(3) s by (simp add: des_canonical_def)
  ultimately show ?case using Suc.prems(1,2) s by (simp add: setting_at_def Let_def out'_def)
qed

text \<open>In the extended format every character must be the one its value is written with.\<close>

lemma des_digits_None:
  assumes "n \<le> Suc (length s)" and "encp + n \<le> length out" and "n = Suc (length s) \<or> \<not> list_all des_canonical (take n s)"
  shows "\<exists>out'. des_digits True s encp (rev [0..<n]) v out = Inr (None, out') \<and> length out' = length out
    \<and> take encp out' = take encp out"
  using assms
proof (induction n arbitrary: v out)
  case 0
  then show ?case by simp
next
  case (Suc n)
  show ?case
  proof (cases "n = length s")
    case True
    have "itoa64 ! ascii_to_bin NUL \<noteq> NUL" by code_simp
    then show ?thesis using True by (simp add: setting_at_def Let_def)
  next
    case False
    with Suc.prems(1) have n: "n < length s" by simp
    define out' where "out' = take (encp + n) out @ s ! n # drop (Suc (encp + n)) out"
    have out': "length out' = length out" "take encp out' = take encp out" using Suc.prems(2) by (simp_all add: out'_def)
    show ?thesis
    proof (cases "des_canonical (s ! n)")
      case True
      with Suc.prems(3) False n have "\<not> list_all des_canonical (take n s)" by (simp add: take_Suc_conv_app_nth)
      then show ?thesis
        using Suc.IH [of out' "push_bit 6 v OR word_of_nat (ascii_to_bin (s ! n))"] Suc.prems(2) n True [unfolded des_canonical_def] out'
        by (simp add: setting_at_def Let_def out'_def)
    next
      case False
      then show ?thesis using n by (simp add: setting_at_def Let_def des_canonical_def)
    qed
  qed
qed

subsection \<open>The two formats\<close>

lemma length_des_encode [simp]: "length (des_encode B) = 11"
  by (simp add: des_encode_def des_encode3_def des_encode2_def Let_def)

text \<open>The traditional hash: 25 encryptions of the zero block under the first 8 characters of the password.\<close>

definition des_text :: "string \<Rightarrow> string \<Rightarrow> string" where
  "des_text key salt = salt @ des_encode (ref_des (load_le (des_key_bytes key)) (des_number salt) 25 0)"

text \<open>The extended hash: the count and the salt are in the setting, and every character of the password counts.\<close>

definition des_ext_text :: "string \<Rightarrow> string \<Rightarrow> string \<Rightarrow> string" where
  "des_ext_text key n salt = CHR ''_'' # n @ salt @
     des_encode (ref_des (load_le (des_long_bytes (des_key_bytes key) (drop 8 key))) (des_number salt) (unat (des_number n)) 0)"

lemma des_finish_eq:
  assumes "length key = 8" and "k \<le> length s" and "encp + k + 12 \<le> length out"
    and "2 < k \<longrightarrow> list_all des_canonical (take k s)"
  shows "des_finish (des_setkey key init_des) s encp k (int n) out =
    Inr (0, take encp out @ take k s @ des_encode (ref_des (load_le key) (des_number (take k s)) n 0) @ NUL # drop (encp + k + 12) out)"
proof -
  have "des_digits (2 < k) s encp (rev [0..<k]) 0 out = Inr (Some (des_number (take k s)), take encp out @ take k s @ drop (encp + k) out)"
    unfolding des_number_def using assms by (intro des_digits_eq) simp_all
  moreover have "encp + k + length (des_encode B @ [NUL]) \<le> length (take encp out @ take k s @ drop (encp + k) out)" for B
    using assms(2,3) by simp
  ultimately show ?thesis
    using assms(2,3) by (simp add: des_finish_def des_cipher_ref [OF des_ready_init assms(1)] min_absorb1 add.commute)
qed

lemma crypt_des_traditional:
  assumes "c0 \<noteq> CHR ''_''" and "\<not> ascii_is_unsafe c0" and "\<not> ascii_is_unsafe c1" and "length out = 128"
  shows "crypt_des key (c0 # c1 # rest) out 128 = Inr (0, des_text key [c0, c1] @ NUL # drop 14 out)"
proof -
  have "des_finish (des_setkey (des_key_bytes key) init_des) (c0 # c1 # rest) 0 2 (int 25) out =
      Inr (0, des_text key [c0, c1] @ NUL # drop 14 out)"
    using des_finish_eq [of "des_key_bytes key" 2 "c0 # c1 # rest" 0 out 25] assms(4)
    by (simp add: des_text_def eval_nat_numeral)
  then show ?thesis using assms by (simp add: crypt_des_def des_read_key_8 setting_at_def)
qed

lemma crypt_des_unsafe:
  assumes "s = [] \<or> hd s \<noteq> CHR ''_'' \<and> (ascii_is_unsafe (hd s) \<or> tl s = [] \<or> ascii_is_unsafe (hd (tl s)))"
  shows "crypt_des key s out 128 = Inr (-1, out)"
  using assms by (cases s; cases "tl s") (auto simp: crypt_des_def des_read_key_8 setting_at_def ascii_is_unsafe_def Let_def NUL_def)

lemma ascii_to_bin_less: "ascii_to_bin c < 64"
proof -
  have "a AND 0x3f = a mod 64" for a :: int
    using take_bit_eq_mask [of 6 a] by (simp add: mask_eq_exp_minus_1 take_bit_eq_mod)
  then show ?thesis by (simp add: ascii_to_bin_def Let_def nat_less_iff)
qed

lemma bit_des_number: "bit (des_number cs) k \<Longrightarrow> k < 6 * length cs"
proof (induction cs arbitrary: k)
  case Nil
  then show ?case by (simp add: des_number_def)
next
  case (Cons c cs)
  have "bit (word_of_nat (ascii_to_bin c) :: 32 word) k \<Longrightarrow> k < 6"
  proof (rule ccontr)
    assume "bit (word_of_nat (ascii_to_bin c) :: 32 word) k" and k: "\<not> k < 6"
    then have "bit (ascii_to_bin c) k" by (simp add: bit_of_nat_iff)
    moreover have "take_bit 6 (ascii_to_bin c) = ascii_to_bin c" using ascii_to_bin_less [of c] by (simp add: take_bit_eq_mod)
    ultimately show False using k by (metis bit_take_bit_iff)
  qed
  with Cons.prems have "k < 6 \<or> 6 \<le> k \<and> bit (des_number cs) (k - 6)"
    by (auto simp: des_number_def bit_or_iff bit_push_bit_iff)
  with Cons.IH [of "k - 6"] show ?case by auto
qed

lemma sint_des_number:
  assumes "length cs = 4"
  shows "sint (des_number cs) = int (unat (des_number cs))"
proof -
  have "\<not> bit (des_number cs) 31" using bit_des_number [of cs 31] assms by auto
  then have "\<not> bit (uint (des_number cs)) 31" by (simp add: bit_uint_iff)
  then have "sint (des_number cs) = take_bit 31 (uint (des_number cs))"
    by (simp add: sint_uint signed_take_bit_eq_if_positive)
  also have "\<dots> = uint (des_number cs)"
  proof (rule bit_eqI)
    fix k :: nat
    show "bit (take_bit 31 (uint (des_number cs))) k = bit (uint (des_number cs)) k"
      using bit_des_number [of cs k] assms by (auto simp: bit_take_bit_iff bit_uint_iff)
  qed
  finally show ?thesis by simp
qed

lemma crypt_des_extended:
  assumes "length n = 4" and "length salt = 4" and "list_all des_canonical (n @ salt)" and "des_number n \<noteq> 0"
    and "length out = 128"
  shows "crypt_des key (CHR ''_'' # n @ salt @ rest) out 128 = Inr (0, des_ext_text key n salt @ NUL # drop 21 out)"
proof -
  define kb where "kb = des_long_bytes (des_key_bytes key) (drop 8 key)"
  define out1 where "out1 = CHR ''_'' # n @ drop 5 out"
  have "des_digits True (n @ salt @ rest) 1 (rev [0..<4]) 0 (CHR ''_'' # drop 1 out) = Inr (Some (des_number n), out1)"
    using des_digits_eq [of 4 "n @ salt @ rest" 1 "CHR ''_'' # drop 1 out" True 0] assms
    by (simp add: des_number_def out1_def eval_nat_numeral)
  moreover have "des_finish (des_setkey kb init_des) (salt @ rest) 5 4 (sint (des_number n)) out1 =
      Inr (0, des_ext_text key n salt @ NUL # drop 21 out)"
    unfolding sint_des_number [OF assms(1)]
    using des_finish_eq [of kb 4 "salt @ rest" 5 out1 "unat (des_number n)"] assms length_des_long_bytes [of "des_key_bytes key" "drop 8 key"]
    by (simp add: out1_def des_ext_text_def kb_def)
  ultimately show ?thesis
    using assms des_long_key_eq [of "des_key_bytes key" "drop 8 key"]
    by (simp add: crypt_des_def des_read_key_8 setting_at_def kb_def)
qed

subsection \<open>Settings of the extended format that are not accepted\<close>

lemma des_digits_overread:
  "Suc (length s) < n \<Longrightarrow> des_digits strict s encp (rev [0..<n]) v out = Inl Out_Of_Bounds"
  by (cases n) (simp_all add: setting_at_def)

lemma crypt_des_underscore:
  assumes "length out = 128"
  shows "crypt_des key (CHR ''_'' # t) out 128 =
    res_bind (des_digits True t 1 (rev [0..<4]) 0 (CHR ''_'' # drop 1 out)) (\<lambda>(n, out2).
      case n of None \<Rightarrow> Inr (-1, out2)
      | Some n \<Rightarrow> if n = 0 then Inr (-1, out2)
                  else des_finish (des_setkey (des_long_bytes (des_key_bytes key) (drop 8 key)) init_des) (drop 4 t) 5 4 (sint n) out2)"
proof -
  have "drop 5 (CHR ''_'' # t) = drop 4 t" by simp
  then show ?thesis
    unfolding crypt_des_def using assms des_long_key_eq [of "des_key_bytes key" "drop 8 key"]
    by (simp only:) (simp add: des_read_key_8 setting_at_def)
qed

text \<open>The count, and then the salt, are read from their last character to their first, before anything shows that the
  setting is long enough: a setting that ends early is read beyond its terminating NUL.\<close>

lemma crypt_des_overread:
  assumes "length out = 128"
    and "length t < 3 \<or> 4 \<le> length t \<and> length t < 7 \<and> list_all des_canonical (take 4 t) \<and> des_number (take 4 t) \<noteq> 0"
  shows "crypt_des key (CHR ''_'' # t) out 128 = Inl Out_Of_Bounds"
  using assms(2)
proof
  assume "length t < 3"
  then show ?thesis unfolding crypt_des_underscore [OF assms(1)] by (simp only: des_digits_overread) simp
next
  assume t: "4 \<le> length t \<and> length t < 7 \<and> list_all des_canonical (take 4 t) \<and> des_number (take 4 t) \<noteq> 0"
  then have "des_digits True t 1 (rev [0..<4]) 0 (CHR ''_'' # drop 1 out) =
      Inr (Some (des_number (take 4 t)), take 1 (CHR ''_'' # drop 1 out) @ take 4 t @ drop (1 + 4) (CHR ''_'' # drop 1 out))"
    unfolding des_number_def using assms(1) by (intro des_digits_eq) simp_all
  moreover have "des_digits True (drop 4 t) 5 (rev [0..<4]) 0 out' = Inl Out_Of_Bounds" for out'
    using t by (intro des_digits_overread) auto
  ultimately show ?thesis unfolding crypt_des_underscore [OF assms(1)] using t by (simp add: des_finish_def)
qed

text \<open>Otherwise a count or a salt with a character that is not the one its value is written with, and a count of 0, are refused.
  The buffer then keeps what it held, apart from the characters of the setting copied so far.\<close>

definition des_ext_setting :: "string \<Rightarrow> bool" where
  "des_ext_setting t \<longleftrightarrow> 8 \<le> length t \<and> list_all des_canonical (take 8 t) \<and> des_number (take 4 t) \<noteq> 0"

lemma crypt_des_refused:
  assumes "length out = 128" and "3 \<le> length t" and "\<not> des_ext_setting t"
    and "\<not> (4 \<le> length t \<and> length t < 7 \<and> list_all des_canonical (take 4 t) \<and> des_number (take 4 t) \<noteq> 0)"
  shows "\<exists>out'. crypt_des key (CHR ''_'' # t) out 128 = Inr (-1, out') \<and> length out' = 128"
proof (cases "4 \<le> length t \<and> list_all des_canonical (take 4 t)")
  case False
  then have "4 = Suc (length t) \<or> \<not> list_all des_canonical (take 4 t)" using assms(2) by auto
  then obtain out' where "des_digits True t 1 (rev [0..<4]) 0 (CHR ''_'' # drop 1 out) = Inr (None, out')" "length out' = 128"
    using des_digits_None [of 4 t 1 "CHR ''_'' # drop 1 out" 0] assms(1,2) by auto
  then show ?thesis unfolding crypt_des_underscore [OF assms(1)] by simp
next
  case True
  define out1 where "out1 = take 1 (CHR ''_'' # drop 1 out) @ take 4 t @ drop (1 + 4) (CHR ''_'' # drop 1 out)"
  have len: "length out1 = 128" using assms(1) True by (simp add: out1_def)
  have 1: "des_digits True t 1 (rev [0..<4]) 0 (CHR ''_'' # drop 1 out) = Inr (Some (des_number (take 4 t)), out1)"
    unfolding des_number_def out1_def using assms(1) True by (intro des_digits_eq) simp_all
  show ?thesis
  proof (cases "des_number (take 4 t) = 0")
    case True
    then show ?thesis unfolding crypt_des_underscore [OF assms(1)] using 1 len by simp
  next
    case False
    have "take 8 t = take 4 t @ take 4 (drop 4 t)" using take_add [of 4 4 t] by simp
    with False True assms(3,4) have "4 \<le> Suc (length (drop 4 t))"
      "4 = Suc (length (drop 4 t)) \<or> \<not> list_all des_canonical (take 4 (drop 4 t))"
      by (auto simp: des_ext_setting_def)
    then obtain out' where "des_digits True (drop 4 t) 5 (rev [0..<4]) 0 out1 = Inr (None, out')" "length out' = 128"
      using des_digits_None [of 4 "drop 4 t" 5 out1 0] len by auto
    then show ?thesis unfolding crypt_des_underscore [OF assms(1)] using 1 False by (simp add: des_finish_def)
  qed
qed

subsection \<open>The text determines the block\<close>

lemma and_63_id: "(\<And>n. bit w n \<Longrightarrow> n < 6) \<Longrightarrow> w AND 0x3f = (w :: 32 word)"
proof -
  assume *: "\<And>n. bit w n \<Longrightarrow> n < 6"
  have m: "(0x3f :: 32 word) = mask 6" by (simp add: mask_eq_exp_minus_1)
  show ?thesis unfolding m using * by (intro bit_word_eqI) (auto simp: bit_and_iff bit_mask_iff)
qed

lemma des_encode3_group: "des_encode3 b0 b1 b2 = rev (b64_group (b0, b1, b2, 4))"
proof -
  define w where "w = b64_word b0 b1 b2"
  have w: "push_bit 8 (push_bit 8 (ucast b0) OR ucast b1) OR ucast b2 = w"
    by (rule bit_word_eqI) (auto simp: w_def b64_word_def bit_or_iff bit_push_bit_iff bit_ucast_iff)
  have "n < 6" if "bit (drop_bit 6 (drop_bit 6 (drop_bit 6 w))) n" for n
    using that by (auto simp: w_def b64_word_def bit_or_iff bit_push_bit_iff bit_ucast_iff bit_drop_bit_eq dest!: bit_imp_le_length)
  then have "drop_bit 6 (drop_bit 6 (drop_bit 6 w)) AND 0x3f = drop_bit 6 (drop_bit 6 (drop_bit 6 w))" by (rule and_63_id)
  then show ?thesis
    unfolding des_encode3_def w b64_group_def by (simp add: Let_def w_def eval_nat_numeral del: drop_bit_drop_bit)
qed

lemma des_encode2_chars: "des_encode2 b0 b1 = rev (b64_chars 3 (push_bit 2 (b64_word 0 b0 b1)))"
proof -
  define w where "w = push_bit 2 (b64_word 0 b0 b1)"
  have w: "push_bit 2 (push_bit 8 (ucast b0) OR ucast b1) = w"
    by (rule bit_word_eqI) (auto simp: w_def b64_word_def bit_or_iff bit_push_bit_iff bit_ucast_iff)
  have "n < 6" if "bit (drop_bit 6 (drop_bit 6 w)) n" for n
    using that by (auto simp: w_def b64_word_def bit_or_iff bit_push_bit_iff bit_ucast_iff bit_drop_bit_eq dest!: bit_imp_le_length)
  then have "drop_bit 6 (drop_bit 6 w) AND 0x3f = drop_bit 6 (drop_bit 6 w)" by (rule and_63_id)
  then show ?thesis
    unfolding des_encode2_def w by (simp add: Let_def w_def eval_nat_numeral del: drop_bit_drop_bit)
qed

lemma set_des_encode: "set (des_encode B) \<subseteq> set itoa64"
  using set_b64_chars by (auto simp: des_encode_def des_encode3_group des_encode2_chars b64_group_def)

lemma NUL_des_encode: "NUL \<notin> set (des_encode B)"
  using set_des_encode b64t_not_NUL by blast

lemma des_encode_inj: "des_encode B = des_encode B' \<longleftrightarrow> B = B'"
proof
  assume eq: "des_encode B = des_encode B'"
  have len: "length (des_encode3 a b c) = 4" for a b c by (simp add: des_encode3_def Let_def)
  from eq have e: "des_encode3 (cb_b B 0) (cb_b B 1) (cb_b B 2) = des_encode3 (cb_b B' 0) (cb_b B' 1) (cb_b B' 2)"
    "des_encode3 (cb_b B 3) (cb_b B 4) (cb_b B 5) = des_encode3 (cb_b B' 3) (cb_b B' 4) (cb_b B' 5)"
    "des_encode2 (cb_b B 6) (cb_b B 7) = des_encode2 (cb_b B' 6) (cb_b B' 7)"
    by (simp_all add: des_encode_def len)
  have "b64_chars 3 (push_bit 2 (b64_word 0 (cb_b B 6) (cb_b B 7))) = b64_chars 3 (push_bit 2 (b64_word 0 (cb_b B' 6) (cb_b B' 7)))"
    using e(3) by (simp add: des_encode2_chars)
  note b3 = b64_chars_inj [OF this]
  have w: "bit (b64_word 0 (cb_b B 6) (cb_b B 7)) n = bit (b64_word 0 (cb_b B' 6) (cb_b B' 7)) n" if "n < 16" for n
    using b3 [of "2 + n"] that by (simp add: bit_push_bit_iff)
  have "cb_b B 7 = cb_b B' 7" "cb_b B 6 = cb_b B' 6"
    using w bit_b64_word [of _ 0 "cb_b B 6" "cb_b B 7"] bit_b64_word [of _ 0 "cb_b B' 6" "cb_b B' 7"]
    by (auto intro!: bit_word_eqI)
  moreover have "g = 0 \<or> g = 1 \<or> g = 2 \<or> g = 3 \<or> g = 4 \<or> g = 5 \<or> g = 6 \<or> g = 7" if "g < 8" for g :: nat using that by arith
  ultimately have "cb_b B g = cb_b B' g" if "g < 8" for g using e(1,2) that by (auto simp: des_encode3_group b64_group_inj)
  then have "bit B (8 * g + m) = bit B' (8 * g + m)" if "g < 8" "m < 8" for g m using that bit_cb_b by metis
  then have "bit B k = bit B' k" if "k < 64" for k using div_mod_8 [OF that] by auto
  then show "B = B'" by (intro bit_word_eqI) simp
qed simp

end
