(* ===== verification/Crypt_Bf.thy ===== *)
theory Crypt_Bf
  imports Blowfish
begin

text \<open>
  bcrypt, \<^verbatim>\<open>crypt/crypt_bf.c\<close>: the base64 variant of its salts and digests, the expansion of the password with
  the handling of the old sign-extension bug, the hash itself, and \<^verbatim>\<open>crypt_blowfish\<close> with the
  self-test that it runs on every call.
\<close>

unbundle bit_operations_syntax

subsection \<open>Base64\<close>

definition BF_itoa64 :: string where
  "BF_itoa64 = ''./ABCDEFGHIJKLMNOPQRSTUVWXYZabcdefghijklmnopqrstuvwxyz0123456789''"

definition BF_atoi64 :: "nat list" where
  "BF_atoi64 =
    [64, 64, 64, 64, 64, 64, 64, 64, 64, 64, 64, 64, 64, 64, 0, 1,
     54, 55, 56, 57, 58, 59, 60, 61, 62, 63, 64, 64, 64, 64, 64, 64,
     64, 2, 3, 4, 5, 6, 7, 8, 9, 10, 11, 12, 13, 14, 15, 16,
     17, 18, 19, 20, 21, 22, 23, 24, 25, 26, 27, 64, 64, 64, 64, 64,
     64, 28, 29, 30, 31, 32, 33, 34, 35, 36, 37, 38, 39, 40, 41, 42,
     43, 44, 45, 46, 47, 48, 49, 50, 51, 52, 53, 64, 64, 64, 64, 64]"

text \<open>\<open>None\<close> is the \<^verbatim>\<open>return -1\<close> of the macro.  The subtraction is unsigned, so characters below 0x20 fail.\<close>

definition BF_safe_atoi64 :: "char \<Rightarrow> byte option" where
  "BF_safe_atoi64 src =
     (let c = of_char src :: nat in
      if c < 0x20 \<or> c - 0x20 \<ge> 0x60 then None
      else if BF_atoi64 ! (c - 0x20) > 63 then None else Some (word_of_nat (BF_atoi64 ! (c - 0x20))))"

text \<open>The next character: at the end of the string it is the NUL.\<close>

definition BF_next :: "string \<Rightarrow> (byte \<times> string) option" where
  "BF_next s = (case s of [] \<Rightarrow> map_option (\<lambda>v. (v, [])) (BF_safe_atoi64 NUL)
                        | c # rest \<Rightarrow> map_option (\<lambda>v. (v, rest)) (BF_safe_atoi64 c))"

fun BF_decode :: "string \<Rightarrow> nat \<Rightarrow> byte list option" where
  "BF_decode s sz =
     Option.bind (BF_next s) (\<lambda>(c1, s).
     Option.bind (BF_next s) (\<lambda>(c2, s).
     let b1 = push_bit 2 c1 OR drop_bit 4 (c2 AND 0x30) in
     if sz \<le> 1 then Some [b1]
     else Option.bind (BF_next s) (\<lambda>(c3, s).
     let b2 = push_bit 4 (c2 AND 0x0F) OR drop_bit 2 (c3 AND 0x3C) in
     if sz \<le> 2 then Some [b1, b2]
     else Option.bind (BF_next s) (\<lambda>(c4, s).
     let b3 = push_bit 6 (c3 AND 0x03) OR c4 in
     if 3 < sz then map_option (\<lambda>bs. b1 # b2 # b3 # bs) (BF_decode s (sz - 3)) else Some [b1, b2, b3]))))"

declare BF_decode.simps [simp del]

text \<open>The loop of \<^verbatim>\<open>BF_encode\<close>; it is only called with a size above 0.\<close>

fun BF_encode :: "byte list \<Rightarrow> string" where
  "BF_encode [] = []"
| "BF_encode [c1] = [BF_itoa64 ! unat (drop_bit 2 c1), BF_itoa64 ! unat (push_bit 4 (c1 AND 0x03))]"
| "BF_encode [c1, c2] =
     [BF_itoa64 ! unat (drop_bit 2 c1), BF_itoa64 ! unat (push_bit 4 (c1 AND 0x03) OR drop_bit 4 c2),
      BF_itoa64 ! unat (push_bit 2 (c2 AND 0x0f))]"
| "BF_encode (c1 # c2 # c3 # rest) =
     [BF_itoa64 ! unat (drop_bit 2 c1), BF_itoa64 ! unat (push_bit 4 (c1 AND 0x03) OR drop_bit 4 c2),
      BF_itoa64 ! unat (push_bit 2 (c2 AND 0x0f) OR drop_bit 6 c3), BF_itoa64 ! unat (c3 AND 0x3f)] @ BF_encode rest"

definition BF_swap :: "32 word \<Rightarrow> 32 word" where
  "BF_swap x =
     (let tmp = push_bit 16 x OR drop_bit 16 x
      in push_bit 8 (tmp AND 0x00FF00FF) OR (drop_bit 8 tmp AND 0x00FF00FF))"

subsection \<open>The password\<close>

text \<open>
  \<^verbatim>\<open>*ptr\<close> for the position \<open>p\<close> in the password and its NUL; after the NUL the reading starts again.  The four
  characters of a word go to \<^verbatim>\<open>tmp[0]\<close>, and sign-extended to \<^verbatim>\<open>tmp[1]\<close>.
\<close>

definition BF_char :: "string \<Rightarrow> nat \<Rightarrow> byte" where
  "BF_char key p = (if p < length key then byte_of_char (key ! p) else 0)"

definition BF_key_char :: "string \<Rightarrow> nat \<Rightarrow> nat \<times> 32 word \<times> 32 word \<times> 32 word \<Rightarrow> nat \<times> 32 word \<times> 32 word \<times> 32 word" where
  "BF_key_char key j = (\<lambda>(p, tmp0, tmp1, sign).
     let c = BF_char key p;
         tmp0 = push_bit 8 tmp0 OR ucast c;
         tmp1 = push_bit 8 tmp1 OR scast c;
         sign = (if j \<noteq> 0 then sign OR (tmp1 AND 0x80) else sign)
     in (if c = 0 then 0 else p + 1, tmp0, tmp1, sign))"

definition BF_key_word ::
    "string \<Rightarrow> bool \<Rightarrow> nat \<Rightarrow> nat \<times> 32 word \<times> 32 word \<times> 32 word list \<Rightarrow> nat \<times> 32 word \<times> 32 word \<times> 32 word list" where
  "BF_key_word key bug i = (\<lambda>(p, sign, diff, expanded).
     let (p, tmp0, tmp1, sign) = fold (BF_key_char key) [0..<4] (p, 0, 0, sign)
     in (p, sign, diff OR (tmp0 XOR tmp1), expanded @ [if bug then tmp1 else tmp0]))"

definition BF_set_key :: "string \<Rightarrow> nat \<Rightarrow> 32 word list \<times> 32 word list" where
  "BF_set_key key flags =
     (let bug = odd flags;
          safety = push_bit 15 (word_of_nat flags AND 2 :: 32 word);
          (p, sign, diff, expanded) = fold (BF_key_word key bug) [0..<18] (0, 0, 0, []);
          initial = map2 (XOR) BF_init_P expanded;
          diff = diff OR drop_bit 16 diff;
          diff = diff AND 0xffff;
          diff = diff + 0xffff;
          sign = push_bit 9 sign;
          sign = sign AND (NOT diff AND safety)
      in (expanded, initial[0 := initial ! 0 XOR sign]))"

definition flags_by_subtype :: "nat list" where
  "flags_by_subtype = [2, 4, 0, 0, 0, 0, 0, 0, 0, 0, 0, 0, 0, 0, 0, 0, 0, 0, 0, 0, 0, 0, 0, 1, 4, 0]"

subsection \<open>\<^verbatim>\<open>BF_crypt\<close>\<close>

definition BF_flags :: "char \<Rightarrow> nat" where
  "BF_flags c = flags_by_subtype ! (of_char c - 97)"

definition BF_expect :: "string \<Rightarrow> nat \<Rightarrow> (char \<Rightarrow> bool) \<Rightarrow> bool res \<Rightarrow> bool res" where
  "BF_expect setting i ok k = res_bind (setting_at setting i) (\<lambda>c. if ok c then k else Inr False)"

definition BF_valid :: "string \<Rightarrow> bool res" where
  "BF_valid setting =
     BF_expect setting 0 (\<lambda>c. c = CHR ''$'') (
     BF_expect setting 1 (\<lambda>c. c = CHR ''2'') (
     BF_expect setting 2 (\<lambda>c. CHR ''a'' \<le> c \<and> c \<le> CHR ''z'' \<and> BF_flags c \<noteq> 0) (
     BF_expect setting 3 (\<lambda>c. c = CHR ''$'') (
     BF_expect setting 4 (\<lambda>c. CHR ''0'' \<le> c \<and> c \<le> CHR ''3'') (
     BF_expect setting 5 (\<lambda>c. CHR ''0'' \<le> c \<and> c \<le> CHR ''9'' \<and> \<not> (setting ! 4 = CHR ''3'' \<and> c > CHR ''1'')) (
     BF_expect setting 6 (\<lambda>c. c = CHR ''$'') (Inr True)))))))"

definition BF_cost :: "string \<Rightarrow> nat" where
  "BF_cost setting = (of_char (setting ! 4) - 48) * 10 + (of_char (setting ! 5) - 48)"

text \<open>From the password and the salt to the six output words, for \<^verbatim>\<open>count\<close> turns.\<close>

definition BF_words :: "string \<Rightarrow> nat \<Rightarrow> 32 word list \<Rightarrow> nat \<Rightarrow> 32 word list" where
  "BF_words key flags salt turns =
     (let (expanded, initial) = BF_set_key key flags;
          ctx = BF_init_state\<lparr>BF_P := initial\<rparr>;
          ctx = snd (BF_salted_S salt (BF_salted_P salt ((0, 0), ctx)));
          ctx = (BF_turn expanded salt ^^ turns) ctx
      in concat (map (\<lambda>i. let (L, R) = (BF_ENCRYPT ctx ^^ 64) (BF_magic_w ! (2 * i), BF_magic_w ! (2 * i + 1)) in [L, R])
           [0..<3]))"

definition BF_crypt :: "string \<Rightarrow> string \<Rightarrow> string \<Rightarrow> nat \<Rightarrow> 32 word \<Rightarrow> string option res" where
  "BF_crypt key setting output sz least =
     (if sz < 7 + 22 + 31 + 1 then Inr None
      else res_bind (BF_valid setting) (\<lambda>valid.
        if \<not> valid then Inr None
        else (let cnt = push_bit (BF_cost setting) 1 in
          if cnt < least then Inr None
          else (case BF_decode (drop 7 setting) 16 of
              None \<Rightarrow> Inr None
            | Some bytes \<Rightarrow>
                (let salt = map (BF_swap \<circ> load_le) (chunks 4 bytes);
                     words = BF_words key (BF_flags (setting ! 2)) salt (unat cnt)
                 in res_bind (memcpy_at 0 (take (7 + 22 - 1) setting) output) (\<lambda>output.
                    res_bind (setting_at setting (7 + 22 - 1)) (\<lambda>c.
                    res_bind (memcpy_at (7 + 22 - 1) [BF_itoa64 ! ((BF_atoi64 ! (of_char c - 0x20)) AND 0x30)] output) (\<lambda>output.
                    res_bind (memcpy_at (7 + 22) (BF_encode (take 23 (concat (map (store_le 4 \<circ> BF_swap) words)))) output) (\<lambda>output.
                    res_bind (memcpy_at (7 + 22 + 31) [NUL] output) (\<lambda>output. Inr (Some output)))))))))))"

definition crypt_output_magic :: "string \<Rightarrow> string \<Rightarrow> nat \<Rightarrow> string res" where
  "crypt_output_magic setting output sz =
     (if sz < 3 then Inr output
      else res_bind (memcpy_at 0 [CHR ''*'', CHR ''0'', NUL] output) (\<lambda>output.
        res_bind (setting_at setting 0) (\<lambda>c0.
        if c0 = CHR ''*''
        then res_bind (setting_at setting 1) (\<lambda>c1. if c1 = CHR ''0'' then memcpy_at 1 [CHR ''1''] output else Inr output)
        else Inr output)))"

subsection \<open>\<^verbatim>\<open>crypt_blowfish\<close>\<close>

definition BF_test_key :: string where
  "BF_test_key = [CHR ''8'', CHR ''b'', CHR '' '', CHR 0xd0, CHR 0xc1, CHR 0xd2, CHR 0xcf, CHR 0xcc, CHR 0xd8]"

definition BF_test_setting :: string where
  "BF_test_setting = ''$2a$00$abcdefghijklmnopqrstuu''"

definition BF_test_hash :: "nat \<Rightarrow> string" where
  "BF_test_hash flags =
     (if odd flags then ''VUrPmXD6q/nVSSp7pNDhCR9071IfIRe'' else ''i1D709vfamulimlGcq0qq3UvuUasvEa'') @ [NUL, CHR 0x55, NUL]"

text \<open>
  The self-test: a known password is hashed, and the expansions of a password that the safety measure
  changes are compared.  \<open>sub\<close> is the subtype of the caller's setting if that was hashed.
\<close>

definition BF_test_keys :: bool where
  "BF_test_keys =
     (let k = [CHR 0xff, CHR 0xa3, CHR ''3'', CHR ''4'', CHR 0xff, CHR 0xff, CHR 0xff, CHR 0xa3, CHR ''3'', CHR ''4'', CHR ''5''];
          (ae, ai) = BF_set_key k 2;
          (ye, yi) = BF_set_key k 4;
          ai = ai[0 := ai ! 0 XOR 0x10000]
      in ai ! 0 = 0xdb9c59bc \<and> ye ! 17 = 0x33343500 \<and> ae = ye \<and> ai = yi)"

definition BF_selftest :: "char option \<Rightarrow> bool res" where
  "BF_selftest sub =
     (let s = (case sub of None \<Rightarrow> BF_test_setting | Some c \<Rightarrow> BF_test_setting[2 := c]);
          test_hash = BF_test_hash (case sub of None \<Rightarrow> 0 | Some c \<Rightarrow> BF_flags c)
      in res_bind (BF_crypt BF_test_key s (replicate 62 (CHR 0x55) @ [NUL]) 61 1) (\<lambda>p.
         Inr (case p of None \<Rightarrow> False
              | Some buf \<Rightarrow> take (7 + 22) buf = take (7 + 22) s \<and> take 34 (drop (7 + 22) buf) = test_hash \<and> BF_test_keys)))"

definition crypt_blowfish :: "string \<Rightarrow> string \<Rightarrow> string \<Rightarrow> nat \<Rightarrow> (int \<times> string) res" where
  "crypt_blowfish key setting output sz =
     res_bind (crypt_output_magic setting output sz) (\<lambda>output.
     res_bind (BF_crypt key setting output sz 16) (\<lambda>retval.
     let output = (case retval of None \<Rightarrow> output | Some out \<Rightarrow> out) in
     res_bind (BF_selftest (map_option (\<lambda>_. setting ! 2) retval)) (\<lambda>ok.
     if ok then Inr (0, output)
     else res_bind (crypt_output_magic setting output sz) (\<lambda>output. Inr (-1, output)))))"
subsection \<open>Salts and digests as text\<close>

lemma length_BF_itoa64: "length BF_itoa64 = 64"
  by (simp add: BF_itoa64_def)

lemma BF_safe_atoi64_itoa64: "v < 64 \<Longrightarrow> BF_safe_atoi64 (BF_itoa64 ! v) = Some (word_of_nat v)"
proof -
  have upto: "[0..<64] = [0, 1, 2, 3, 4, 5, 6, 7, 8, 9, 10, 11, 12, 13, 14, 15,
      16, 17, 18, 19, 20, 21, 22, 23, 24, 25, 26, 27, 28, 29, 30, 31,
      32, 33, 34, 35, 36, 37, 38, 39, 40, 41, 42, 43, 44, 45, 46, 47,
      48, 49, 50, 51, 52, 53, 54, 55, 56, 57, 58, 59, 60, 61, 62, 63 :: nat]" by code_simp
  have "map BF_safe_atoi64 BF_itoa64 = map (Some \<circ> word_of_nat) [0..<64]"
    unfolding upto by (simp add: BF_itoa64_def BF_safe_atoi64_def BF_atoi64_def)
  then have "map BF_safe_atoi64 BF_itoa64 ! v = map (Some \<circ> word_of_nat) [0..<64] ! v" by simp
  then show "v < 64 \<Longrightarrow> BF_safe_atoi64 (BF_itoa64 ! v) = Some (word_of_nat v)" by (simp add: length_BF_itoa64)
qed

lemma BF_safe_sextet: "drop_bit 6 w = 0 \<Longrightarrow> BF_safe_atoi64 (BF_itoa64 ! unat w) = Some w"
proof -
  assume w: "drop_bit 6 w = 0"
  have "unat (drop_bit 6 w) = unat w div 64" unfolding unat_drop_bit_eq by (simp add: drop_bit_eq_div)
  with w have "unat w < 64" by (simp add: div_eq_0_iff)
  then show ?thesis using BF_safe_atoi64_itoa64 [of "unat w"] by simp
qed

lemma BF_next_Cons: "BF_next (c # s) = map_option (\<lambda>v. (v, s)) (BF_safe_atoi64 c)"
  by (simp add: BF_next_def)

lemma BF_next_Nil: "BF_next [] = None"
  by (simp add: BF_next_def BF_safe_atoi64_def NUL_def)

lemma BF_next_Some: "BF_next s = Some (v, t) \<longleftrightarrow> (\<exists>c. s = c # t \<and> BF_safe_atoi64 c = Some v)"
  by (cases s) (auto simp: BF_next_Cons BF_next_Nil)

lemma byte_eq_8:
  "(a :: byte) = b \<longleftrightarrow> bit a 0 = bit b 0 \<and> bit a 1 = bit b 1 \<and> bit a 2 = bit b 2 \<and> bit a 3 = bit b 3
     \<and> bit a 4 = bit b 4 \<and> bit a 5 = bit b 5 \<and> bit a 6 = bit b 6 \<and> bit a 7 = bit b 7"
proof -
  have "(\<forall>j < 8. P j) \<longleftrightarrow> P 0 \<and> P 1 \<and> P 2 \<and> P 3 \<and> P 4 \<and> P 5 \<and> P 6 \<and> P (7 :: nat)" for P
    by (simp add: eval_nat_numeral All_less_Suc) blast
  from this [of "\<lambda>j. bit a j = bit b j"] show ?thesis unfolding byte_eq_iff .
qed

lemma BF_sextets:
  fixes c1 c2 c3 :: byte
  shows "drop_bit 6 (drop_bit 2 c1) = 0" "drop_bit 6 (push_bit 4 (c1 AND 0x03)) = 0" "drop_bit 6 (push_bit 2 (c2 AND 0x0f)) = 0"
    "drop_bit 6 (push_bit 4 (c1 AND 0x03) OR drop_bit 4 c2) = 0" "drop_bit 6 (push_bit 2 (c2 AND 0x0f) OR drop_bit 6 c3) = 0"
    "drop_bit 6 (c3 AND 0x3f) = 0"
proof -
  have m: "(0x03 :: byte) = mask 2" "(0x0f :: byte) = mask 4" "(0x3f :: byte) = mask 6" by (simp_all add: mask_eq_exp_minus_1)
  show "drop_bit 6 (drop_bit 2 c1) = 0" "drop_bit 6 (push_bit 4 (c1 AND 0x03)) = 0" "drop_bit 6 (push_bit 2 (c2 AND 0x0f)) = 0"
    "drop_bit 6 (push_bit 4 (c1 AND 0x03) OR drop_bit 4 c2) = 0" "drop_bit 6 (push_bit 2 (c2 AND 0x0f) OR drop_bit 6 c3) = 0"
    "drop_bit 6 (c3 AND 0x3f) = 0"
    unfolding m
    by (simp_all add: byte_eq_iff bit_or_iff bit_and_iff bit_push_bit_iff bit_drop_bit_eq bit_mask_iff bit_word_high)
qed

lemma BF_join:
  fixes c1 c2 c3 :: byte
  shows "push_bit 2 (drop_bit 2 c1) OR drop_bit 4 (push_bit 4 (c1 AND 0x03) AND 0x30) = c1"
    "push_bit 2 (drop_bit 2 c1) OR drop_bit 4 ((push_bit 4 (c1 AND 0x03) OR drop_bit 4 c2) AND 0x30) = c1"
    "push_bit 4 ((push_bit 4 (c1 AND 0x03) OR drop_bit 4 c2) AND 0x0F) OR drop_bit 2 (push_bit 2 (c2 AND 0x0f) AND 0x3C) = c2"
    "push_bit 4 ((push_bit 4 (c1 AND 0x03) OR drop_bit 4 c2) AND 0x0F) OR
       drop_bit 2 ((push_bit 2 (c2 AND 0x0f) OR drop_bit 6 c3) AND 0x3C) = c2"
    "push_bit 6 ((push_bit 2 (c2 AND 0x0f) OR drop_bit 6 c3) AND 0x03) OR (c3 AND 0x3f) = c3"
proof -
  have m: "(0x03 :: byte) = mask 2" "(0x0f :: byte) = mask 4" "(0x3f :: byte) = mask 6"
    "(0x30 :: byte) = push_bit 4 (mask 2)" "(0x3C :: byte) = push_bit 2 (mask 4)" by (simp_all add: mask_eq_exp_minus_1)
  show "push_bit 2 (drop_bit 2 c1) OR drop_bit 4 (push_bit 4 (c1 AND 0x03) AND 0x30) = c1"
    "push_bit 2 (drop_bit 2 c1) OR drop_bit 4 ((push_bit 4 (c1 AND 0x03) OR drop_bit 4 c2) AND 0x30) = c1"
    "push_bit 4 ((push_bit 4 (c1 AND 0x03) OR drop_bit 4 c2) AND 0x0F) OR drop_bit 2 (push_bit 2 (c2 AND 0x0f) AND 0x3C) = c2"
    "push_bit 4 ((push_bit 4 (c1 AND 0x03) OR drop_bit 4 c2) AND 0x0F) OR
       drop_bit 2 ((push_bit 2 (c2 AND 0x0f) OR drop_bit 6 c3) AND 0x3C) = c2"
    "push_bit 6 ((push_bit 2 (c2 AND 0x0f) OR drop_bit 6 c3) AND 0x03) OR (c3 AND 0x3f) = c3"
    unfolding m byte_eq_8
    by (simp_all add: bit_or_iff bit_and_iff bit_push_bit_iff bit_drop_bit_eq bit_mask_iff bit_word_high)
qed
lemmas BF_encode_unfold = BF_encode.simps append.simps BF_next_Cons BF_safe_sextet BF_sextets option.map Option.bind.simps
  prod.case Let_def BF_join

lemma BF_decode_encode: "bs \<noteq> [] \<Longrightarrow> BF_decode (BF_encode bs @ rest) (length bs) = Some bs"
proof (induction bs rule: BF_encode.induct)
  case (2 c1)
  then show ?case by (subst BF_decode.simps, simp only: BF_encode_unfold) simp
next
  case (3 c1 c2)
  then show ?case by (subst BF_decode.simps, simp only: BF_encode_unfold) simp
next
  case (4 c1 c2 c3 bs)
  then show ?case
    by (subst BF_decode.simps, simp only: BF_encode_unfold) simp
qed simp

lemma BF_encode_inj: "length bs = length bs' \<Longrightarrow> BF_encode bs = BF_encode bs' \<Longrightarrow> bs = bs'"
  using BF_decode_encode [of bs "[]"] BF_decode_encode [of bs' "[]"] by (cases "bs = []"; cases "bs' = []") auto

lemma length_BF_encode: "length (BF_encode bs) = (8 * length bs + 5) div 6"
  by (induction bs rule: BF_encode.induct) simp_all

lemma BF_itoa64_not_NUL: "v < 64 \<Longrightarrow> BF_itoa64 ! v \<noteq> NUL"
proof -
  have "NUL \<notin> set BF_itoa64" by (simp add: BF_itoa64_def NUL_def)
  then show "v < 64 \<Longrightarrow> BF_itoa64 ! v \<noteq> NUL" using nth_mem [of v BF_itoa64] unfolding length_BF_itoa64 by metis
qed

lemma sextet_less: "drop_bit 6 w = 0 \<Longrightarrow> unat (w :: byte) < 64"
proof -
  assume "drop_bit 6 w = 0"
  moreover have "unat (drop_bit 6 w) = unat w div 64" unfolding unat_drop_bit_eq by (simp add: drop_bit_eq_div)
  ultimately show ?thesis by (simp add: div_eq_0_iff)
qed

lemma NUL_BF_encode: "NUL \<notin> set (BF_encode bs)"
proof -
  have ne: "drop_bit 6 w = 0 \<Longrightarrow> (NUL = BF_itoa64 ! unat w) = False" for w :: byte
    using BF_itoa64_not_NUL [OF sextet_less] by metis
  show ?thesis
    by (induction bs rule: BF_encode.induct)
      (simp_all only: BF_encode.simps set_append set_simps insert_iff Un_iff ne BF_sextets empty_iff simp_thms)
qed

text \<open>
  Decoding \<open>3 * k + 1\<close> bytes reads \<open>4 * k + 2\<close> characters, and of the last one only the two highest of its
  six bits.
\<close>

lemma BF_decode_step:
  "BF_decode s (3 * Suc k + 1) =
     (case s of a # b # c # d # t \<Rightarrow>
        Option.bind (BF_safe_atoi64 a) (\<lambda>c1. Option.bind (BF_safe_atoi64 b) (\<lambda>c2. Option.bind (BF_safe_atoi64 c) (\<lambda>c3.
        Option.bind (BF_safe_atoi64 d) (\<lambda>c4.
          map_option (\<lambda>bs. (push_bit 2 c1 OR drop_bit 4 (c2 AND 0x30)) # (push_bit 4 (c2 AND 0x0F) OR drop_bit 2 (c3 AND 0x3C)) #
              (push_bit 6 (c3 AND 0x03) OR c4) # bs) (BF_decode t (3 * k + 1))))))
      | _ \<Rightarrow> None)"
proof -
  have n: "\<not> 3 * Suc k + 1 \<le> 1" "\<not> 3 * Suc k + 1 \<le> 2" "3 < 3 * Suc k + 1" "3 * Suc k + 1 - 3 = 3 * k + 1" by simp_all
  show ?thesis
    by (subst BF_decode.simps, unfold n)
      (auto simp: BF_next_Cons BF_next_Nil Let_def split: list.splits bind_splits)
qed

lemma BF_decode_last:
  "BF_decode s 1 = (case s of a # b # t \<Rightarrow> Option.bind (BF_safe_atoi64 a) (\<lambda>c1. Option.bind (BF_safe_atoi64 b) (\<lambda>c2.
      Some [push_bit 2 c1 OR drop_bit 4 (c2 AND 0x30)])) | _ \<Rightarrow> None)"
  by (subst BF_decode.simps) (auto simp: BF_next_Cons BF_next_Nil Let_def split: list.splits bind_splits)

lemma BF_decode_prefix:
  assumes "BF_decode s (3 * k + 1) = Some bs"
  shows "\<exists>p c r v. s = p @ c # r \<and> length p = 4 * k + 1 \<and> BF_safe_atoi64 c = Some v \<and> length bs = 3 * k + 1 \<and>
    (\<forall>c' v' r'. BF_safe_atoi64 c' = Some v' \<longrightarrow> v' AND 0x30 = v AND 0x30 \<longrightarrow> BF_decode (p @ c' # r') (3 * k + 1) = Some bs)"
  using assms
proof (induction k arbitrary: s bs)
  case 0
  then have "BF_decode s 1 = Some bs" by simp
  then obtain a b t v1 v2 where s: "s = a # b # t" "BF_safe_atoi64 a = Some v1" "BF_safe_atoi64 b = Some v2"
    and bs: "bs = [push_bit 2 v1 OR drop_bit 4 (v2 AND 0x30)]"
    unfolding BF_decode_last by (cases s; cases "tl s") (auto split: bind_splits)
  have "BF_decode ([a] @ c' # r') (3 * 0 + 1) = Some bs" if "BF_safe_atoi64 c' = Some v'" "v' AND 0x30 = v2 AND 0x30" for c' v' r'
    by (simp only: mult_0_right add_0 BF_decode_last append.simps list.case Option.bind.simps s(2) that bs)
  moreover have "s = [a] @ b # t" "length [a] = 4 * 0 + 1" "length bs = 3 * 0 + 1" using s(1) bs by simp_all
  ultimately show ?case using s(3) by blast
next
  case (Suc k)
  obtain a b c d t v1 v2 v3 v4 bs0 where s: "s = a # b # c # d # t" "BF_safe_atoi64 a = Some v1" "BF_safe_atoi64 b = Some v2"
    "BF_safe_atoi64 c = Some v3" "BF_safe_atoi64 d = Some v4" and bs0: "BF_decode t (3 * k + 1) = Some bs0"
    and bs: "bs = (push_bit 2 v1 OR drop_bit 4 (v2 AND 0x30)) # (push_bit 4 (v2 AND 0x0F) OR drop_bit 2 (v3 AND 0x3C)) #
        (push_bit 6 (v3 AND 0x03) OR v4) # bs0"
    using Suc.prems unfolding BF_decode_step by (auto split: list.splits bind_splits)
  from Suc.IH [OF bs0] obtain p c' r v where IH: "t = p @ c' # r" "length p = 4 * k + 1" "BF_safe_atoi64 c' = Some v"
    "length bs0 = 3 * k + 1"
    "\<forall>c' v' r'. BF_safe_atoi64 c' = Some v' \<longrightarrow> v' AND 0x30 = v AND 0x30 \<longrightarrow> BF_decode (p @ c' # r') (3 * k + 1) = Some bs0"
    by blast
  have "BF_decode ((a # b # c # d # p) @ c' # r') (3 * Suc k + 1) = Some bs"
    if "BF_safe_atoi64 c' = Some v'" "v' AND 0x30 = v AND 0x30" for c' v' r'
  proof -
    have "BF_decode (p @ c' # r') (3 * k + 1) = Some bs0" using IH(5) that by blast
    then show ?thesis by (simp only: BF_decode_step append.simps list.case Option.bind.simps option.map s(2-5) bs)
  qed
  moreover have "s = (a # b # c # d # p) @ c' # r" "length (a # b # c # d # p) = 4 * Suc k + 1" "length bs = 3 * Suc k + 1"
    using IH s(1) bs by simp_all
  ultimately show ?case using IH(3) by blast
qed
subsection \<open>The expanded password\<close>

text \<open>
  Byte \<open>n\<close> of the password with its NUL, repeated without end, and the words made of four bytes: as bcrypt defines
  them, and with the sign extension of the old bug.  \<open>bf_collides\<close> holds for the passwords for which both give the same words
  although a character was sign-extended.
\<close>

definition bf_key_byte :: "string \<Rightarrow> nat \<Rightarrow> byte" where
  "bf_key_byte key n = (map byte_of_char key @ [0]) ! (n mod Suc (length key))"

definition bf_key_word :: "string \<Rightarrow> nat \<Rightarrow> 32 word" where
  "bf_key_word key i = load_be (map (\<lambda>j. bf_key_byte key (4 * i + j)) [0, 1, 2, 3])"

definition bf_signed_word :: "string \<Rightarrow> nat \<Rightarrow> 32 word" where
  "bf_signed_word key i = fold (\<lambda>j w. push_bit 8 w OR scast (bf_key_byte key (4 * i + j))) [0, 1, 2, 3] 0"

definition bf_high :: "string \<Rightarrow> nat \<Rightarrow> bool" where
  "bf_high key i \<longleftrightarrow> (\<exists>j \<in> {1, 2, 3}. bit (bf_key_byte key (4 * i + j)) 7)"

definition bf_collides :: "string \<Rightarrow> bool" where
  "bf_collides key \<longleftrightarrow> (\<forall>i < 18. bf_key_word key i = bf_signed_word key i) \<and> (\<exists>i < 18. bf_high key i)"

lemma byte_of_char_0_iff: "byte_of_char c = 0 \<longleftrightarrow> c = NUL"
proof -
  have "byte_of_char NUL = 0" by (simp add: byte_of_char_def NUL_def)
  then show ?thesis using injD [OF inj_byte_of_char, of c NUL] by auto
qed

lemma BF_key_char_eq:
  assumes "NUL \<notin> set key"
  shows "BF_key_char key j (n mod Suc (length key), tmp0, tmp1, sign) =
    (let c = bf_key_byte key n; tmp1 = push_bit 8 tmp1 OR scast c in
     (Suc n mod Suc (length key), push_bit 8 tmp0 OR ucast c, tmp1, if j \<noteq> 0 then sign OR (tmp1 AND 0x80) else sign))"
proof -
  define p where "p = n mod Suc (length key)"
  have p: "p \<le> length key" by (simp add: p_def flip: less_Suc_eq_le)
  have c: "BF_char key p = bf_key_byte key n"
    using p by (simp add: BF_char_def bf_key_byte_def p_def [symmetric] nth_append)
  have "bf_key_byte key n = 0 \<longleftrightarrow> p = length key"
  proof (cases "p = length key")
    case False
    with p have "key ! p \<in> set key" by simp
    with assms have "key ! p \<noteq> NUL" by metis
    with False p show ?thesis by (simp add: bf_key_byte_def p_def [symmetric] nth_append byte_of_char_0_iff)
  qed (simp add: bf_key_byte_def p_def [symmetric] nth_append)
  moreover have "Suc n mod Suc (length key) = (if p = length key then 0 else p + 1)"
    using mod_Suc [of n "Suc (length key)"] by (simp add: p_def)
  ultimately show ?thesis
    unfolding p_def [symmetric] by (simp add: BF_key_char_def c Let_def)
qed

lemma sign_bit: "(push_bit 8 w OR scast (c :: byte)) AND 0x80 = (if bit c 7 then 0x80 else 0 :: 32 word)"
proof -
  have b: "bit (0x80 :: 32 word) n \<longleftrightarrow> n = 7" for n
    using bit_exp_iff [where 'a = "32 word", of 7 n] by auto
  have "bit (push_bit 8 w OR scast c :: 32 word) 7 \<longleftrightarrow> bit c 7"
    by (simp add: bit_or_iff bit_push_bit_iff bit_signed_iff)
  then show ?thesis
    by (intro bit_word_eqI) (simp only: bit_and_iff b if_distrib [of bit] if_distribR bit_0_eq, auto)
qed

lemma BF_key_chars_eq:
  assumes "NUL \<notin> set key"
  shows "fold (BF_key_char key) [0..<4] (4 * i mod Suc (length key), 0, 0, sign) =
    (4 * Suc i mod Suc (length key), bf_key_word key i, bf_signed_word key i, sign OR (if bf_high key i then 0x80 else 0))"
proof -
  have u: "[0..<4] = [0, 1, 2, 3 :: nat]" by code_simp
  have n: "Suc (4 * i) = 4 * i + 1" "Suc (4 * i + 1) = 4 * i + 2" "Suc (4 * i + 2) = 4 * i + 3" "Suc (4 * i + 3) = 4 * Suc i" by simp_all
  have "bf_key_word key i = push_bit 8 (push_bit 8 (push_bit 8 (push_bit 8 0 OR ucast (bf_key_byte key (4 * i)))
      OR ucast (bf_key_byte key (4 * i + 1))) OR ucast (bf_key_byte key (4 * i + 2))) OR ucast (bf_key_byte key (4 * i + 3))"
    unfolding bf_key_word_def load_be_def load_le_def by (simp add: or.commute)
  then show ?thesis
    unfolding u bf_signed_word_def bf_high_def
    by (simp only: fold.simps comp_apply BF_key_char_eq [OF assms] Let_def n sign_bit list.case) (auto simp: add.commute)
qed
lemma or_eq_0_iff: "(a OR b :: 'a::len word) = 0 \<longleftrightarrow> a = 0 \<and> b = 0"
  by (auto simp: bit_eq_iff bit_or_iff)

lemma xor_eq_0_iff: "(a XOR b :: 'a::len word) = 0 \<longleftrightarrow> a = b"
  by (auto simp: bit_eq_iff bit_xor_iff)

lemma BF_key_words_eq:
  assumes "NUL \<notin> set key"
  shows "\<exists>diff. fold (BF_key_word key bug) [0..<n] (0, 0, 0, []) =
      (4 * n mod Suc (length key), if \<exists>i < n. bf_high key i then 0x80 else 0, diff,
       map (\<lambda>i. if bug then bf_signed_word key i else bf_key_word key i) [0..<n])
    \<and> (diff = 0 \<longleftrightarrow> (\<forall>i < n. bf_key_word key i = bf_signed_word key i))"
proof (induction n)
  case (Suc n)
  then obtain diff where IH: "fold (BF_key_word key bug) [0..<n] (0, 0, 0, []) =
      (4 * n mod Suc (length key), if \<exists>i < n. bf_high key i then 0x80 else 0, diff,
       map (\<lambda>i. if bug then bf_signed_word key i else bf_key_word key i) [0..<n])"
    and diff: "diff = 0 \<longleftrightarrow> (\<forall>i < n. bf_key_word key i = bf_signed_word key i)" by blast
  have "fold (BF_key_word key bug) [0..<Suc n] (0, 0, 0, []) =
      (4 * Suc n mod Suc (length key),
       (if \<exists>i < n. bf_high key i then 0x80 else 0) OR (if bf_high key n then 0x80 else 0),
       diff OR (bf_key_word key n XOR bf_signed_word key n),
       map (\<lambda>i. if bug then bf_signed_word key i else bf_key_word key i) [0..<Suc n])"
    using IH by (simp add: BF_key_word_def BF_key_chars_eq [OF assms])
  moreover have "(if \<exists>i < n. bf_high key i then 0x80 else 0) OR (if bf_high key n then 0x80 else 0)
      = (if \<exists>i < Suc n. bf_high key i then 0x80 else 0 :: 32 word)"
    by (auto simp: less_Suc_eq)
  moreover have "diff OR (bf_key_word key n XOR bf_signed_word key n) = 0 \<longleftrightarrow> (\<forall>i < Suc n. bf_key_word key i = bf_signed_word key i)"
    unfolding or_eq_0_iff xor_eq_0_iff diff by (auto simp: less_Suc_eq)
  ultimately show ?case by auto
qed simp

text \<open>The arithmetic that decides whether the safety measure applies, without a branch on the password.\<close>

lemma BF_safety_bit:
  fixes diff :: "32 word"
  shows "push_bit 9 (if high then 0x80 else 0) AND (NOT (((diff OR drop_bit 16 diff) AND 0xffff) + 0xffff) AND 0x10000)
    = (if high \<and> diff = 0 then 0x10000 else 0)"
proof -
  define x where "x = (diff OR drop_bit 16 diff) AND 0xffff"
  have m: "(0xffff :: 32 word) = mask 16" by (simp add: mask_eq_exp_minus_1)
  have "x = 0 \<longleftrightarrow> diff = 0"
  proof
    assume "x = 0"
    then have 0: "(diff OR drop_bit 16 diff) AND mask 16 = 0" unfolding x_def m .
    have *: "\<not> bit diff n \<and> \<not> bit diff (16 + n)" if "n < 16" for n
    proof -
      have "\<not> bit ((diff OR drop_bit 16 diff) AND mask 16) n" unfolding 0 by simp
      with that show ?thesis by (simp add: bit_and_iff bit_or_iff bit_mask_iff bit_drop_bit_eq)
    qed
    have "\<not> bit diff n" if "n < 32" for n
      using * [of n] * [of "n - 16"] that by (cases "n < 16") auto
    then show "diff = 0" by (intro bit_word_eqI) auto
  qed (simp add: x_def)
  moreover have "unat x \<le> 0xffff"
  proof -
    have "x \<le> 0xffff" unfolding x_def by (rule word_and_le1)
    then show ?thesis by (simp add: word_le_nat_alt)
  qed
  then have "unat (x + 0xffff) = unat x + 0xffff" by (subst unat_add_lem [THEN iffD1]) simp_all
  with \<open>unat x \<le> 0xffff\<close> have "bit (x + 0xffff) 16 \<longleftrightarrow> unat x \<noteq> 0"
  proof (cases "unat x = 0")
    case False
    then have "(unat x + 0xffff) div 2 ^ 16 = 1" using \<open>unat x \<le> 0xffff\<close> by (intro div_nat_eqI) simp_all
    then have "bit (unat (x + 0xffff)) 16" unfolding \<open>unat (x + 0xffff) = unat x + 0xffff\<close> bit_iff_odd by simp
    with False show ?thesis by (simp add: bit_unsigned_iff)
  next
    case True
    then have "\<not> bit (unat (x + 0xffff)) 16" unfolding \<open>unat (x + 0xffff) = unat x + 0xffff\<close> bit_iff_odd by simp
    with True show ?thesis by (simp add: bit_unsigned_iff)
  qed
  moreover have b: "bit (0x10000 :: 32 word) n \<longleftrightarrow> n = 16" for n
    using bit_exp_iff [where 'a = "32 word", of 16 n] by auto
  then have "NOT (x + 0xffff) AND 0x10000 = (if bit (x + 0xffff) 16 then 0 else 0x10000)"
    by (intro bit_word_eqI) (simp only: bit_and_iff b if_distrib [of bit] if_distribR bit_0_eq bit_not_iff, auto)
  ultimately show ?thesis
    unfolding x_def [symmetric] by (auto simp: unat_eq_0)
qed

lemma BF_set_key_eq:
  assumes "NUL \<notin> set key" and "flags \<in> {1, 2, 4}"
  defines "ws \<equiv> map (if flags = 1 then bf_signed_word key else bf_key_word key) [0..<18]"
  shows "BF_set_key key flags = (ws, (map2 (XOR) BF_init_P ws)
    [0 := (BF_init_P ! 0 XOR ws ! 0) XOR (if flags = 2 \<and> bf_collides key then 0x10000 else 0)])"
proof -
  obtain diff where f: "fold (BF_key_word key (odd flags)) [0..<18] (0, 0, 0, []) =
      (4 * 18 mod Suc (length key), if \<exists>i < 18. bf_high key i then 0x80 else 0, diff,
       map (\<lambda>i. if odd flags then bf_signed_word key i else bf_key_word key i) [0..<18])"
    and diff: "diff = 0 \<longleftrightarrow> (\<forall>i < 18. bf_key_word key i = bf_signed_word key i)"
    using BF_key_words_eq [OF assms(1)] by blast
  have ws: "map (\<lambda>i. if odd flags then bf_signed_word key i else bf_key_word key i) [0..<18] = ws"
    using assms(2) by (auto simp: ws_def)
  have len: "length BF_init_P = 18" "length ws = 18" by (simp_all add: BF_init_P_def ws_def)
  have safety: "push_bit 15 (word_of_nat flags AND 2 :: 32 word) = (if flags = 2 then 0x10000 else 0)"
    using assms(2) by auto
  have "push_bit 9 (if \<exists>i < 18. bf_high key i then 0x80 else 0) AND
      (NOT (((diff OR drop_bit 16 diff) AND 0xffff) + 0xffff) AND (if flags = 2 then 0x10000 else 0))
    = (if flags = 2 \<and> bf_collides key then 0x10000 else 0 :: 32 word)"
    using BF_safety_bit [of "\<exists>i < 18. bf_high key i" diff] diff by (auto simp: bf_collides_def)
  then show ?thesis
    unfolding BF_set_key_def f safety Let_def split_conv ws by (simp add: len)
qed
subsection \<open>The hash as a function of password and setting\<close>

definition bf_prefix :: "string \<Rightarrow> bool" where
  "bf_prefix s \<longleftrightarrow> 7 \<le> length s \<and> s ! 0 = CHR ''$'' \<and> s ! 1 = CHR ''2'' \<and>
     (CHR ''a'' \<le> s ! 2 \<and> s ! 2 \<le> CHR ''z'' \<and> BF_flags (s ! 2) \<noteq> 0) \<and> s ! 3 = CHR ''$'' \<and>
     (CHR ''0'' \<le> s ! 4 \<and> s ! 4 \<le> CHR ''3'') \<and>
     (CHR ''0'' \<le> s ! 5 \<and> s ! 5 \<le> CHR ''9'' \<and> \<not> (s ! 4 = CHR ''3'' \<and> s ! 5 > CHR ''1'')) \<and> s ! 6 = CHR ''$''"

definition bf_clean :: "char \<Rightarrow> char" where
  "bf_clean c = BF_itoa64 ! ((BF_atoi64 ! (of_char c - 0x20)) AND 0x30)"

definition bf_digest :: "string \<Rightarrow> string \<Rightarrow> byte list" where
  "bf_digest key s =
     concat (map (store_le 4 \<circ> BF_swap) (BF_words key (BF_flags (s ! 2))
       (map (BF_swap \<circ> load_le) (chunks 4 (the (BF_decode (drop 7 s) 16)))) (2 ^ BF_cost s)))"

definition bf_text :: "string \<Rightarrow> string \<Rightarrow> string" where
  "bf_text key s = take 28 s @ [bf_clean (s ! 28)] @ BF_encode (take 23 (bf_digest key s))"

text \<open>The settings that are accepted, from a given least cost on.\<close>

definition bf_setting :: "nat \<Rightarrow> string \<Rightarrow> bool" where
  "bf_setting least s \<longleftrightarrow> bf_prefix s \<and> least \<le> 2 ^ BF_cost s \<and> BF_decode (drop 7 s) 16 \<noteq> None"

lemma BF_expect_eq:
  "i < length s \<Longrightarrow> BF_expect s i ok k = (if ok (s ! i) then k else Inr False)"
  "\<not> ok NUL \<Longrightarrow> BF_expect s (length s) ok k = Inr False"
  by (simp_all add: BF_expect_def setting_at_def)

lemma BF_valid_eq: "BF_valid s = Inr (bf_prefix s)"
proof (cases "7 \<le> length s")
  case True
  then have "0 < length s" "1 < length s" "2 < length s" "3 < length s" "4 < length s" "5 < length s" "6 < length s" by linarith+
  with True show ?thesis unfolding BF_valid_def bf_prefix_def by (simp only: BF_expect_eq(1)) auto
next
  case False
  have "BF_valid s = Inr False"
  proof -
    have "BF_expect s i ok k = Inr False" if "i \<le> length s" "\<not> ok NUL" "i < length s \<Longrightarrow> k = Inr False" for i ok k
      using that by (cases "i < length s") (simp_all add: BF_expect_def setting_at_def)
    note ex = this
    have "\<not> CHR ''a'' \<le> NUL" "\<not> CHR ''0'' \<le> NUL" "NUL \<noteq> CHR ''$''" "NUL \<noteq> CHR ''2''" by (simp_all add: NUL_def)
    then show ?thesis unfolding BF_valid_def using False by (intro ex) (auto simp: Suc_le_eq)
  qed
  with False show ?thesis by (simp add: bf_prefix_def)
qed

lemma BF_cost_less: "bf_prefix s \<Longrightarrow> BF_cost s < 32"
proof -
  assume s: "bf_prefix s"
  define a b where "a = (of_char (s ! 4) :: nat)" and "b = (of_char (s ! 5) :: nat)"
  have "(of_char (s ! 4) :: nat) = of_char CHR ''3'' \<longleftrightarrow> s ! 4 = CHR ''3''" by (rule of_char_eq_iff)
  then have "a = 51 \<longleftrightarrow> s ! 4 = CHR ''3''" by (simp add: a_def)
  with s have "48 \<le> a \<and> a \<le> 51" "48 \<le> b \<and> b \<le> 57" "\<not> (a = 51 \<and> b > 49)"
    by (auto simp: bf_prefix_def a_def b_def less_eq_char_def less_char_def)
  then show ?thesis unfolding BF_cost_def a_def [symmetric] b_def [symmetric] by auto
qed

lemma BF_flags_in: "bf_prefix s \<Longrightarrow> BF_flags (s ! 2) \<in> {1, 2, 4}"
proof -
  assume s: "bf_prefix s"
  then have "(of_char (s ! 2) :: nat) - 97 < 26" by (auto simp: bf_prefix_def less_eq_char_def)
  then have "BF_flags (s ! 2) \<in> set flags_by_subtype" unfolding BF_flags_def by (intro nth_mem) (simp add: flags_by_subtype_def)
  with s show ?thesis by (auto simp: flags_by_subtype_def bf_prefix_def)
qed
lemma bf_clean_atoi:
  assumes "BF_safe_atoi64 c = Some v"
  shows "BF_safe_atoi64 (bf_clean c) = Some (v AND 0x30)" "bf_clean c \<noteq> NUL" "bf_clean (bf_clean c) = bf_clean c"
proof -
  define a where "a = BF_atoi64 ! (of_char c - 0x20)"
  have a: "a < 64" "v = word_of_nat a" using assms by (auto simp: BF_safe_atoi64_def Let_def a_def split: if_splits)
  have le: "n AND 0x30 < 64" for n :: nat
  proof -
    have "drop_bit 6 (n AND 0x30) = drop_bit 6 n AND drop_bit 6 (0x30 :: nat)" by (rule drop_bit_and)
    then have "(n AND 0x30) div 64 = 0" by (simp add: drop_bit_eq_div)
    then show ?thesis by (simp add: div_eq_0_iff)
  qed
  have c: "bf_clean c = BF_itoa64 ! (a AND 0x30)" by (simp add: bf_clean_def a_def)
  show 1: "BF_safe_atoi64 (bf_clean c) = Some (v AND 0x30)"
    unfolding c a(2) using BF_safe_atoi64_itoa64 [OF le [of a]] by (simp add: of_nat_and_eq)
  show "bf_clean c \<noteq> NUL" unfolding c by (rule BF_itoa64_not_NUL [OF le])
  define a' where "a' = BF_atoi64 ! (of_char (bf_clean c) - 0x20)"
  have "a' < 64" "word_of_nat a' = (word_of_nat (a AND 0x30) :: byte)"
    using 1 by (auto simp: BF_safe_atoi64_def Let_def a'_def a(2) of_nat_and_eq split: if_splits)
  then have "a' = a AND 0x30" using le [of a] by (auto simp: word_of_nat_eq_iff take_bit_eq_mod)
  then have "a' AND 0x30 = a AND 0x30" by (simp add: and.assoc)
  moreover have "bf_clean (bf_clean c) = BF_itoa64 ! (a' AND 0x30)" unfolding bf_clean_def [of "bf_clean c"] a'_def by (rule refl)
  ultimately show "bf_clean (bf_clean c) = bf_clean c" using c by metis
qed

lemma bf_setting_salt:
  assumes "bf_setting least s"
  obtains p c r v bs where "s = take 7 s @ p @ c # r" "length p = 21" "28 < length s" "s ! 28 = c" "BF_safe_atoi64 c = Some v"
    "length bs = 16" "BF_decode (drop 7 s) 16 = Some bs"
    "\<And>c' v' r'. BF_safe_atoi64 c' = Some v' \<Longrightarrow> v' AND 0x30 = v AND 0x30 \<Longrightarrow> BF_decode (p @ c' # r') 16 = Some bs"
proof -
  from assms obtain bs where bs: "BF_decode (drop 7 s) 16 = Some bs" by (auto simp: bf_setting_def)
  with BF_decode_prefix [of "drop 7 s" 5 bs] obtain p c r v where p: "drop 7 s = p @ c # r" "length p = 21"
    "BF_safe_atoi64 c = Some v" "length bs = 16"
    "\<forall>c' v' r'. BF_safe_atoi64 c' = Some v' \<longrightarrow> v' AND 0x30 = v AND 0x30 \<longrightarrow> BF_decode (p @ c' # r') 16 = Some bs" by auto
  have s: "s = take 7 s @ p @ c # r" using append_take_drop_id [of 7 s] p(1) by simp
  have "length (drop 7 s) = 22 + length r" unfolding p(1) using p(2) by simp
  then have len: "28 < length s" by simp
  have "s ! 28 = drop 7 s ! 21" using len by simp
  also have "\<dots> = c" unfolding p(1) using p(2) by (simp add: nth_append)
  finally show ?thesis using that [OF s p(2) len _ p(3,4) bs] p(5) by blast
qed

lemma unat_count: "k < 32 \<Longrightarrow> unat (push_bit k 1 :: 32 word) = 2 ^ k"
proof -
  assume "k < 32"
  then have "(2 :: nat) ^ k < 2 ^ 32" by (rule power_strict_increasing) simp
  then have "unat (word_of_nat (2 ^ k) :: 32 word) = 2 ^ k" unfolding unat_of_nat by simp
  then show ?thesis by simp
qed

lemma length_BF_words: "length (BF_words key flags salt n) = 6"
proof -
  have u: "[0..<3] = [0, 1, 2 :: nat]" by code_simp
  show ?thesis by (simp add: BF_words_def Let_def u split: prod.splits)
qed

lemma length_bf_digest: "length (bf_digest key s) = 24"
proof -
  have "length (concat (map (store_le 4 \<circ> BF_swap) ws)) = 4 * length ws" for ws
    by (induction ws) simp_all
  then show ?thesis by (simp add: bf_digest_def length_BF_words)
qed

lemma BF_crypt_eq:
  assumes "61 \<le> sz" and "sz \<le> length output" and "NUL \<notin> set s"
  shows "BF_crypt key s output sz least =
    Inr (if bf_setting (unat least) s then Some (bf_text key s @ NUL # drop 61 output) else None)"
proof (cases "bf_prefix s \<and> unat least \<le> 2 ^ BF_cost s \<and> BF_decode (drop 7 s) 16 \<noteq> None")
  case False
  then consider "\<not> bf_prefix s" | "bf_prefix s" "\<not> unat least \<le> 2 ^ BF_cost s" | "bf_prefix s" "BF_decode (drop 7 s) 16 = None" by blast
  then have "BF_crypt key s output sz least = Inr None"
  proof cases
    case 2
    then have "(push_bit (BF_cost s) 1 :: 32 word) < least"
      using unat_count [OF BF_cost_less [OF 2(1)]] by (simp add: word_less_nat_alt)
    with 2 show ?thesis using assms(1) by (simp add: BF_crypt_def BF_valid_eq Let_def)
  qed (use assms(1) in \<open>simp_all add: BF_crypt_def BF_valid_eq Let_def\<close>)
  with False show ?thesis by (auto simp: bf_setting_def)
next
  case True
  then have set: "bf_setting (unat least) s" by (simp add: bf_setting_def)
  then obtain p c r v bs where s: "28 < length s" "s ! 28 = c" "BF_decode (drop 7 s) 16 = Some bs"
    by (rule bf_setting_salt) blast
  have cnt: "unat (push_bit (BF_cost s) 1 :: 32 word) = 2 ^ BF_cost s" using unat_count BF_cost_less True by blast
  then have "\<not> (push_bit (BF_cost s) 1 :: 32 word) < least" using True by (simp add: word_less_nat_alt)
  moreover have enc: "length (BF_encode (take 23 (bf_digest key s))) = 31" by (simp add: length_BF_encode length_bf_digest)
  moreover have "concat (map (store_le 4 \<circ> BF_swap) (BF_words key (BF_flags (s ! 2)) (map (BF_swap \<circ> load_le) (chunks 4 bs))
      (2 ^ BF_cost s))) = bf_digest key s" by (simp add: bf_digest_def s(3))
  ultimately show ?thesis
    unfolding BF_crypt_def BF_valid_eq res_bind_simps cnt s(3) Let_def option.case
    using assms True set s by (simp add: setting_at_def bf_clean_def [symmetric] bf_text_def)
qed
subsection \<open>A hash checked against itself\<close>

lemma NUL_bf_text: "bf_setting least s \<Longrightarrow> NUL \<notin> set s \<Longrightarrow> NUL \<notin> set (bf_text key s)"
  by (erule bf_setting_salt) (auto simp: bf_text_def NUL_BF_encode bf_clean_atoi(2) dest: in_set_takeD dest!: bf_clean_atoi(2))

text \<open>
  The text of a hash, used as the setting of the next check, stands for the same cost and salt.
\<close>

lemma bf_text_setting:
  assumes "bf_setting least s"
  shows "bf_setting least (bf_text key0 s)" and "bf_digest key (bf_text key0 s) = bf_digest key s"
    and "take 28 (bf_text key0 s) = take 28 s" and "bf_clean (bf_text key0 s ! 28) = bf_clean (s ! 28)"
proof -
  from assms obtain p c r v bs where s: "s = take 7 s @ p @ c # r" "length p = 21" "28 < length s" "s ! 28 = c" "BF_safe_atoi64 c = Some v"
    "BF_decode (drop 7 s) 16 = Some bs"
    and dec: "\<And>c' v' r'. BF_safe_atoi64 c' = Some v' \<Longrightarrow> v' AND 0x30 = v AND 0x30 \<Longrightarrow> BF_decode (p @ c' # r') 16 = Some bs"
    by (rule bf_setting_salt) blast
  define t where "t = bf_text key0 s"
  have t: "t = take 28 s @ bf_clean c # BF_encode (take 23 (bf_digest key0 s))" by (simp add: t_def bf_text_def s(4))
  have t28: "take 28 t = take 28 s" "t ! 28 = bf_clean c" using s(3) by (simp_all add: t nth_append)
  have nth: "t ! i = s ! i" if "i < 28" for i using that s(3) by (simp add: t nth_append)
  have "take 28 s = take 7 s @ p" using arg_cong [OF s(1), of "take 28"] s(2,3) by simp
  then have "drop 7 t = p @ bf_clean c # BF_encode (take 23 (bf_digest key0 s))" using s(3) by (simp add: t)
  then have d: "BF_decode (drop 7 t) 16 = Some bs" using dec bf_clean_atoi(1) [OF s(5)] by (simp add: and.assoc)
  have "bf_prefix t" using assms s(3) nth by (simp add: bf_setting_def bf_prefix_def t)
  moreover have "BF_cost t = BF_cost s" by (simp add: BF_cost_def nth)
  ultimately show "bf_setting least (bf_text key0 s)" "bf_digest key (bf_text key0 s) = bf_digest key s"
    using assms d s(6) by (simp_all add: bf_setting_def bf_digest_def t_def [symmetric] nth)
  show "take 28 (bf_text key0 s) = take 28 s" "bf_clean (bf_text key0 s ! 28) = bf_clean (s ! 28)"
    using t28 bf_clean_atoi(3) [OF s(5)] s(4) by (simp_all add: t_def)
qed

lemma bf_text_eq_iff:
  assumes "bf_setting least s"
  shows "bf_text key (bf_text key0 s) = bf_text key0 s \<longleftrightarrow> take 23 (bf_digest key s) = take 23 (bf_digest key0 s)"
proof -
  have "bf_text key (bf_text key0 s) = take 28 s @ [bf_clean (s ! 28)] @ BF_encode (take 23 (bf_digest key s))"
    unfolding bf_text_def [of key] using bf_text_setting [OF assms] by simp
  moreover have "length (take 23 (bf_digest key s)) = length (take 23 (bf_digest key0 s))" by (simp add: length_bf_digest)
  ultimately show ?thesis unfolding bf_text_def [of key0 s] using BF_encode_inj by auto
qed

subsection \<open>\<^verbatim>\<open>crypt_blowfish\<close> as a whole\<close>

text \<open>What the caller finds in its buffer if the hash is refused.\<close>

definition bf_magic :: "string \<Rightarrow> string" where
  "bf_magic s = (if take 2 s = ''*0'' then ''*1'' else ''*0'')"

definition bf_selftest :: "string \<Rightarrow> bool" where
  "bf_selftest s \<longleftrightarrow> BF_selftest (if bf_setting 16 s then Some (s ! 2) else None) = Inr True"

lemma crypt_output_magic_eq:
  assumes "3 \<le> sz" and "3 \<le> length output"
  shows "crypt_output_magic s output sz = Inr (bf_magic s @ NUL # drop 3 output)"
proof -
  have m0: "memcpy_at 0 [CHR ''*'', CHR ''0'', NUL] output = Inr ([CHR ''*'', CHR ''0'', NUL] @ drop 3 output)"
    using assms(2) by (simp add: eval_nat_numeral)
  have m1: "memcpy_at 1 [CHR ''1''] ([CHR ''*'', CHR ''0'', NUL] @ drop 3 output) = Inr ([CHR ''*'', CHR ''1'', NUL] @ drop 3 output)"
    by (simp add: memcpy_at_def)
  consider "s = []" | c where "s = [c]" | c d r where "s = c # d # r" by (cases s; cases "tl s") auto
  then show ?thesis
    unfolding crypt_output_magic_def m0 res_bind_simps using assms(1) m1
    by cases (simp_all add: bf_magic_def setting_at_def NUL_def)
qed

lemma NUL_test_setting: "bf_prefix s \<Longrightarrow> NUL \<notin> set (BF_test_setting[2 := s ! 2])"
proof -
  assume "bf_prefix s"
  then have "s ! 2 \<noteq> NUL" by (auto simp: bf_prefix_def NUL_def)
  moreover have "NUL \<notin> set BF_test_setting" by (simp add: BF_test_setting_def NUL_def)
  ultimately show ?thesis using set_update_subset_insert [of BF_test_setting 2 "s ! 2"] by (metis insertE subsetD)
qed

lemma BF_selftest_total: "\<exists>ok. BF_selftest (if bf_setting 16 s then Some (s ! 2) else None) = Inr ok"
proof -
  have "NUL \<notin> set BF_test_setting" by (simp add: BF_test_setting_def NUL_def)
  moreover have "bf_setting 16 s \<Longrightarrow> NUL \<notin> set (BF_test_setting[2 := s ! 2])"
    using NUL_test_setting by (simp add: bf_setting_def)
  ultimately show ?thesis by (simp add: BF_selftest_def Let_def BF_crypt_eq)
qed

lemma crypt_blowfish_eq:
  assumes "length output = 128" and "NUL \<notin> set s"
  shows "\<exists>ret b. crypt_blowfish key s output 128 = Inr (ret, b) \<and> NUL \<in> set b \<and>
    cstr b = (if bf_setting 16 s \<and> bf_selftest s then bf_text key s else bf_magic s)"
proof -
  define out1 where "out1 = bf_magic s @ NUL # drop 3 output"
  have len1: "length out1 = 128" and mag: "NUL \<notin> set (bf_magic s)" "length (bf_magic s) = 2"
    using assms(1) by (auto simp: out1_def bf_magic_def NUL_def)
  obtain ok where ok: "BF_selftest (if bf_setting 16 s then Some (s ! 2) else None) = Inr ok"
    using BF_selftest_total by blast
  then have sel: "bf_selftest s \<longleftrightarrow> ok" by (simp add: bf_selftest_def)
  define out2 where "out2 = (if bf_setting 16 s then bf_text key s @ NUL # drop 61 out1 else out1)"
  have "length (bf_text key s) = 60" if "bf_setting 16 s"
    using that by (elim bf_setting_salt) (simp add: bf_text_def length_BF_encode length_bf_digest)
  then have len2: "length out2 = 128" using len1 by (simp add: out2_def)
  have "crypt_output_magic s output 128 = Inr out1" "crypt_output_magic s out2 128 = Inr (bf_magic s @ NUL # drop 3 out2)"
    using assms(1) len2 by (simp_all add: crypt_output_magic_eq out1_def)
  moreover have "BF_crypt key s out1 128 16 = Inr (if bf_setting 16 s then Some (bf_text key s @ NUL # drop 61 out1) else None)"
    using BF_crypt_eq [of 128 out1 s key 16] len1 assms(2) by simp
  ultimately have "crypt_blowfish key s output 128 = (if ok then Inr (0, out2) else Inr (-1, bf_magic s @ NUL # drop 3 out2))"
    unfolding crypt_blowfish_def Let_def using ok by (cases "bf_setting 16 s"; cases ok) (simp_all add: out2_def)
  moreover have "cstr out2 = (if bf_setting 16 s then bf_text key s else bf_magic s)"
    using NUL_bf_text [of 16 s key] assms(2) mag by (simp add: out2_def out1_def cstr_append_NUL)
  moreover have "NUL \<in> set out2" by (simp add: out2_def out1_def)
  ultimately show ?thesis using sel mag by (cases ok) (auto simp: cstr_append_NUL)
qed
subsection \<open>bcrypt as published\<close>

text \<open>
  The hash of the paper: the state after \<open>EksBlowfishSetup\<close> encrypts the three blocks of the magic text 64 times.  All
  words are big-endian.
\<close>

definition bcrypt :: "string \<Rightarrow> byte list \<Rightarrow> nat \<Rightarrow> byte list" where
  "bcrypt key salt cost =
     (let ctx = bf_setup (map (bf_key_word key) [0..<18]) (map load_be (chunks 4 salt)) (2 ^ cost)
      in concat (map (store_be 4) (concat (map (\<lambda>i.
           let (L, R) = (bf_encrypt ctx ^^ 64) (BF_magic_w ! (2 * i), BF_magic_w ! (2 * i + 1)) in [L, R]) [0..<3]))))"

lemma BF_swap_eq: "BF_swap w = load_be (store_le 4 w)"
proof (rule byte_reverse_eqI)
  define t where "t = push_bit 16 w OR drop_bit 16 w"
  have t: "bit t k \<longleftrightarrow> bit w (16 + k)" "bit t (16 + k) \<longleftrightarrow> bit w k" if "k < 16" for k
    using that by (simp_all add: t_def bit_or_iff bit_push_bit_iff bit_drop_bit_eq bit_word_high)
  have m: "bit (0x00FF00FF :: 32 word) k \<longleftrightarrow> k < 8 \<or> 16 \<le> k \<and> k < 24" for k
  proof -
    have "(0x00FF00FF :: 32 word) = mask 8 OR push_bit 16 (mask 8)" by (simp add: mask_eq_exp_minus_1)
    then show ?thesis by (simp only: bit_or_iff bit_push_bit_iff bit_mask_iff) auto
  qed
  have b: "bit (BF_swap w) k \<longleftrightarrow> k < 32 \<and> (8 \<le> k \<and> bit t (k - 8) \<and> (k < 16 \<or> 24 \<le> k) \<or> bit t (8 + k) \<and> (k < 8 \<or> 16 \<le> k \<and> k < 24))" for k
    unfolding BF_swap_def Let_def t_def [symmetric] bit_or_iff bit_push_bit_iff bit_and_iff bit_drop_bit_eq comp_apply m by auto
  fix r :: nat assume r: "r < 8"
  show "bit (BF_swap w) r \<longleftrightarrow> bit w (24 + r)" using r t(1) [of "8 + r"] by (simp add: b)
  show "bit (BF_swap w) (8 + r) \<longleftrightarrow> bit w (16 + r)" using r t(1) [of r] by (simp add: b)
  show "bit (BF_swap w) (16 + r) \<longleftrightarrow> bit w (8 + r)" using r t(2) [of "8 + r"] by (simp add: b)
  show "bit (BF_swap w) (24 + r) \<longleftrightarrow> bit w r" using r t(2) [of r] by (simp add: b)
qed

lemma BF_swap_load: "length bs = 4 \<Longrightarrow> BF_swap (load_le bs) = load_be bs"
  by (simp add: BF_swap_eq store_load_le)

lemma BF_swap_store: "store_le 4 (BF_swap w) = store_be 4 w"
  by (simp add: BF_swap_eq load_be_def store_be_def store_load_le)

lemma BF_words_eq:
  assumes "BF_set_key key flags = (ws, map2 (XOR) BF_init_P ws)" and "length ws = 18"
  shows "BF_words key flags salt n =
    (let ctx = bf_setup ws salt n in concat (map (\<lambda>i.
       let (L, R) = (bf_encrypt ctx ^^ 64) (BF_magic_w ! (2 * i), BF_magic_w ! (2 * i + 1)) in [L, R]) [0..<3]))"
proof -
  have len: "length BF_init_P = 18" by (simp add: BF_init_P_def)
  have "map2 (XOR) BF_init_P ws = map (\<lambda>i. BF_init_P ! i XOR ws ! i) [0..<18]"
    by (rule nth_equalityI) (simp_all add: len assms(2))
  then have "BF_init_state\<lparr>BF_P := map2 (XOR) BF_init_P ws\<rparr> = BF_xor_P ((!) ws) BF_init_state"
    by (simp add: BF_xor_P_def BF_init_state_def)
  moreover have "BF_ENCRYPT ctx = bf_encrypt ctx" for ctx by (simp add: fun_eq_iff BF_ENCRYPT_eq)
  ultimately show ?thesis
    unfolding BF_words_def assms(1) bf_setup_def by (simp add: BF_salted_eq BF_turn_eq)
qed

lemma bf_ascii:
  assumes "\<forall>c \<in> set key. of_char c < (128 :: nat)"
  shows "bf_signed_word key i = bf_key_word key i" and "\<not> bf_high key i"
proof -
  have b: "\<not> bit (bf_key_byte key n) 7" for n
  proof (cases "n mod Suc (length key) = length key")
    case False
    then have lt: "n mod Suc (length key) < length key" using mod_less_divisor [of "Suc (length key)" n] by linarith
    then have "of_char (key ! (n mod Suc (length key))) < (128 :: nat)" using assms by simp
    then have "\<not> bit (of_char (key ! (n mod Suc (length key))) :: nat) 7" by (simp add: bit_iff_odd)
    moreover have "bf_key_byte key n = word_of_nat (of_char (key ! (n mod Suc (length key))))"
      using lt by (simp add: bf_key_byte_def nth_append byte_of_char_def)
    ultimately show ?thesis by (simp add: bit_of_nat_iff)
  qed (simp add: bf_key_byte_def nth_append)
  then show "\<not> bf_high key i" by (simp add: bf_high_def)
  have sc: "scast (bf_key_byte key n) = (ucast (bf_key_byte key n) :: 32 word)" for n
  proof (rule bit_word_eqI)
    fix k assume "k < LENGTH(32)"
    moreover have "bit (bf_key_byte key n) k \<Longrightarrow> k < 7"
      using b [of n] bit_word_high [of k "bf_key_byte key n"] by (cases "k = 7") (auto simp: not_less_eq_eq intro: ccontr)
    ultimately show "bit (scast (bf_key_byte key n) :: 32 word) k = bit (ucast (bf_key_byte key n) :: 32 word) k"
      using b [of n] by (auto simp: bit_signed_iff bit_ucast_iff min_def)
  qed
  show "bf_signed_word key i = bf_key_word key i"
    unfolding bf_signed_word_def bf_key_word_def sc by (simp add: load_be_def load_le_def or.commute)
qed
text \<open>
  The digest of every accepted setting is the one of the paper, except for the old bug that \<^verbatim>\<open>$2x$\<close> asks for and for
  the passwords that the safety measure of \<^verbatim>\<open>$2a$\<close> is about.
\<close>

lemma bf_digest_bcrypt:
  assumes "bf_setting least s" and "NUL \<notin> set key"
    and "BF_flags (s ! 2) = 4 \<or> BF_flags (s ! 2) = 2 \<and> \<not> bf_collides key \<or> (\<forall>c \<in> set key. of_char c < (128 :: nat))"
  shows "bf_digest key s = bcrypt key (the (BF_decode (drop 7 s) 16)) (BF_cost s)"
proof -
  define ws where "ws = map (bf_key_word key) [0..<18]"
  have ws: "length ws = 18" by (simp add: ws_def)
  have len: "length BF_init_P = 18" by (simp add: BF_init_P_def)
  have fl: "BF_flags (s ! 2) \<in> {1, 2, 4}" using assms(1) BF_flags_in by (simp add: bf_setting_def)
  have dev: "\<not> (BF_flags (s ! 2) = 2 \<and> bf_collides key)" using assms(3) bf_ascii [of key] by (auto simp: bf_collides_def)
  have wd: "map (if BF_flags (s ! 2) = 1 then bf_signed_word key else bf_key_word key) [0..<18] = ws"
    using assms(3) bf_ascii(1) [of key] by (auto simp: ws_def)
  have "(map2 (XOR) BF_init_P ws)[0 := (BF_init_P ! 0 XOR ws ! 0) XOR 0] = map2 (XOR) BF_init_P ws"
    using list_update_id [of "map2 (XOR) BF_init_P ws" 0] len ws by simp
  then have "BF_set_key key (BF_flags (s ! 2)) = (ws, map2 (XOR) BF_init_P ws)"
    using BF_set_key_eq [OF assms(2) fl] dev unfolding wd by simp
  note words = BF_words_eq [OF this ws]
  obtain bs where bs: "BF_decode (drop 7 s) 16 = Some bs" "length bs = 16"
    using assms(1) by (elim bf_setting_salt)
  have "map (BF_swap \<circ> load_le) (chunks 4 bs) = map load_be (chunks 4 bs)"
    using chunks_length [of 4 bs] bs(2) by (auto simp: BF_swap_load)
  moreover have "store_le 4 \<circ> BF_swap = store_be 4" by (simp add: fun_eq_iff BF_swap_store)
  ultimately show ?thesis
    unfolding bf_digest_def bcrypt_def words bs(1) option.sel ws_def by (simp only: Let_def)
qed

text \<open>Only the first 72 characters of a password count.\<close>

lemma bf_digest_72:
  assumes "bf_setting least s" and "NUL \<notin> set key" and "NUL \<notin> set key'"
    and "72 \<le> length key" and "72 \<le> length key'" and "take 72 key = take 72 key'"
  shows "bf_digest key s = bf_digest key' s"
proof -
  have byte: "bf_key_byte key n = bf_key_byte key' n" if "n < 72" for n
  proof -
    have "key ! n = key' ! n" using assms(6) that by (metis nth_take)
    then show ?thesis using that assms(4,5) by (simp add: bf_key_byte_def nth_append)
  qed
  have w: "bf_key_word key i = bf_key_word key' i" "bf_signed_word key i = bf_signed_word key' i" "bf_high key i = bf_high key' i"
    if "i < 18" for i
    using that by (simp_all add: bf_key_word_def bf_signed_word_def bf_high_def byte)
  have fl: "BF_flags (s ! 2) \<in> {1, 2, 4}" using assms(1) BF_flags_in by (simp add: bf_setting_def)
  have "bf_collides key = bf_collides key'" using w by (auto simp: bf_collides_def)
  moreover have "map (if f = (1 :: nat) then bf_signed_word key else bf_key_word key) [0..<18] =
      map (if f = 1 then bf_signed_word key' else bf_key_word key') [0..<18]" for f
    using w by simp
  ultimately have "BF_set_key key (BF_flags (s ! 2)) = BF_set_key key' (BF_flags (s ! 2))"
    unfolding BF_set_key_eq [OF assms(2) fl] BF_set_key_eq [OF assms(3) fl] by (simp only:)
  then show ?thesis by (simp add: bf_digest_def BF_words_def)
qed

end
