(* ===== verification/Crypt.thy ===== *)
theory Crypt
  imports Base64 Crypt_Sha Crypt_Md5 Crypt_Bf Des_Equiv
begin

text \<open>
  \<^verbatim>\<open>crypt/crypt.c\<close>: the choice of a password scheme from the form of a stored hash, and the check of a
  password with it.  The schemes are those of the theories before; MD5 and SHA-1 are functions of
  OpenSSL and arguments.  What C leaves indeterminate is an argument too: the contents of
  the local buffers when a function is entered, and the addresses and contents of the stack that the SHA schemes use.
\<close>

unbundle bit_operations_syntax

subsection \<open>The code\<close>

record crypt_env =
  env_sha1 :: "byte list \<Rightarrow> byte list"
  env_md5 :: "byte list \<Rightarrow> byte list"
  env_buf :: string
  env_places :: sha_places
  env_ctx256 :: sha256_ctx
  env_alt_ctx256 :: sha256_ctx
  env_ctx512 :: sha512_ctx
  env_alt_ctx512 :: sha512_ctx

text \<open>\<^verbatim>\<open>strcmp(buf, s) == 0\<close> for an array and a C string: it stops at the first difference, and it must not run out of the array.\<close>

fun strcmp_eq :: "string \<Rightarrow> string \<Rightarrow> bool res" where
  "strcmp_eq [] s = Inl Out_Of_Bounds"
| "strcmp_eq (c # cs) [] = Inr (c = NUL)"
| "strcmp_eq (c # cs) (x # xs) = (if c = x then strcmp_eq cs xs else Inr False)"

definition crypt_check_des :: "crypt_env \<Rightarrow> string \<Rightarrow> string \<Rightarrow> bool res" where
  "crypt_check_des env plain hashed =
     res_bind (crypt_des plain hashed (env_buf env) 128) (\<lambda>(_, buf). strcmp_eq buf hashed)"

definition crypt_check_phk_md5 :: "crypt_env \<Rightarrow> string \<Rightarrow> string \<Rightarrow> md5_statics \<Rightarrow> (md5_statics \<times> bool) res" where
  "crypt_check_phk_md5 env plain hashed st =
     res_bind (crypt_md5 (env_md5 env) plain hashed (env_buf env) 128 st) (\<lambda>(_, st', buf).
     res_bind (strcmp_eq buf hashed) (\<lambda>ok. Inr (st', ok)))"

definition crypt_check_blowfish :: "crypt_env \<Rightarrow> string \<Rightarrow> string \<Rightarrow> bool res" where
  "crypt_check_blowfish env plain hashed =
     res_bind (crypt_blowfish plain hashed (env_buf env) 128) (\<lambda>(_, buf). strcmp_eq buf hashed)"

definition crypt_check_sha256 :: "crypt_env \<Rightarrow> string \<Rightarrow> string \<Rightarrow> bool res" where
  "crypt_check_sha256 env plain hashed =
     res_bind (crypt_sha256 (env_places env) (env_ctx256 env) (env_alt_ctx256 env) plain hashed (env_buf env) 128) (\<lambda>buf.
     strcmp_eq buf hashed)"

definition crypt_check_sha512 :: "crypt_env \<Rightarrow> string \<Rightarrow> string \<Rightarrow> bool res" where
  "crypt_check_sha512 env plain hashed =
     res_bind (crypt_sha512 (env_places env) (env_ctx512 env) (env_alt_ctx512 env) plain hashed (env_buf env) 128) (\<lambda>buf.
     strcmp_eq buf hashed)"

definition crypt_check_rfc2307_plain :: "string \<Rightarrow> string \<Rightarrow> bool" where
  "crypt_check_rfc2307_plain plain hashed =
     (if take 7 hashed \<noteq> ''{PLAIN}'' then False
      else if drop 7 hashed \<noteq> plain then False
      else True)"

definition crypt_check_rfc2307_sha :: "(byte list \<Rightarrow> byte list) \<Rightarrow> string \<Rightarrow> string \<Rightarrow> bool" where
  "crypt_check_rfc2307_sha sha1 plain hashed =
     (if take 5 hashed \<noteq> ''{SHA}'' then False
      else case base64_decode (drop 5 hashed) of
        None \<Rightarrow> False
      | Some b \<Rightarrow>
          if length b \<noteq> 20 then False
          else take 20 b = take 20 (sha1 (map byte_of_char plain)))"

definition crypt_check_rfc2307_ssha :: "(byte list \<Rightarrow> byte list) \<Rightarrow> string \<Rightarrow> string \<Rightarrow> bool" where
  "crypt_check_rfc2307_ssha sha1 plain hashed =
     (if take 6 hashed \<noteq> ''{SSHA}'' then False
      else case base64_decode (drop 6 hashed) of
        None \<Rightarrow> False
      | Some b \<Rightarrow>
          if length b \<le> 20 then False
          else (let salt = drop 20 b; pwsalt = map byte_of_char plain @ salt
                in take 20 b = take 20 (sha1 pwsalt)))"

datatype crypt_check_fn =
    Crypt_Check_Des | Crypt_Check_Phk_Md5 | Crypt_Check_Blowfish | Crypt_Check_Sha256 | Crypt_Check_Sha512
  | Crypt_Check_Rfc2307_Plain | Crypt_Check_Rfc2307_Sha | Crypt_Check_Rfc2307_Ssha

definition get_crypt_function :: "string \<Rightarrow> crypt_check_fn option" where
  "get_crypt_function hash =
     (if length hash = 13 \<and> strchr ''${'' (hd hash) = None then Some Crypt_Check_Des
      else case hash of
        [] \<Rightarrow> None
      | c # mcf \<Rightarrow>
          if c = CHR ''_'' then Some Crypt_Check_Des
          else if c = CHR ''$'' then
            (case strchr mcf CHR ''$'' of
               None \<Rightarrow> None
             | Some n \<Rightarrow>
                 if n = 4 \<and> take 4 mcf = ''apr1'' then Some Crypt_Check_Phk_Md5
                 else if n = 1 \<and> hd mcf = CHR ''1'' then Some Crypt_Check_Phk_Md5
                 else if n \<ge> 1 \<and> hd mcf = CHR ''2'' then Some Crypt_Check_Blowfish
                 else if n = 1 \<and> hd mcf = CHR ''5'' then Some Crypt_Check_Sha256
                 else if n = 1 \<and> hd mcf = CHR ''6'' then Some Crypt_Check_Sha512
                 else None)
          else if c = CHR ''{'' then
            (case strchr mcf CHR ''}'' of
               None \<Rightarrow> None
             | Some n \<Rightarrow>
                 if n = 5 \<and> take 5 mcf = ''PLAIN'' then Some Crypt_Check_Rfc2307_Plain
                 else if n = 3 \<and> take 3 mcf = ''SHA'' then Some Crypt_Check_Rfc2307_Sha
                 else if n = 4 \<and> take 4 mcf = ''SSHA'' then Some Crypt_Check_Rfc2307_Ssha
                 else None)
          else None)"

text \<open>The call through the function pointer.\<close>

fun crypt_fn :: "crypt_env \<Rightarrow> crypt_check_fn \<Rightarrow> string \<Rightarrow> string \<Rightarrow> md5_statics \<Rightarrow> (md5_statics \<times> bool) res" where
  "crypt_fn env Crypt_Check_Des plain hash st = res_bind (crypt_check_des env plain hash) (\<lambda>ok. Inr (st, ok))"
| "crypt_fn env Crypt_Check_Phk_Md5 plain hash st = crypt_check_phk_md5 env plain hash st"
| "crypt_fn env Crypt_Check_Blowfish plain hash st = res_bind (crypt_check_blowfish env plain hash) (\<lambda>ok. Inr (st, ok))"
| "crypt_fn env Crypt_Check_Sha256 plain hash st = res_bind (crypt_check_sha256 env plain hash) (\<lambda>ok. Inr (st, ok))"
| "crypt_fn env Crypt_Check_Sha512 plain hash st = res_bind (crypt_check_sha512 env plain hash) (\<lambda>ok. Inr (st, ok))"
| "crypt_fn env Crypt_Check_Rfc2307_Plain plain hash st = Inr (st, crypt_check_rfc2307_plain plain hash)"
| "crypt_fn env Crypt_Check_Rfc2307_Sha plain hash st = Inr (st, crypt_check_rfc2307_sha (env_sha1 env) plain hash)"
| "crypt_fn env Crypt_Check_Rfc2307_Ssha plain hash st = Inr (st, crypt_check_rfc2307_ssha (env_sha1 env) plain hash)"

definition crypt_check :: "crypt_env \<Rightarrow> string \<Rightarrow> string \<Rightarrow> md5_statics \<Rightarrow> (md5_statics \<times> bool) res" where
  "crypt_check env plain hash0 st =
     (let hash = (if take 7 hash0 = ''{CRYPT}'' then drop 7 hash0 else hash0) in
      case get_crypt_function hash of
        None \<Rightarrow> Inr (st, False)
      | Some f \<Rightarrow> crypt_fn env f plain hash st)"

subsection \<open>What is accepted\<close>





lemma strcmp_eq_cstr: "NUL \<in> set buf \<Longrightarrow> NUL \<notin> set s \<Longrightarrow> strcmp_eq buf s = Inr (cstr buf = s)"
  by (induction buf s rule: strcmp_eq.induct) (auto simp: cstr_def)


subsection \<open>Each scheme\<close>






subsection \<open>The whole check\<close>






text \<open>An environment for examples: constant digests, and memory filled with zeroes.\<close>

definition zero_env :: crypt_env where
  "zero_env = \<lparr>env_sha1 = (\<lambda>_. replicate 20 0), env_md5 = (\<lambda>_. replicate 16 0), env_buf = replicate 128 NUL,
     env_places = \<lparr>pl_key = 0, pl_salt = 0, pl_key_tmp = 0, pl_salt_tmp = 0, pl_alt_result = 0, pl_p_bytes = 0, pl_s_bytes = 0,
       pl_alloca = (\<lambda>k. replicate k 0)\<rparr>,
     env_ctx256 = \<lparr>sha256_H = [], sha256_total0 = 0, sha256_total1 = 0, sha256_buflen = 0, sha256_buffer = replicate 128 0\<rparr>,
     env_alt_ctx256 = \<lparr>sha256_H = [], sha256_total0 = 0, sha256_total1 = 0, sha256_buflen = 0, sha256_buffer = replicate 128 0\<rparr>,
     env_ctx512 = \<lparr>sha512_H = [], sha512_total0 = 0, sha512_total1 = 0, sha512_buflen = 0, sha512_buffer = replicate 256 0\<rparr>,
     env_alt_ctx512 = \<lparr>sha512_H = [], sha512_total0 = 0, sha512_total1 = 0, sha512_buflen = 0, sha512_buffer = replicate 256 0\<rparr>\<rparr>"


subsection \<open>Hashes of bcrypt\<close>


subsection \<open>Properties\<close>





text \<open>Where a scheme refuses the setting, the answer is not a refusal: the result of the hash function is ignored, and the
  hash is compared with what the buffer on the stack happened to hold.  A stored hash left there by an earlier call makes
  every password right.\<close>

theorem crypt_check_stale:
  assumes "get_crypt_function hash = Some f" and "take 7 hash \<noteq> ''{CRYPT}''" and "NUL \<notin> set hash"
    and "f = Crypt_Check_Phk_Md5 \<and> md5_setting hash = None \<or>
      f = Crypt_Check_Des \<and> hd hash \<noteq> CHR ''_'' \<and> (ascii_is_unsafe (hash ! 0) \<or> ascii_is_unsafe (hash ! 1))"
    and "NUL \<in> set (env_buf env)"
  shows "\<exists>st'. crypt_check env plain hash st = Inr (st', cstr (env_buf env) = hash)"
  using assms(4)
proof
  assume f: "f = Crypt_Check_Phk_Md5 \<and> md5_setting hash = None"
  then obtain st' where "crypt_md5 (env_md5 env) plain hash (env_buf env) 128 st = Inr (-1, st', env_buf env)"
    using crypt_md5_fails by blast
  then have "crypt_check_phk_md5 env plain hash st = Inr (st', cstr (env_buf env) = hash)"
    using assms(3,5) by (simp add: crypt_check_phk_md5_def strcmp_eq_cstr)
  then show ?thesis using assms(1,2) f by (simp add: crypt_check_def)
next
  assume f: "f = Crypt_Check_Des \<and> hd hash \<noteq> CHR ''_'' \<and> (ascii_is_unsafe (hash ! 0) \<or> ascii_is_unsafe (hash ! 1))"
  then have "hash = [] \<or> hd hash \<noteq> CHR ''_'' \<and> (ascii_is_unsafe (hd hash) \<or> tl hash = [] \<or> ascii_is_unsafe (hd (tl hash)))"
    by (cases hash; cases "tl hash") auto
  then have "crypt_des plain hash (env_buf env) 128 = Inr (-1, env_buf env)" by (rule crypt_des_unsafe)
  then show ?thesis using assms f by (simp add: crypt_check_def crypt_check_des_def strcmp_eq_cstr)
qed

theorem crypt_check_stale_witness:
  "let hash = ''$1$longersalt$x''; env = zero_env\<lparr>env_buf := hash @ replicate 113 NUL\<rparr>; st = \<lparr>st_sp = [], st_salt_copy = []\<rparr> in
   get_crypt_function hash = Some Crypt_Check_Phk_Md5 \<and> md5_setting hash = None \<and>
   (\<exists>st'. crypt_check env ''wrong'' hash st = Inr (st', True)) \<and>
   (\<exists>st'. crypt_check zero_env ''wrong'' hash st = Inr (st', False))"
proof -
  let ?hash = "''$1$longersalt$x''"
  let ?env = "zero_env\<lparr>env_buf := ?hash @ replicate 113 NUL\<rparr>"
  let ?st = "\<lparr>st_sp = [], st_salt_copy = []\<rparr>"
  have get: "get_crypt_function ?hash = Some Crypt_Check_Phk_Md5" "md5_setting ?hash = None" by code_simp+
  have nul: "NUL \<notin> set ?hash" by (simp add: NUL_def)
  have "\<exists>st'. crypt_check env ''wrong'' ?hash ?st = Inr (st', cstr (env_buf env) = ?hash)" if "NUL \<in> set (env_buf env)" for env
    by (rule crypt_check_stale [OF get(1) _ nul _ that]) (use get(2) in simp_all)
  from this [of ?env] this [of zero_env] show ?thesis
    unfolding Let_def using get cstr_append_NUL [OF nul, of "replicate 112 NUL"]
    by (simp add: zero_env_def numeral_eq_Suc cstr_def)
qed

end
