(* ===== verification/Spec2Isabelle.thy ===== *)
theory Spec2Isabelle
  imports Prelude Hash Base64 Strmatch Api Config Remap_Path Auth Objects Remap_Host Remap_Db Remap_Build Watcher Synth Tls Compress Plugin Bytes Digest Sha256 Sha512 Itoa64 Crypt_Sha Crypt_Md5 Crypt_Des Des_Ref Des_Equiv Blowfish Crypt_Bf Crypt
begin

text \<open>
  A verification development for the Kubernetes ingress controller plugin of Apache Traffic Server.

  \<^bold>\<open>The program.\<close>  The plugin routes the requests of a Traffic Server to the services of a Kubernetes cluster.
  A watcher thread (\<^verbatim>\<open>api/watcher.c\<close>) fetches the Ingresses, Services, Endpoints, Secrets and one ConfigMap
  from the API server and keeps them up to date from watch streams.  The objects (\<^verbatim>\<open>api/*.c\<close>) live in the tables of
  namespaces (\<^verbatim>\<open>util/hash.c\<close>).  After a change a callback builds a routing table from the cluster
  (\<^verbatim>\<open>remap/remap_build.c\<close>), which has hosts (\<^verbatim>\<open>remap_host.c\<close>) with paths (\<^verbatim>\<open>remap_path.c\<close>).  For every
  request a hook (\<^verbatim>\<open>tsapi/remap.c\<close>) looks up the host and the path and decides on redirects, authentication
  (\<^verbatim>\<open>auth/auth.c\<close>, with the password hashes of \<^verbatim>\<open>crypt/\<close>), CORS, the URL and the backend (\<^verbatim>\<open>remap_db.c\<close>); then it configures the transaction, or answers
  the request itself (\<^verbatim>\<open>tsapi/synth.c\<close>).  Another hook (\<^verbatim>\<open>tsapi/tls.c\<close>) picks the certificate of a TLS
  connection.  Paths are relative to the source tree.

  \<^bold>\<open>Conventions.\<close>  C code that can fault returns \<open>'a res = fault + 'a\<close>: a NULL pointer that is read, an access out of
  bounds, a failed assertion, or a loop that never ends.  A pointer that may be NULL is an option, a NUL-terminated
  string is a \<open>string\<close>, and where a buffer with a length is read as a C string the model cuts it with \<open>cstr\<close>.  Structures
  are records with the field names of the source.  Integers are \<open>int\<close> or \<open>nat\<close> where the code stays far from the limits,
  and machine words where they matter (the hash function, addresses and masks, ports of server addresses, base64, the cache key, the ciphers).  Allocation
  is assumed to succeed.  Code outside the source tree is a parameter: \<open>json_ops\<close> and \<open>parse\<close> (json-c), \<open>ssl_ops\<close> (OpenSSL),
  \<open>regexec\<close> and \<open>ext_regcomp\<close> (the regular expression library), \<open>inet_pton4\<close> and \<open>inet_pton6\<close>, \<open>md5\<close> and \<open>sha1\<close> (OpenSSL),
  \<open>rnd\<close> (the result of \<^verbatim>\<open>rand\<close>).  The check of a password is an argument of \<open>Auth\<close> and its clients too; this theory fills it with that
  of \<^verbatim>\<open>crypt/crypt.c\<close>, which \<open>Crypt\<close> models.  What is assumed of them is named: \<open>json_documented\<close>,
  \<open>regexec_ok\<close>.  libcurl and Traffic Server appear through the data they hand to the code and the calls that the code makes.

  \<^bold>\<open>The theories.\<close>
  \<^item> \<open>Prelude\<close>: the fault monad, folds over it and their invariants, C strings, \<^verbatim>\<open>strchr\<close>, \<^verbatim>\<open>strtok_r\<close>, \<^verbatim>\<open>strsep\<close>,
    \<^verbatim>\<open>atoi\<close>, \<^verbatim>\<open>snprintf\<close>, printing of numbers.
  \<^item> \<open>Hash\<close> (\<^verbatim>\<open>util/hash.c\<close>): the chained table.  The locales \<open>kv_stack\<close>, \<open>kv_store\<close> and \<open>kv_map\<close> are the contracts
    that its clients use; the table implements them (\<open>ht\<close>): a stack of values per key, and a map where keys are deleted before they
    are set.  Iteration ends and visits every entry once.
  \<^item> \<open>Base64\<close>, \<open>Strmatch\<close>: round trip and bounds of base64; the matcher is glob matching on patterns without brackets and
    escapes, and reads out of bounds on others.
  \<^item> \<open>Api\<close> (\<^verbatim>\<open>api/api.h\<close>, \<^verbatim>\<open>namespace.c\<close>, \<^verbatim>\<open>cluster.c\<close>): the cluster state, its well-formedness and the
    four kinds of objects through one locale, the configuration, domain patterns and the domain access list,
    which is not the documented first-match rule.
  \<^item> \<open>Config\<close> (\<^verbatim>\<open>tsapi/config.c\<close>): every configuration that loads is usable; the environment wins over the file.
  \<^item> \<open>Objects\<close> (\<^verbatim>\<open>secret.c\<close>, \<^verbatim>\<open>configmap.c\<close>, \<^verbatim>\<open>service.c\<close>, \<^verbatim>\<open>endpoints.c\<close>, \<^verbatim>\<open>ingress.c\<close>): objects from
    JSON, which are well formed when they are made, with the inputs that crash the constructors; \<open>json_c\<close> is an instance of the JSON
    functions for examples.
  \<^item> \<open>Remap_Path\<close>, \<open>Auth\<close>: annotations, address lists, password files (with exactly the lines on which reading them never ends) and the choice of a backend; Basic authentication is
    sound and complete, addresses match as the CIDR notation says.
  \<^item> \<open>Remap_Host\<close>, \<open>Remap_Db\<close>: the search for a path, the whole routing of a request, and what it guarantees: only
    admitted requests reach a backend, no request faults on a well-formed database, the query is sorted (always, not only on demand as documented), cache keys are
    injective below their length limits.
  \<^item> \<open>Remap_Build\<close>: the build of the database.  The locale \<open>host_invariant\<close> proves a property of all hosts once; it is
    interpreted for well-formedness (\<open>built\<close>), for the isolation of namespaces (\<open>isolated\<close>) and for the settings that
    hosts with explicit paths lose (\<open>explicit\<close>).
  \<^item> \<open>Watcher\<close>: watch streams in any chunks, events (locale \<open>watched\<close>: the last event about an object wins), the full
    fetch, and the thread as the step relation \<open>watcher_step\<close> with its invariant: what the callback has not seen is flagged.
  \<^item> \<open>Synth\<close>, \<open>Tls\<close>, \<open>Compress\<close>, \<open>Plugin\<close> (\<^verbatim>\<open>tsapi\<close>): the response buffer, an array of fixed size that is never written
    out of bounds; the SNI hook; the decisions of compression; and the request hook, with the failures of Traffic Server it handles and the events of a transaction.
  \<^item> \<open>Bytes\<close>, \<open>Digest\<close>, \<open>Sha256\<close>, \<open>Sha512\<close> (\<^verbatim>\<open>crypt/crypt_sha256.c\<close>, \<^verbatim>\<open>crypt_sha512.c\<close>): arrays of bytes and words in
    memory, and the hash contexts, which compute SHA-256 and SHA-512 however the message is cut into pieces.  The locale \<open>digest\<close> is the
    contract of a context; both are instances (\<open>d256\<close>, \<open>d512\<close>).
  \<^item> \<open>Itoa64\<close>, \<open>Crypt_Sha\<close>, \<open>Crypt_Md5\<close>, \<open>Crypt_Des\<close>, \<open>Des_Ref\<close>, \<open>Des_Equiv\<close>, \<open>Blowfish\<close>, \<open>Crypt_Bf\<close> (\<^verbatim>\<open>crypt/crypt_*.c\<close>): the password
    hashes.  For each the text that it writes, that it stays in its buffer, and which passwords a text accepts; Blowfish and bcrypt
    are the published algorithms, and the table-driven DES, key schedule included, is the standard one.
  \<^item> \<open>Crypt\<close> (\<^verbatim>\<open>crypt/crypt.c\<close>): the choice of a scheme from the form of a hash.  A check accepts exactly the passwords of the
    published scheme, where the scheme accepts the setting; where it does not, the answer depends on the stack.
  \<^item> this theory: from the API server to the backend, and from the secret to the answer of Basic authentication, over all of them.

  \<^bold>\<open>Termination.\<close>  There is no fuel.  Loops are structural or have a measure (iteration over a table, splitting of strings, lines
  of a stream, the matcher); the two loops that may not end (\<^verbatim>\<open>trim_eol\<close> on an empty password, reading a certificate
  chain) are partial functions into an option, where not ending is None.

  \<^bold>\<open>Not modelled.\<close>  Freeing memory except where a function of the table decides it; locks and the interleaving of the
  watcher with requests (the steps of the watcher and the hooks are atomic); the loops that drive zlib and brotli over the buffers of
  Traffic Server; clearing secrets from memory; the log of
  \<^verbatim>\<open>tsapi/debug.c\<close>; the registration in \<^verbatim>\<open>tsapi/plugin.c\<close>; brotli, rax, the queue macros, tests and packaging.
\<close>

subsection \<open>From the API server to the backend\<close>

text \<open>
  What the current state of the cluster allows: requests for host \<open>h\<close> go to target \<open>t\<close> for an Ingress of
  namespace \<open>n\<close> that names the host, if the namespace may use the domain and the target is a backend of one of its services.
\<close>

definition serves :: "k8s_config_t \<Rightarrow> cluster_t \<Rightarrow> string \<Rightarrow> remap_target_t \<Rightarrow> bool" where
  "serves cfg cs h t \<longleftrightarrow> (\<exists>n k ing sname svc. cluster_lookup namespace_get_ingress cs n k = Some ing
     \<and> class_handled cfg ing \<and> names_host ing h \<and> cluster_domain_for_ns cs h n
     \<and> cluster_lookup namespace_get_service cs n sname = Some svc \<and>
     (sv_type svc = Some ''ExternalName'' \<and> sv_external_name svc = Some (rt_host t) \<or>
      (\<exists>eps es addr pn epp. cluster_lookup namespace_get_endpoints cs n (sv_name svc) = Some eps \<and> es \<in> set (ep_subsets eps)
         \<and> addr \<in> set (es_addrs es) \<and> ea_ip addr = Some (rt_host t)
         \<and> hash_get (es_ports es) pn = Some epp \<and> et_port epp = rt_port t)))"

lemma may_serve_serves:
  assumes "cluster_ok cs" and "may_serve cfg cs ns ing h" and "backend_of ns t"
  shows "serves cfg cs h t"
proof -
  from assms(2) obtain n k where n: "(n, ns) \<in> set (hash_foreach (cs_namespaces cs))"
    and k: "(k, ing) \<in> set (hash_foreach (ns_ingresses ns))"
    and h: "class_handled cfg ing" "names_host ing h" "cluster_domain_for_ns cs h (ns_name ns)"
    by (auto simp: may_serve_def)
  have ns: "hash_get (cs_namespaces cs) n = Some ns" using assms(1) n by (simp add: cluster_ok_def hash_unique_foreach)
  then have ok: "namespace_ok ns" "ns_name ns = n" using assms(1) by (auto simp: cluster_ok_def)
  have ing: "namespace_get_ingress ns k = Some ing"
    using ok(1) k by (simp add: namespace_ok_def namespace_get_ingress_def hash_unique_foreach)
  have look: "cluster_lookup get cs n x = get ns x" for get :: "namespace_t \<Rightarrow> string \<Rightarrow> 'o option" and x
    by (simp add: cluster_lookup_def ns)
  from assms(3) ing h ok(2) show ?thesis unfolding serves_def backend_of_def
    by - (rule exI [of _ n], rule exI [of _ k], rule exI [of _ ing], simp add: look)
qed

lemma serves_same_objects:
  assumes "same_objects cs cs'"
  shows "serves cfg cs' = serves cfg cs"
proof -
  have "cluster_domain_for_ns cs' = cluster_domain_for_ns cs"
    using assms by (intro domain_for_ns_config) (simp add: same_objects_def)
  with assms show ?thesis by (simp add: same_objects_def serves_def [abs_def])
qed

lemma remapped_target:
  assumes "remap_db_from_cluster E cfg cs = Inr (db, cs')" and "cluster_ok cs"
    and "remap_run regexec pw_check rnd db req = Inr (RR_OK, res)"
  shows "\<exists>h t. rr_host req = Some h \<and> rz_target res = Some t \<and> serves cfg cs h t"
proof -
  from assms(3) obtain host rh rp n t where f: "rr_host req = Some host" "remap_db_get_host db host = Some rh"
    "remap_host_find_path regexec rh (rr_path req) = Inr (rp, n)" and t: "t \<in> set (rp_addrs rp)" "rz_target res = Some t"
    by (rule remap_run_result)
  have iso: "isolated_host cfg cs host rh" using built_db_isolated [OF assms(1)] f(2) by blast
  have "host_ok rh" using built_db_host_ok [OF assms(1)] f(2) by blast
  then have "rp \<in> set (rh_paths rh)" using remap_host_find_path_total [of rh regexec "rr_path req"] f(3) by auto
  with iso t(1) obtain ns ing where "may_serve cfg cs ns ing host" "backend_of ns t"
    unfolding isolated_host_def by blast
  with may_serve_serves [OF assms(2)] f(1) t(2) show ?thesis by blast
qed

text \<open>An example: the five lists of an API server with one Ingress, one Service and its Endpoints.\<close>

definition example_ingress_json :: json where
  "example_ingress_json = JObj [(''metadata'', example_meta []), (''spec'', JObj [(''rules'', JArr [JObj [
     (''host'', JStr ''www.example.com''),
     (''http'', JObj [(''paths'', JArr [JObj [(''path'', JStr ''/app''),
        (''backend'', JObj [(''serviceName'', JStr ''web''), (''servicePort'', JStr ''80'')])]])])]])])]"

definition example_service_json :: json where
  "example_service_json = JObj [(''metadata'', example_meta []),
     (''spec'', JObj [(''type'', JStr ''ClusterIP''), (''ports'', JArr [JObj [(''port'', JInt 80)]])])]"

definition example_endpoints_json :: json where
  "example_endpoints_json = JObj [(''metadata'', example_meta []), (''subsets'', JArr [JObj [
     (''addresses'', JArr [JObj [(''ip'', JStr ''10.0.0.1'')]]), (''ports'', JArr [JObj [(''port'', JInt 8080)]])]])]"

definition example_list :: "string \<Rightarrow> json list \<Rightarrow> json" where
  "example_list kind items = JObj [(''kind'', JStr kind), (''items'', JArr items), (''metadata'', JObj [(''resourceVersion'', JStr ''7'')])]"

definition example_api :: "string \<Rightarrow> json option" where
  "example_api text =
     (if text = ''i'' then Some (example_list ''IngressList'' [example_ingress_json])
      else if text = ''s'' then Some (example_list ''ServiceList'' [example_service_json])
      else if text = ''e'' then Some (example_list ''EndpointsList'' [example_endpoints_json])
      else if text = ''l'' then Some (example_list ''SecretList'' [])
      else None)"

definition example_bodies :: "(nat \<times> bool \<times> string option) list" where
  "example_bodies = [(0, True, Some ''s''), (1, True, Some ''e''), (2, True, Some ''l''), (3, True, Some ''l''), (4, True, Some ''i'')]"

lemma example_api_lists:
  "response_list json_c example_api (Some ''i'') = Inr (Some (''7'', Some ''IngressList'', [example_ingress_json]))"
  "response_list json_c example_api (Some ''s'') = Inr (Some (''7'', Some ''ServiceList'', [example_service_json]))"
  "response_list json_c example_api (Some ''e'') = Inr (Some (''7'', Some ''EndpointsList'', [example_endpoints_json]))"
  "response_list json_c example_api (Some ''l'') = Inr (Some (''7'', Some ''SecretList'', []))"
  by (simp_all add: response_list_def cstr_def NUL_def example_api_def example_list_def json_c_def json_str_def json_elems_def)

lemmas example_json_defs = object_meta_def example_meta_def json_c_def json_str_def json_num_def json_any_def json_table_def
  json_array_def json_elems_def Let_def

text \<open>The objects: the service has the port 80, its endpoints one address with the port 8080.\<close>

definition example_port :: service_port_t where
  "example_port = \<lparr>sp_name = [], sp_port = 80, sp_target_port = 80, sp_protocol = SV_P_TCP\<rparr>"

definition example_subset :: endpoints_subset_t where
  "example_subset = \<lparr>es_addrs = [\<lparr>ea_ip = Some ''10.0.0.1'', ea_nodename = None\<rparr>],
     es_ports = hash_set (hash_new 7 True) [] \<lparr>et_name = [], et_port = 8080, et_protocol = ''TCP''\<rparr>\<rparr>"

lemma example_made:
  "ingress_make json_c example_ingress_json = Inr (Some example_ing)"
  "\<exists>svc. service_make json_c example_service_json = Inr (Some svc) \<and> sv_name svc = ''web'' \<and> sv_type svc = Some ''ClusterIP''
     \<and> sv_ports svc = Some (hash_set (hash_new 127 True) [] example_port)"
  "endpoints_make json_c example_endpoints_json = Inr (Some \<lparr>ep_name = ''web'', ep_namespace = ''default'', ep_subsets = [example_subset]\<rparr>)"
  by (simp_all add: example_ingress_json_def ingress_make_def ingress_rule_make_def ingress_path_make_def example_ing_def
      example_service_json_def service_make_def service_add_port_def service_port_make_def example_port_def
      example_endpoints_json_def endpoints_make_def endpoints_subset_make_def endpoints_add_port_def endpoints_port_make_def
      endpoints_address_make_def example_subset_def example_json_defs)

lemma example_item_namespaces:
  "item_namespace json_c example_ingress_json = Inr (Some ''default'')"
  "item_namespace json_c example_service_json = Inr (Some ''default'')"
  "item_namespace json_c example_endpoints_json = Inr (Some ''default'')"
  by (simp_all add: example_ingress_json_def example_service_json_def example_endpoints_json_def item_namespace_def example_json_defs)

lemma example_endpoints:
  assumes "sv_name svc = ''web''" "sv_type svc = Some ''ClusterIP''" "sv_ports svc = Some (hash_set (hash_new 127 True) [] example_port)"
    and "namespace_get_endpoints ns ''web'' = Some \<lparr>ep_name = ''web'', ep_namespace = ''default'', ep_subsets = [example_subset]\<rparr>"
  shows "build_add_endpoints ns svc (Some ''80'') rp = Inr (remap_path_add_address rp ''10.0.0.1'' 8080)"
proof -
  have "service_find_port svc ''80'' SV_P_TCP = Inr (Some example_port)"
    using assms(3) by (simp add: service_find_port_def hash_foreach_single port_matches_def example_port_def atoi_80)
  then show ?thesis
    using assms by (simp add: build_add_endpoints_def add_subset_def example_subset_def example_port_def add_subset_address_def)
qed

lemma example_fetched:
  "\<exists>cs. fetcher_get_all json_c example_api example_config (Some example_bodies) (ws_watcher watcher_init)
       = Inr (True, \<lparr>wt_cluster = cs, wt_versions = replicate 5 (Some ''7'')\<rparr>)
     \<and> (\<exists>db cs'. remap_db_from_cluster example_ext example_config cs = Inr (db, cs')
          \<and> remap_db_get_host db ''www.example.com'' = Some (example_built ''10.0.0.1'' 8080)
          \<and> rd_healthcheck db = Some ''/__trafficserver_alive'')"
proof -
  obtain svc where svc: "service_make json_c example_service_json = Inr (Some svc)" "sv_name svc = ''web''"
    "sv_type svc = Some ''ClusterIP''" "sv_ports svc = Some (hash_set (hash_new 127 True) [] example_port)" using example_made(2) by blast
  define eps where "eps = \<lparr>ep_name = ''web'', ep_namespace = ''default'', ep_subsets = [example_subset]\<rparr>"
  define ns where "ns = namespace_put_ingress (namespace_put_endpoints (namespace_put_service (namespace_make ''default'') svc) eps) example_ing"
  define cs0 where "cs0 = cluster_get_namespace cluster_make ''default''"
  define cs1 where "cs1 = cluster_update_namespace cs0 ''default'' (\<lambda>ns. namespace_put_service ns svc)"
  define cs1' where "cs1' = cluster_get_namespace cs1 ''default''"
  define cs2 where "cs2 = cluster_update_namespace cs1' ''default'' (\<lambda>ns. namespace_put_endpoints ns eps)"
  define cs2' where "cs2' = cluster_get_namespace cs2 ''default''"
  define cs3 where "cs3 = cluster_update_namespace cs2' ''default'' (\<lambda>ns. namespace_put_ingress ns example_ing)"
  define cs where "cs = cluster_make\<lparr>cs_namespaces := cs_namespaces cs3\<rparr>"
  have none: "replicate 5 (x :: string option) = [x, x, x, x, x]" for x by (simp add: numeral_eq_Suc)
  have fetch: "fetcher_get_all json_c example_api example_config (Some example_bodies) (ws_watcher watcher_init)
      = Inr (True, \<lparr>wt_cluster = cs, wt_versions = replicate 5 (Some ''7'')\<rparr>)"
    unfolding watcher_init_def none example_bodies_def
    by (simp add: fetcher_get_all_def fetcher_process_eq example_api_lists fetcher_process_item_eq example_made example_item_namespaces
        fetch_new_def fetch_object_def svc(1) cs_def cs3_def cs2'_def cs2_def cs1'_def cs1_def cs0_def eps_def)
  have ok0: "cluster_ok cs0" unfolding cs0_def by (rule cluster_get_namespace_ok) simp
  have ok1: "cluster_ok cs1" unfolding cs1_def by (rule services.cluster_put(1) [OF ok0])
  have ok1': "cluster_ok cs1'" unfolding cs1'_def by (rule cluster_get_namespace_ok [OF ok1])
  have ok2: "cluster_ok cs2" unfolding cs2_def by (rule endpointses.cluster_put(1) [OF ok1'])
  have ok2': "cluster_ok cs2'" unfolding cs2'_def by (rule cluster_get_namespace_ok [OF ok2])
  have ok3: "cluster_ok cs3" unfolding cs3_def by (rule ingresses.cluster_put(1) [OF ok2'])
  have l0: "hash_get (cs_namespaces cs0) k = (if k = ''default'' then Some (namespace_make ''default'') else None)" for k
    unfolding cs0_def by (simp add: cluster_get_namespace_lookup) (simp add: cluster_make_def)
  have l3: "hash_get (cs_namespaces cs3) k = (if k = ''default'' then Some ns else None)" for k
    unfolding cs3_def cluster_update_namespace_lookup [OF ok2'] unfolding cs2'_def cluster_get_namespace_lookup [OF ok2]
    unfolding cs2_def cluster_update_namespace_lookup [OF ok1'] unfolding cs1'_def cluster_get_namespace_lookup [OF ok1]
    unfolding cs1_def cluster_update_namespace_lookup [OF ok0] by (simp add: l0 ns_def)
  have fe1: "hash_foreach (cs_namespaces cs) = [(''default'', ns)]"
    using ok3 l3 by (intro hash_foreach_unique) (simp_all add: cluster_ok_def cs_def)
  have nsok: "namespace_ok ns" unfolding ns_def by (intro namespace_ops_ok) simp
  have fe2: "hash_foreach (ns_ingresses ns) = [(''web'', example_ing)]"
    using nsok by (intro hash_foreach_unique) (simp_all add: namespace_ok_def ns_def namespace_op_defs namespace_make_def
        namespace_table_simps example_ing_def)
  have get: "namespace_get_service ns ''web'' = Some svc" "namespace_get_endpoints ns ''web'' = Some eps"
    using svc(2) by (simp_all add: ns_def eps_def namespace_op_defs namespace_make_def namespace_table_simps)
  have cfg: "cc_domains (cs_config cs) = []" "cc_certs (cs_config cs) = []" "cc_healthcheck (cs_config cs) = ''/__trafficserver_alive''"
    by (simp_all add: cs_def cluster_make_def cluster_config_new_def)
  from example_build_from [OF fe1 fe2 get(1) example_endpoints [OF svc(2-4) get(2) [unfolded eps_def]] cfg(1,2), of example_config] fetch cfg(3)
  show ?thesis by auto
qed

lemma example_remap:
  assumes "remap_db_get_host db ''www.example.com'' = Some (example_built host port)" and "rd_healthcheck db = Some ''/__trafficserver_alive''"
  shows "\<exists>res t. remap_run (\<lambda>_ _. Some (0, 3)) (\<lambda>_ _. False) 0 db (example_req ''http'') = Inr (RR_OK, res)
    \<and> rz_target res = Some \<lparr>rt_host = host, rt_port = port\<rparr>"
proof -
  let ?rp = "remap_path_add_address (remap_path_default\<lparr>rp_regex := Some ''^app''\<rparr>) host port"
  have "remap_host_find_path (\<lambda>_ _. Some (0, 3)) (example_built host port) (rr_path (example_req ''http'')) = Inr (?rp, 3)"
    by (simp add: remap_host_find_path_def example_built_def remap_path_add_address_def)
  from remap_run_eq [OF _ _ _ assms(1) this, of "\<lambda>_ _. False" 0] assms(2)
  have eq: "remap_run (\<lambda>_ _. Some (0, 3)) (\<lambda>_ _. False) 0 db (example_req ''http'') =
      rr_then (rr_check_tls (example_req ''http'') (rr_found (example_built host port) ?rp))
        (rr_after_tls (\<lambda>_ _. False) 0 3 (example_req ''http'') ?rp)"
    by (simp add: healthcheck_hit_def)
  have ctx: "rh_ctx (example_built host port) = None" by (simp add: example_built_def remap_host_new_eq)
  show ?thesis unfolding eq
    by (simp add: rr_check_tls_def ctx rr_after_tls_def rr_check_auth_def rr_check_cors_def rr_check_app_root_def
        rr_forward_def rewrite_path_def rr_check_proto_def remap_path_pick_target_def pick_index_def RAND_MAX_def
        remap_path_add_address_def remap_path_default_def)
qed

lemma example_published:
  "\<exists>s fes published. (watcher_step json_c example_api example_config)\<^sup>*\<^sup>* watcher_init s \<and> ws_phase s = Watching fes
     \<and> (\<forall>fe \<in> set fes. \<not> snd fe) \<and> ws_published s = Some published
     \<and> (\<exists>db cs'. remap_db_from_cluster example_ext example_config published = Inr (db, cs')
          \<and> remap_db_get_host db ''www.example.com'' = Some (example_built ''10.0.0.1'' 8080) \<and> rd_healthcheck db = Some ''/__trafficserver_alive'')"
proof -
  obtain cs where f: "fetcher_get_all json_c example_api example_config (Some example_bodies) (ws_watcher watcher_init)
       = Inr (True, \<lparr>wt_cluster = cs, wt_versions = replicate 5 (Some ''7'')\<rparr>)" (is "_ = Inr (True, ?wt)")
    and db: "\<exists>db cs'. remap_db_from_cluster example_ext example_config cs = Inr (db, cs')
      \<and> remap_db_get_host db ''www.example.com'' = Some (example_built ''10.0.0.1'' 8080) \<and> rd_healthcheck db = Some ''/__trafficserver_alive''"
    using example_fetched by blast
  obtain urls where u: "res_map (fetcher_watch_make example_config) (zip resource_urls (wt_versions ?wt)) = Inr urls"
    using example_watch_urls by auto
  let ?s = "\<lparr>ws_phase = Watching (map (\<lambda>_. ([], False)) urls), ws_watcher = ?wt, ws_published = Some (wt_cluster ?wt)\<rparr>"
  have "watcher_step json_c example_api example_config watcher_init ?s"
    by (rule watcher_step.fetched [OF _ f u]) (simp add: watcher_init_def)
  then have "(watcher_step json_c example_api example_config)\<^sup>*\<^sup>* watcher_init ?s" by (rule r_into_rtranclp)
  with db show ?thesis by (intro exI [of _ ?s] exI [of _ "map (\<lambda>_. ([], False)) urls"] exI [of _ cs]) simp
qed

text \<open>
  C1: A request is only ever sent to a backend that the current state of the cluster allows.  While the watcher watches and no
  change is waiting to be published, take the database that the callback has built from the published cluster, and any transaction:
  if the request hook sets a server address for it, this is the address of an endpoint, or of an external name that is
  an address, of a service in a namespace that has, in the cluster as it is now, an Ingress of a handled class naming the host of the
  request, and that the domain access list allows to use it; the port is the low 16 bits of the port of that backend, so it is
  the port itself if that is from 0 to 65535, which the code does not check.  If the hook starts a host lookup, it is for the name of such a backend.
\<close>

theorem served_from_current_state:
  assumes "(watcher_step J parse cfg)\<^sup>*\<^sup>* watcher_init s"
    and "ws_phase s = Watching fes" and "\<forall>fe \<in> set fes. \<not> snd fe" and "ws_published s = Some published"
    and "rebuild_maps E \<lparr>st_config = cfg, st_cluster = published, st_db = old\<rparr> = Inr st"
    and "handle_remap regexec pw_check inet_pton4 rnd cfg (st_db st) tx = Inr (calls, rctx)"
  shows "(\<forall>addr port. TSHttpTxnServerAddrSet (Sockaddr_Inet addr port) \<in> set calls \<longrightarrow>
      (\<exists>h t. rr_host (request_from_txn tx) = Some h \<and> inet_pton4 (rt_host t) = Some addr \<and> port = word_of_int (rt_port t)
         \<and> (0 \<le> rt_port t \<and> rt_port t < 65536 \<longrightarrow> uint port = rt_port t)
         \<and> serves cfg (wt_cluster (ws_watcher s)) h t))
    \<and> (\<forall>name. TSHostLookup name \<in> set calls \<longrightarrow>
      (\<exists>h t. rr_host (request_from_txn tx) = Some h \<and> rt_host t = name \<and> serves cfg (wt_cluster (ws_watcher s)) h t))"
proof -
  from watcher_reachable_inv [OF assms(1)] assms(2-4)
  have p: "cluster_ok published" "same_objects published (wt_cluster (ws_watcher s))" by (auto simp: watcher_inv_def)
  from assms(5) obtain db cs' where db: "remap_db_from_cluster E cfg published = Inr (db, cs')" "st_db st = Some db"
    by (auto simp: rebuild_maps_def)
  have target: "\<exists>h t. rr_host (request_from_txn tx) = Some h \<and> serves cfg (wt_cluster (ws_watcher s)) h t
      \<and> c \<in> set (send_to_target inet_pton4 (tx_cont_create tx) t)"
    if c: "c \<in> set calls" "flow c" "c \<noteq> TSHttpTxnReenable" "\<And>r. c \<noteq> TSHttpTxnIntercept r" for c
  proof -
    from handle_remap_forwards [OF assms(6) [unfolded db(2)] c] obtain res t where
      r: "remap_run regexec pw_check rnd db (request_from_txn tx) = Inr (RR_OK, res)" "rz_target res = Some t"
      "c \<in> set (send_to_target inet_pton4 (tx_cont_create tx) t)" by blast
    from remapped_target [OF db(1) p(1) r(1)] serves_same_objects [OF p(2)] r(2,3) show ?thesis by auto
  qed
  have port: "uint (word_of_int n :: 16 word) = n" if "0 \<le> n" "n < 65536" for n :: int
    using that by (simp add: uint_word_of_int)
  show ?thesis
  proof (intro conjI allI impI)
    fix addr port
    assume "TSHttpTxnServerAddrSet (Sockaddr_Inet addr port) \<in> set calls"
    from target [OF this] obtain h t where "rr_host (request_from_txn tx) = Some h" "serves cfg (wt_cluster (ws_watcher s)) h t"
      "inet_pton4 (rt_host t) = Some addr" "port = word_of_int (rt_port t)"
      by (auto simp: send_to_target_def split: option.splits if_splits)
    with port [of "rt_port t"] show "\<exists>h t. rr_host (request_from_txn tx) = Some h \<and> inet_pton4 (rt_host t) = Some addr
        \<and> port = word_of_int (rt_port t) \<and> (0 \<le> rt_port t \<and> rt_port t < 65536 \<longrightarrow> uint port = rt_port t)
        \<and> serves cfg (wt_cluster (ws_watcher s)) h t" by blast
  next
    fix name
    assume "TSHostLookup name \<in> set calls"
    from target [OF this] show "\<exists>h t. rr_host (request_from_txn tx) = Some h \<and> rt_host t = name \<and> serves cfg (wt_cluster (ws_watcher s)) h t"
      by (auto simp: send_to_target_def split: option.splits if_splits)
  qed
qed

theorem served_from_current_state_witness:
  "\<exists>s calls rctx (db :: unit remap_db_t) t. (watcher_step json_c example_api example_config)\<^sup>*\<^sup>* watcher_init s
     \<and> handle_remap (\<lambda>_ _. Some (0, 3)) (\<lambda>_ _. False) example_pton4 0 example_config (Some db) example_tx = Inr (calls, rctx)
     \<and> TSHttpTxnServerAddrSet (Sockaddr_Inet [10, 0, 0, 1] 8080) \<in> set calls
     \<and> rt_host t = ''10.0.0.1'' \<and> serves example_config (wt_cluster (ws_watcher s)) ''www.example.com'' t"
proof -
  obtain s fes published db cs' where s: "(watcher_step json_c example_api example_config)\<^sup>*\<^sup>* watcher_init s"
    "ws_phase s = Watching fes" "\<forall>fe \<in> set fes. \<not> snd fe" "ws_published s = Some published"
    and db: "remap_db_from_cluster example_ext example_config published = Inr (db, cs')"
    and h: "remap_db_get_host db ''www.example.com'' = Some (example_built ''10.0.0.1'' 8080)" "rd_healthcheck db = Some ''/__trafficserver_alive''"
    using example_published by blast
  let ?st = "\<lparr>st_config = example_config, st_cluster = cs', st_db = Some db\<rparr>"
  have st: "rebuild_maps example_ext \<lparr>st_config = example_config, st_cluster = published, st_db = None\<rparr> = Inr ?st"
    by (simp add: rebuild_maps_def db)
  obtain res where run: "remap_run (\<lambda>_ _. Some (0, 3)) (\<lambda>_ _. False) 0 db (request_from_txn example_tx) = Inr (RR_OK, res)"
    "rz_target res = Some \<lparr>rt_host = ''10.0.0.1'', rt_port = 8080\<rparr>"
    using example_remap [OF h] example_tx_request by auto
  have "tx_cookie example_tx = None" "tx_url_create example_tx" by (simp_all add: example_tx_def)
  from handle_remap_no_cookie [OF run(1) this, of example_pton4 example_config] run(2) obtain calls rctx where
    c: "handle_remap (\<lambda>_ _. Some (0, 3)) (\<lambda>_ _. False) example_pton4 0 example_config (st_db ?st) example_tx = Inr (calls, Some rctx)"
    "filter flow calls = send_to_target example_pton4 (tx_cont_create example_tx) \<lparr>rt_host = ''10.0.0.1'', rt_port = 8080\<rparr>" by auto
  have "TSHttpTxnServerAddrSet (Sockaddr_Inet [10, 0, 0, 1] 8080) \<in> set (filter flow calls)"
    unfolding c(2) by (simp add: send_to_target_def example_pton4_def)
  then have set: "TSHttpTxnServerAddrSet (Sockaddr_Inet [10, 0, 0, 1] 8080) \<in> set calls" by simp
  have "rr_host (request_from_txn example_tx) = Some ''www.example.com''" by (simp add: example_tx_request)
  with conjunct1 [OF served_from_current_state [OF s st c(1)], rule_format, OF set] obtain t where
    "example_pton4 (rt_host t) = Some [10, 0, 0, 1]" "serves example_config (wt_cluster (ws_watcher s)) ''www.example.com'' t" by (metis option.inject)
  moreover from this(1) have "rt_host t = ''10.0.0.1''" by (simp add: example_pton4_def split: if_splits)
  ultimately show ?thesis using s(1) c(1) set by auto
qed

subsection \<open>From the secret to the answer\<close>




end
